(* ===== verification/Py_Value.thy ===== *)
theory Py_Value
  imports Prelude
begin

text \<open>
  The Python values the SDK handles, their \<open>str\<close> and \<open>repr\<close> texts, and
  \<open>_make_serializable\<close> (sim_sdk/trace.py), the function every argument, result and row
  goes through before it is fingerprinted or stored.

  A float is identified by its \<open>repr\<close> text, which determines it: the SDK serialises floats and
  never computes with the ones it captures. Dictionary keys are strings, integers, booleans,
  \<open>None\<close>, or another hashable object known by its \<open>str\<close> and \<open>repr\<close> texts; float keys are
  outside the model. An object of any other class is \<open>VObj\<close>, described by the attributes the
  code probes with \<open>hasattr\<close>.
\<close>

datatype pykey = KStr string | KInt int | KBool bool | KNone | KOther string string

text \<open>
  The fields of \<open>VObj\<close>, in order: the text \<open>obj.isoformat()\<close> returns, the \<open>repr\<close> of
  \<open>float(obj)\<close>, what protobuf's \<open>MessageToDict\<close> makes of it if it is a \<open>Message\<close>, the field names of
  its class's \<open>__avro_schema__\<close>, its \<open>__dict__\<close>, what iterating it yields (each \<open>None\<close> where the
  object has no such attribute or is no message), \<open>str(obj)\<close>, \<open>repr(obj)\<close> and its class name.
\<close>

datatype pyval =
    VNone
  | VBool bool
  | VInt int
  | VFloat string
  | VStr string
  | VBytes "8 word list"
  | VList "pyval list"
  | VTuple "pyval list"
  | VSet "pyval list"
  | VDict "(pykey \<times> pyval) list"
  | VObj "string option" "string option" "pyval option" "string list option"
      "(string \<times> pyval) list option" "pyval list option" string string string

text \<open>
  Exceptions. The built-in ones the SDK can meet, its own three (sim_sdk/trace.py, db.py,
  sink/agent_client.py), an HTTP error status, and those of the host application:
  \<open>UserExn\<close> is any other subclass of \<open>Exception\<close>, \<open>BaseExn\<close> one that is not
  (\<open>KeyboardInterrupt\<close>, \<open>SystemExit\<close>), each with its class name and message.
  A \<open>Path\<close> is the list of its parts, the root \<open>/\<close> being a part of its own.
\<close>

type_synonym path = "string list"

datatype py_exn =
    TypeErr string
  | ValueErr string
  | AttributeErr string
  | FileNotFoundErr string
  | SimStubMissError string string int "path option"
  | SimWriteBlockedError string string
  | AgentUnavailableError string
  | HTTPErr nat string
  | UserExn string string
  | BaseExn string string

fun is_Exception :: "py_exn \<Rightarrow> bool" where
  "is_Exception (BaseExn _ _) = False"
| "is_Exception _ = True"

fun exn_class :: "py_exn \<Rightarrow> string" where
  "exn_class (TypeErr m) = ''TypeError''"
| "exn_class (ValueErr m) = ''ValueError''"
| "exn_class (AttributeErr m) = ''AttributeError''"
| "exn_class (FileNotFoundErr m) = ''FileNotFoundError''"
| "exn_class (SimStubMissError q f n d) = ''SimStubMissError''"
| "exn_class (SimWriteBlockedError s n) = ''SimWriteBlockedError''"
| "exn_class (AgentUnavailableError m) = ''AgentUnavailableError''"
| "exn_class (HTTPErr c m) = ''HTTPError''"
| "exn_class (UserExn c m) = c"
| "exn_class (BaseExn c m) = c"

subsection \<open>\<open>str\<close> and \<open>repr\<close>\<close>

definition hex_escape :: "nat \<Rightarrow> string" where
  "hex_escape n = [CHR 0x5C, CHR ''x''] @ [hex_digit (n div 16), hex_digit (n mod 16)]"

definition repr_char :: "(nat \<Rightarrow> bool) \<Rightarrow> char \<Rightarrow> char \<Rightarrow> string" where
  "repr_char printable q c =
     (let n = code_point c in
      if c = q \<or> n = 92 then [CHR 0x5C, c]
      else if n = 9 then [CHR 0x5C, CHR ''t''] else if n = 10 then [CHR 0x5C, CHR ''n''] else if n = 13 then [CHR 0x5C, CHR ''r'']
      else if printable n then [c] else hex_escape n)"

definition repr_quote :: "string \<Rightarrow> char" where
  "repr_quote s = (if CHR 0x27 \<in> set s \<and> CHR 0x22 \<notin> set s then CHR 0x22 else CHR 0x27)"

definition repr_quoted :: "(nat \<Rightarrow> bool) \<Rightarrow> string \<Rightarrow> string" where
  "repr_quoted printable s =
     (let q = repr_quote s in q # concat (map (repr_char printable q) s) @ [q])"

definition str_repr :: "string \<Rightarrow> string" where
  "str_repr s = repr_quoted (\<lambda>n. (32 \<le> n \<and> n < 127) \<or> (160 < n \<and> n \<noteq> 173)) s"

definition bytes_repr :: "8 word list \<Rightarrow> string" where
  "bytes_repr bs =
     CHR ''b'' # repr_quoted (\<lambda>n. 32 \<le> n \<and> n < 127) (map (\<lambda>b. char_of (unat b)) bs)"

definition bool_str :: "bool \<Rightarrow> string" where
  "bool_str b = (if b then ''True'' else ''False'')"

fun key_str :: "pykey \<Rightarrow> string" where
  "key_str (KStr s) = s"
| "key_str (KInt i) = dec_int i"
| "key_str (KBool b) = bool_str b"
| "key_str KNone = ''None''"
| "key_str (KOther s r) = s"

fun key_repr :: "pykey \<Rightarrow> string" where
  "key_repr (KStr s) = str_repr s"
| "key_repr (KOther s r) = r"
| "key_repr k = key_str k"

fun py_repr :: "pyval \<Rightarrow> string" where
  "py_repr VNone = ''None''"
| "py_repr (VBool b) = bool_str b"
| "py_repr (VInt i) = dec_int i"
| "py_repr (VFloat r) = r"
| "py_repr (VStr s) = str_repr s"
| "py_repr (VBytes bs) = bytes_repr bs"
| "py_repr (VList xs) = ''['' @ join_with '', '' (map py_repr xs) @ '']''"
| "py_repr (VTuple xs) =
     ''('' @ join_with '', '' (map py_repr xs) @ (if length xs = 1 then '',)'' else '')'')"
| "py_repr (VSet xs) =
     (if xs = [] then ''set()'' else ''{'' @ join_with '', '' (map py_repr xs) @ ''}'')"
| "py_repr (VDict kvs) =
     ''{'' @ join_with '', '' (map (\<lambda>(k, v). key_repr k @ '': '' @ py_repr v) kvs) @ ''}''"
| "py_repr (VObj _ _ _ _ _ _ s r _) = r"

fun py_str :: "pyval \<Rightarrow> string" where
  "py_str (VStr s) = s"
| "py_str (VObj _ _ _ _ _ _ s r _) = s"
| "py_str v = py_repr v"

subsection \<open>\<open>_make_serializable\<close>\<close>

fun make_serializable :: "pyval \<Rightarrow> pyval" where
  "make_serializable VNone = VNone"
| "make_serializable (VStr s) = VStr s"
| "make_serializable (VInt i) = VInt i"
| "make_serializable (VFloat r) = VFloat r"
| "make_serializable (VBool b) = VBool b"
| "make_serializable (VBytes bs) = VStr (bytes_hex bs)"
| "make_serializable (VDict kvs) =
     VDict (dict_of_items (map (\<lambda>(k, v). (KStr (key_str k), make_serializable v)) kvs))"
| "make_serializable (VList xs) = VList (map make_serializable xs)"
| "make_serializable (VTuple xs) = VList (map make_serializable xs)"
| "make_serializable (VSet xs) = VStr (py_str (VSet xs))"
| "make_serializable (VObj isof flt proto avro attrs iter s r t) =
     (case isof of Some i \<Rightarrow> VStr i
      | None \<Rightarrow> (case flt of Some f \<Rightarrow> VFloat f | None \<Rightarrow> VStr s))"

text \<open>Plain JSON data: string keys, all distinct, and only the types JSON has.\<close>

fun plain :: "pyval \<Rightarrow> bool" where
  "plain (VList xs) \<longleftrightarrow> list_all plain xs"
| "plain (VDict kvs) \<longleftrightarrow>
     distinct (map fst kvs) \<and> list_all (\<lambda>(k, v). (\<exists>s. k = KStr s) \<and> plain v) kvs"
| "plain (VBytes _) \<longleftrightarrow> False"
| "plain (VTuple _) \<longleftrightarrow> False"
| "plain (VSet _) \<longleftrightarrow> False"
| "plain (VObj _ _ _ _ _ _ _ _ _) \<longleftrightarrow> False"
| "plain _ \<longleftrightarrow> True"

lemma make_serializable_plain_lemma: "plain (make_serializable v)"
proof (induction v rule: make_serializable.induct)
  case (7 kvs)
  let ?f = "\<lambda>(k, v). (KStr (key_str k), make_serializable v)"
  have "set (dict_of_items (map ?f kvs)) \<subseteq> set (map ?f kvs)"
    by (rule set_dict_of_items)
  then show ?case
    using 7 by (fastforce simp: list_all_iff)
qed (auto simp: list_all_iff split: option.splits)

lemma make_serializable_id: "plain v \<Longrightarrow> make_serializable v = v"
proof (induction v rule: plain.induct)
  case (2 kvs)
  have "map (\<lambda>(k, v). (KStr (key_str k), make_serializable v)) kvs = kvs"
    by (rule map_idI) (use 2 in \<open>fastforce simp: list_all_iff\<close>)
  then show ?case using 2 by simp
qed (auto simp: list_all_iff intro: map_idI)

lemma make_serializable_idem: "make_serializable (make_serializable v) = make_serializable v"
  by (rule make_serializable_id [OF make_serializable_plain_lemma])

end
