(* ===== verification/Fixture.thy ===== *)
theory Fixture
  imports Py_Value
begin

text \<open>
  The fixture event every recording emits (sim_sdk/fixture/schema.py). Durations come from
  \<open>time.time()\<close>, read here in microseconds; the event holds milliseconds rounded to two decimals
  as a float text.
\<close>

record fixture_event =
  ev_fixture_id :: string
  ev_qualname :: string
  ev_run_id :: string
  ev_recorded_at :: string
  ev_input :: pyval
  ev_input_fingerprint :: string
  ev_output :: pyval
  ev_output_fingerprint :: string
  ev_stubs :: "pyval list"
  ev_duration_ms :: string
  ev_error :: "string option"
  ev_ordinal :: int
  ev_storage_key :: "string option"
  ev_event_type :: string

text \<open>\<open>FixtureEvent(fixture_id, qualname, run_id, recorded_at)\<close>, every other field at its default.\<close>

definition fixture_event_init ::
  "string \<Rightarrow> string \<Rightarrow> string \<Rightarrow> string \<Rightarrow> fixture_event" where
  "fixture_event_init fixture_id qualname run_id recorded_at =
     \<lparr>ev_fixture_id = fixture_id, ev_qualname = qualname, ev_run_id = run_id,
      ev_recorded_at = recorded_at, ev_input = VDict [], ev_input_fingerprint = [],
      ev_output = VNone, ev_output_fingerprint = [], ev_stubs = [], ev_duration_ms = ''0.0'',
      ev_error = None, ev_ordinal = 0, ev_storage_key = None, ev_event_type = ''Metadata''\<rparr>"

abbreviation str_or_none :: "string option \<Rightarrow> pyval" where
  "str_or_none x \<equiv> (case x of None \<Rightarrow> VNone | Some s \<Rightarrow> VStr s)"

abbreviation field :: "string \<Rightarrow> pyval \<Rightarrow> pykey \<times> pyval" where
  "field k v \<equiv> (KStr k, v)"

definition to_dict :: "fixture_event \<Rightarrow> pyval" where
  "to_dict e = VDict
     [field ''fixture_id'' (VStr (ev_fixture_id e)),
      field ''qualname'' (VStr (ev_qualname e)),
      field ''run_id'' (VStr (ev_run_id e)),
      field ''recorded_at'' (VStr (ev_recorded_at e)),
      field ''input'' (ev_input e),
      field ''input_fingerprint'' (VStr (ev_input_fingerprint e)),
      field ''output'' (ev_output e),
      field ''output_fingerprint'' (VStr (ev_output_fingerprint e)),
      field ''stubs'' (VList (ev_stubs e)),
      field ''duration_ms'' (VFloat (ev_duration_ms e)),
      field ''error'' (str_or_none (ev_error e)),
      field ''ordinal'' (VInt (ev_ordinal e)),
      field ''storage_key'' (str_or_none (ev_storage_key e)),
      field ''event_type'' (VStr (ev_event_type e))]"

text \<open>
  \<open>round(us / 1000, 2)\<close> in hundredths of a millisecond (ties to even), and the \<open>repr\<close> of that
  many hundredths.
\<close>

definition round_hundredths :: "int \<Rightarrow> int" where
  "round_hundredths us =
     (let q = us div 10; r = us mod 10 in
      if r < 5 then q else if 5 < r then q + 1 else if even q then q else q + 1)"

definition hundredths_repr :: "int \<Rightarrow> string" where
  "hundredths_repr h =
     (let a = nat \<bar>h\<bar> in
      (if h < 0 then ''-'' else '''') @ dec_nat (a div 100) @ ''.''
        @ (if a mod 10 = 0 then [digit_char (a div 10 mod 10)]
           else [digit_char (a div 10 mod 10), digit_char (a mod 10)]))"

text \<open>\<open>data.get(key)\<close> and \<open>data.get(key, default)\<close> on data that is a dictionary.\<close>

fun dict_items :: "pyval \<Rightarrow> (pykey \<times> pyval) list" where
  "dict_items (VDict kvs) = kvs"
| "dict_items _ = []"

definition get_field :: "string \<Rightarrow> pyval \<Rightarrow> pyval" where
  "get_field k v = (case dict_get (dict_items v) (KStr k) of None \<Rightarrow> VNone | Some x \<Rightarrow> x)"

lemma to_dict_plain:
  "plain (ev_input e) \<Longrightarrow> plain (ev_output e) \<Longrightarrow> list_all plain (ev_stubs e) \<Longrightarrow> plain (to_dict e)"
  by (simp add: to_dict_def split: option.split)

lemma get_field_to_dict:
  "get_field ''output'' (to_dict e) = ev_output e"
  "get_field ''input'' (to_dict e) = ev_input e"
  "get_field ''error'' (to_dict e) = str_or_none (ev_error e)"
  by (simp_all add: get_field_def to_dict_def)

end
