(* ===== verification/Json_Text.thy ===== *)
theory Json_Text
  imports Py_Value
begin

text \<open>
  The JSON text the SDK writes and reads back: \<open>json.dumps\<close> with compact separators
  (sim_sdk/canonical.py, sim_sdk/sink/envelope.py), \<open>json.dump(..., indent=2)\<close>
  (sim_sdk/capture.py, sim_sdk/db.py) and \<open>json.load\<close> (sim_sdk/trace.py, capture.py, db.py),
  over a datatype of JSON documents.

  Reading is a lexer and a parser over its tokens. It accepts the documents of \<open>json.load\<close> whose
  strings stay below U+0100, and keeps a float's digits as they stand. The lemmas show that reading what either writer wrote gives the document back,
  and so that the compact text determines the document.
\<close>

datatype json =
    JNull
  | JBool bool
  | JInt int
  | JFloat string
  | JStr string
  | JArr "json list"
  | JObj "(string \<times> json) list"

subsection \<open>Writing\<close>

abbreviation quote_char :: char where
  "quote_char \<equiv> CHR 0x22"

abbreviation backslash :: char where
  "backslash \<equiv> CHR 0x5C"

definition u_escape :: "nat \<Rightarrow> string" where
  "u_escape n = [backslash, CHR ''u'', CHR ''0'', CHR ''0'', hex_digit (n div 16), hex_digit (n mod 16)]"

text \<open>One character of a string literal; \<open>ascii\<close> is the \<open>ensure_ascii\<close> option.\<close>

definition escape_char :: "bool \<Rightarrow> char \<Rightarrow> string" where
  "escape_char ascii c =
     (let n = code_point c in
      if c = quote_char \<or> c = backslash then [backslash, c]
      else if n = 10 then [backslash, CHR ''n'']
      else if n = 13 then [backslash, CHR ''r'']
      else if n = 9 then [backslash, CHR ''t'']
      else if n = 12 then [backslash, CHR ''f'']
      else if n = 8 then [backslash, CHR ''b'']
      else if n < 32 \<or> (ascii \<and> 126 < n) then u_escape n
      else [c])"

definition json_string :: "bool \<Rightarrow> string \<Rightarrow> string" where
  "json_string ascii s = quote_char # concat (map (escape_char ascii) s) @ [quote_char]"

definition json_float :: "string \<Rightarrow> string" where
  "json_float r =
     (if r = ''nan'' then ''NaN'' else if r = ''inf'' then ''Infinity''
      else if r = ''-inf'' then ''-Infinity'' else r)"

text \<open>\<open>separators=(',', ':')\<close> and no indentation.\<close>

fun json_compact :: "bool \<Rightarrow> json \<Rightarrow> string" where
  "json_compact a JNull = ''null''"
| "json_compact a (JBool b) = (if b then ''true'' else ''false'')"
| "json_compact a (JInt i) = dec_int i"
| "json_compact a (JFloat r) = json_float r"
| "json_compact a (JStr s) = json_string a s"
| "json_compact a (JArr js) = ''['' @ join_with '','' (map (json_compact a) js) @ '']''"
| "json_compact a (JObj kvs) =
     ''{'' @ join_with '','' (map (\<lambda>(k, j). json_string a k @ '':'' @ json_compact a j) kvs) @ ''}''"

text \<open>\<open>indent=2\<close>: one item per line, two blanks deeper than its container.\<close>

definition newline_indent :: "nat \<Rightarrow> string" where
  "newline_indent d = CHR 0x0A # replicate (2 * d) (CHR '' '')"

fun json_indented :: "nat \<Rightarrow> json \<Rightarrow> string" where
  "json_indented d (JArr js) =
     (if js = [] then ''[]'' else
      ''['' @ newline_indent (Suc d)
        @ join_with ('','' @ newline_indent (Suc d)) (map (json_indented (Suc d)) js)
        @ newline_indent d @ '']'')"
| "json_indented d (JObj kvs) =
     (if kvs = [] then ''{}'' else
      ''{'' @ newline_indent (Suc d)
        @ join_with ('','' @ newline_indent (Suc d))
            (map (\<lambda>(k, j). json_string True k @ '': '' @ json_indented (Suc d) j) kvs)
        @ newline_indent d @ ''}'')"
| "json_indented d JNull = ''null''"
| "json_indented d (JBool b) = (if b then ''true'' else ''false'')"
| "json_indented d (JInt i) = dec_int i"
| "json_indented d (JFloat r) = json_float r"
| "json_indented d (JStr s) = json_string True s"

subsection \<open>Reading: tokens\<close>

datatype token = TPunct char | TStr string | TWord string

definition is_json_ws :: "char \<Rightarrow> bool" where
  "is_json_ws c \<longleftrightarrow> code_point c \<in> set [32, 9, 10, 13]"

definition is_punct :: "char \<Rightarrow> bool" where
  "is_punct c \<longleftrightarrow> c \<in> set ''{}[],:''"

definition is_word :: "char \<Rightarrow> bool" where
  "is_word c \<longleftrightarrow> is_digit c \<or> (65 \<le> code_point c \<and> code_point c \<le> 90)
     \<or> (97 \<le> code_point c \<and> code_point c \<le> 122) \<or> c \<in> set ''+-.''"

definition hex_value :: "char \<Rightarrow> nat option" where
  "hex_value c =
     (if is_digit c then Some (code_point c - 48)
      else if 97 \<le> code_point c \<and> code_point c \<le> 102 then Some (code_point c - 87)
      else if 65 \<le> code_point c \<and> code_point c \<le> 70 then Some (code_point c - 55) else None)"

text \<open>The character of \<open>00\<close> and two more hexadecimal digits.\<close>

definition u_value :: "char \<Rightarrow> char \<Rightarrow> char \<Rightarrow> char \<Rightarrow> char option" where
  "u_value h1 h2 h3 h4 =
     (if h1 = CHR ''0'' \<and> h2 = CHR ''0'' then
        (case (hex_value h3, hex_value h4) of
           (Some a, Some b) \<Rightarrow> Some (char_of (16 * a + b))
         | _ \<Rightarrow> None)
      else None)"

definition escape_value :: "char \<Rightarrow> char option" where
  "escape_value e =
     (if e = quote_char \<or> e = backslash \<or> e = CHR ''/'' then Some e
      else if e = CHR ''n'' then Some (char_of (10::nat))
      else if e = CHR ''r'' then Some (char_of (13::nat))
      else if e = CHR ''t'' then Some (char_of (9::nat))
      else if e = CHR ''f'' then Some (char_of (12::nat))
      else if e = CHR ''b'' then Some (char_of (8::nat))
      else None)"

text \<open>The rest of a string literal after its opening quote.\<close>

fun lex_string :: "string \<Rightarrow> (string \<times> string) option" where
  "lex_string [] = None"
| "lex_string (c # cs) =
     (if c = quote_char then Some ([], cs)
      else if c = backslash then
        (case cs of
           e # ds \<Rightarrow>
             (if e = CHR ''u'' then
                (case ds of
                   h1 # h2 # h3 # h4 # r \<Rightarrow>
                     (case u_value h1 h2 h3 h4 of
                        Some x \<Rightarrow> map_option (apfst (Cons x)) (lex_string r)
                      | None \<Rightarrow> None)
                 | _ \<Rightarrow> None)
              else (case escape_value e of
                      Some x \<Rightarrow> map_option (apfst (Cons x)) (lex_string ds)
                    | None \<Rightarrow> None))
         | [] \<Rightarrow> None)
      else if code_point c < 32 then None
      else map_option (apfst (Cons c)) (lex_string cs))"

lemma lex_string_shorter: "lex_string cs = Some (s, r) \<Longrightarrow> length r < length cs"
proof (induction cs arbitrary: s r rule: lex_string.induct)
  case (2 c cs)
  then show ?case
    by (fastforce split: if_splits list.splits option.splits simp: apfst_def)
qed simp

function lex_json :: "string \<Rightarrow> token list option" where
  "lex_json [] = Some []"
| "lex_json (c # cs) =
     (if is_json_ws c then lex_json cs
      else if is_punct c then map_option (Cons (TPunct c)) (lex_json cs)
      else if c = quote_char then
        (case lex_string cs of
           None \<Rightarrow> None
         | Some (s, r) \<Rightarrow> map_option (Cons (TStr s)) (lex_json r))
      else if is_word c then
        map_option (Cons (TWord (c # takeWhile is_word cs))) (lex_json (dropWhile is_word cs))
      else None)"
  by pat_completeness auto
termination
  by (relation "measure length")
     (auto dest: lex_string_shorter simp: length_dropWhile_le less_Suc_eq_le)

subsection \<open>Reading: documents\<close>

text \<open>The grammar of JSON numbers: \<open>-?(0|[1-9][0-9]*)(\.[0-9]+)?([eE][-+]?[0-9]+)?\<close>.\<close>

definition drop_sign :: "string \<Rightarrow> string \<Rightarrow> string" where
  "drop_sign signs s = (if s \<noteq> [] \<and> hd s \<in> set signs then tl s else s)"

definition is_digits :: "string \<Rightarrow> bool" where
  "is_digits s \<longleftrightarrow> s \<noteq> [] \<and> list_all is_digit s"

definition no_leading_zero :: "string \<Rightarrow> bool" where
  "no_leading_zero s \<longleftrightarrow> (hd s = CHR ''0'' \<longrightarrow> tl s = [])"

definition json_int :: "string \<Rightarrow> bool" where
  "json_int w \<longleftrightarrow> (let d = drop_sign ''-'' w in is_digits d \<and> no_leading_zero d)"

definition json_exp :: "string \<Rightarrow> bool" where
  "json_exp s \<longleftrightarrow> s = [] \<or> (hd s \<in> set ''eE'' \<and> is_digits (drop_sign ''+-'' (tl s)))"

definition json_frac :: "string \<Rightarrow> bool" where
  "json_frac s \<longleftrightarrow>
     (if s \<noteq> [] \<and> hd s = CHR ''.''
      then takeWhile is_digit (tl s) \<noteq> [] \<and> json_exp (dropWhile is_digit (tl s)) else json_exp s)"

definition json_number :: "string \<Rightarrow> bool" where
  "json_number w \<longleftrightarrow>
     (let d = drop_sign ''-'' w; i = takeWhile is_digit d in
      i \<noteq> [] \<and> no_leading_zero i \<and> json_frac (dropWhile is_digit d))"

definition int_of_dec :: "string \<Rightarrow> int" where
  "int_of_dec w =
     (case w of
        [] \<Rightarrow> 0
      | c # cs \<Rightarrow> if c = CHR ''-'' then - int (nat_of_dec 0 cs) else int (nat_of_dec 0 w))"

definition word_value :: "string \<Rightarrow> json option" where
  "word_value w =
     (if w = ''null'' then Some JNull else if w = ''true'' then Some (JBool True)
      else if w = ''false'' then Some (JBool False) else if w = ''NaN'' then Some (JFloat ''nan'')
      else if w = ''Infinity'' then Some (JFloat ''inf'')
      else if w = ''-Infinity'' then Some (JFloat ''-inf'')
      else if json_int w then Some (JInt (int_of_dec w))
      else if json_number w then Some (JFloat w) else None)"

text \<open>
  Recursive descent with fuel: one unit per call. The token count is always enough
  (\<open>parse_tokens\<close> below).
\<close>

fun parse_value :: "nat \<Rightarrow> token list \<Rightarrow> (json \<times> token list) option"
  and parse_items :: "nat \<Rightarrow> token list \<Rightarrow> (json list \<times> token list) option"
  and parse_members :: "nat \<Rightarrow> token list \<Rightarrow> ((string \<times> json) list \<times> token list) option" where
  "parse_value 0 ts = None"
| "parse_value (Suc n) ts =
     (case ts of
        TWord w # r \<Rightarrow> map_option (\<lambda>j. (j, r)) (word_value w)
      | TStr s # r \<Rightarrow> Some (JStr s, r)
      | TPunct c # r \<Rightarrow>
          (if c = CHR ''['' then
             (if r \<noteq> [] \<and> hd r = TPunct (CHR '']'') then Some (JArr [], tl r)
              else map_option (apfst JArr) (parse_items n r))
           else if c = CHR ''{'' then
             (if r \<noteq> [] \<and> hd r = TPunct (CHR ''}'') then Some (JObj [], tl r)
              else map_option (apfst JObj) (parse_members n r))
           else None)
      | [] \<Rightarrow> None)"
| "parse_items 0 ts = None"
| "parse_items (Suc n) ts =
     (case parse_value n ts of
        Some (j, TPunct c # r) \<Rightarrow>
          (if c = CHR '']'' then Some ([j], r)
           else if c = CHR '','' then map_option (apfst (Cons j)) (parse_items n r)
           else None)
      | _ \<Rightarrow> None)"
| "parse_members 0 ts = None"
| "parse_members (Suc n) ts =
     (case ts of
        TStr k # TPunct p # r \<Rightarrow>
          (if p = CHR '':'' then
             (case parse_value n r of
                Some (j, TPunct c # r') \<Rightarrow>
                  (if c = CHR ''}'' then Some ([(k, j)], r')
                   else if c = CHR '','' then map_option (apfst (Cons (k, j))) (parse_members n r')
                   else None)
              | _ \<Rightarrow> None)
           else None)
      | _ \<Rightarrow> None)"

definition parse_json :: "string \<Rightarrow> json option" where
  "parse_json s =
     (case lex_json s of
        None \<Rightarrow> None
      | Some ts \<Rightarrow> (case parse_value (length ts) ts of Some (j, []) \<Rightarrow> Some j | _ \<Rightarrow> None))"

subsection \<open>The tokens of a document\<close>

fun toks :: "json \<Rightarrow> token list" where
  "toks JNull = [TWord ''null'']"
| "toks (JBool b) = [TWord (if b then ''true'' else ''false'')]"
| "toks (JInt i) = [TWord (dec_int i)]"
| "toks (JFloat r) = [TWord (json_float r)]"
| "toks (JStr s) = [TStr s]"
| "toks (JArr js) =
     TPunct (CHR ''['') # join_with [TPunct (CHR '','')] (map toks js) @ [TPunct (CHR '']'')]"
| "toks (JObj kvs) =
     TPunct (CHR ''{'')
       # join_with [TPunct (CHR '','')] (map (\<lambda>(k, j). TStr k # TPunct (CHR '':'') # toks j) kvs)
       @ [TPunct (CHR ''}'')]"

text \<open>The texts \<open>repr\<close> gives for a float.\<close>

definition float_text :: "string \<Rightarrow> bool" where
  "float_text r \<longleftrightarrow> r \<in> set [''nan'', ''inf'', ''-inf''] \<or> (json_number r \<and> \<not> json_int r)"

fun wf_json :: "json \<Rightarrow> bool" where
  "wf_json (JFloat r) \<longleftrightarrow> float_text r"
| "wf_json (JArr js) \<longleftrightarrow> list_all wf_json js"
| "wf_json (JObj kvs) \<longleftrightarrow> list_all (\<lambda>(k, j). wf_json j) kvs"
| "wf_json _ \<longleftrightarrow> True"

lemma toks_nonempty [simp]: "toks j \<noteq> []"
  by (cases j) auto

lemma toks_hd_not_close: "hd (toks j) \<noteq> TPunct (CHR '']'')" "hd (toks j) \<noteq> TPunct (CHR ''}'')"
  by (cases j; simp)+

subsection \<open>The parser inverts \<^const>\<open>toks\<close>\<close>

lemmas number_defs =
  json_int_def json_number_def json_frac_def json_exp_def is_digits_def drop_sign_def
  no_leading_zero_def is_digit_def

lemma not_json_numbers:
  assumes "json_int w \<or> json_number w"
  shows "w \<notin> set [''null'', ''true'', ''false'', ''NaN'', ''Infinity'', ''-Infinity'', ''nan'', ''inf'', ''-inf'']"
proof
  have "list_all (\<lambda>w. \<not> json_int w \<and> \<not> json_number w)
      [''null'', ''true'', ''false'', ''NaN'', ''Infinity'', ''-Infinity'', ''nan'', ''inf'', ''-inf'']"
    by (simp add: number_defs)
  moreover assume "w \<in> set [''null'', ''true'', ''false'', ''NaN'', ''Infinity'', ''-Infinity'', ''nan'', ''inf'', ''-inf'']"
  ultimately show False using assms unfolding list_all_iff by blast
qed

lemma dec_nat_no_leading_zero: "no_leading_zero (dec_nat n)"
proof (induction n rule: dec_nat.induct)
  case (1 n)
  show ?case
  proof (cases "n < 10")
    case True
    then show ?thesis by (subst dec_nat.simps) (simp add: no_leading_zero_def)
  next
    case False
    then have "no_leading_zero (dec_nat (n div 10))" "n div 10 \<noteq> 0" using 1 by auto
    moreover have "dec_nat (n div 10) \<noteq> [CHR ''0'']"
    proof
      assume "dec_nat (n div 10) = [CHR ''0'']"
      then have "nat_of_dec 0 (dec_nat (n div 10)) = 0" by simp
      with \<open>n div 10 \<noteq> 0\<close> show False by simp
    qed
    ultimately have "hd (dec_nat (n div 10)) \<noteq> CHR ''0''"
      by (cases "dec_nat (n div 10)") (auto simp: no_leading_zero_def)
    then show ?thesis using False by (subst dec_nat.simps) (simp add: no_leading_zero_def)
  qed
qed

lemma json_int_dec_int: "json_int (dec_int i)"
proof -
  have d: "is_digits (dec_nat n)" for n by (auto simp: is_digits_def list_all_iff dest: dec_nat_digits)
  have "hd (dec_nat n) \<noteq> CHR ''-''" for n
    using d [of n] by (cases "dec_nat n") (auto simp: is_digits_def is_digit_def)
  then show ?thesis
    using d dec_nat_no_leading_zero by (auto simp: json_int_def dec_int_def drop_sign_def Let_def)
qed

lemma word_value_dec_int [simp]: "word_value (dec_int i) = Some (JInt i)"
proof -
  have "int_of_dec (dec_int i) = i"
    using dec_nat_no_minus [of "nat i"] nat_of_dec_dec_nat [of "nat i"]
    by (cases "dec_nat (nat i)") (auto simp: dec_int_def int_of_dec_def)
  then show ?thesis
    using json_int_dec_int [of i] not_json_numbers [of "dec_int i"] by (simp add: word_value_def)
qed

lemma word_value_json_float [simp]:
  assumes "float_text r"
  shows "word_value (json_float r) = Some (JFloat r)"
proof (cases "r \<in> set [''nan'', ''inf'', ''-inf'']")
  case True
  then consider "r = ''nan''" | "r = ''inf''" | "r = ''-inf''" by auto
  then show ?thesis by cases (simp_all add: word_value_def json_float_def)
next
  case False
  then have "json_number r" "\<not> json_int r" using assms by (auto simp: float_text_def)
  then show ?thesis using not_json_numbers [of r] by (simp add: word_value_def json_float_def)
qed

lemma word_value_keywords [simp]:
  "word_value ''null'' = Some JNull" "word_value ''true'' = Some (JBool True)"
  "word_value ''false'' = Some (JBool False)"
  by (simp_all add: word_value_def)

lemma parse_items_join:
  assumes "\<And>j n rest. j \<in> set js \<Longrightarrow> length (toks j) \<le> n \<Longrightarrow>
      parse_value n (toks j @ rest) = Some (j, rest)"
    and "js \<noteq> []" and "Suc (length (join_with [TPunct (CHR '','')] (map toks js))) \<le> n"
  shows "parse_items n (join_with [TPunct (CHR '','')] (map toks js) @ TPunct (CHR '']'') # rest)
    = Some (js, rest)"
  using assms
proof (induction js arbitrary: n)
  case (Cons j js)
  then obtain m where n: "n = Suc m" by (cases n) auto
  show ?case
  proof (cases js)
    case Nil
    then show ?thesis using Cons.prems n by simp
  next
    case (Cons j' js')
    have "parse_items m (join_with [TPunct (CHR '','')] (map toks js) @ TPunct (CHR '']'') # rest)
        = Some (js, rest)"
      by (rule Cons.IH) (use Cons.prems n Cons in auto)
    then show ?thesis using Cons.prems n Cons by simp
  qed
qed simp

lemma parse_members_join:
  assumes "\<And>k j n rest. (k, j) \<in> set kvs \<Longrightarrow> length (toks j) \<le> n \<Longrightarrow>
      parse_value n (toks j @ rest) = Some (j, rest)"
    and "kvs \<noteq> []"
    and "Suc (length (join_with [TPunct (CHR '','')]
           (map (\<lambda>(k, j). TStr k # TPunct (CHR '':'') # toks j) kvs))) \<le> n"
  shows "parse_members n (join_with [TPunct (CHR '','')]
           (map (\<lambda>(k, j). TStr k # TPunct (CHR '':'') # toks j) kvs) @ TPunct (CHR ''}'') # rest)
    = Some (kvs, rest)"
  using assms
proof (induction kvs arbitrary: n)
  case (Cons kv kvs)
  then obtain m where n: "n = Suc m" by (cases n) auto
  obtain k j where kv: "kv = (k, j)" by fastforce
  have val: "parse_value m (toks j @ r) = Some (j, r)" if "length (toks j) \<le> m" for r
    using Cons.prems(1) [of k j m r] kv that by simp
  show ?case
  proof (cases kvs)
    case Nil
    then show ?thesis using Cons.prems n kv val by simp
  next
    case (Cons kv' kvs')
    have "parse_members m (join_with [TPunct (CHR '','')]
           (map (\<lambda>(k, j). TStr k # TPunct (CHR '':'') # toks j) kvs) @ TPunct (CHR ''}'') # rest)
        = Some (kvs, rest)"
      by (rule Cons.IH) (use Cons.prems n kv Cons in auto)
    moreover obtain k' j' where "kv' = (k', j')" by fastforce
    moreover have "length (toks j) \<le> m" using Cons.prems(3) n kv Cons by simp
    ultimately show ?thesis using n kv Cons val by simp
  qed
qed simp

lemma hd_join_append:
  fixes xs :: "'a list list"
  shows "xs \<noteq> [] \<Longrightarrow> hd xs \<noteq> [] \<Longrightarrow> hd (join_with sep xs @ ys) = hd (hd xs)"
  by (induction sep xs rule: join_with.induct) auto

lemma join_eq_Nil:
  fixes xs :: "'a list list"
  shows "xs \<noteq> [] \<Longrightarrow> hd xs \<noteq> [] \<Longrightarrow> join_with sep xs \<noteq> []"
  by (induction sep xs rule: join_with.induct) auto

lemma parse_tokens: "wf_json j \<Longrightarrow> length (toks j) \<le> n \<Longrightarrow>
    parse_value n (toks j @ rest) = Some (j, rest)"
proof (induction j arbitrary: n rest rule: toks.induct)
  case (6 js)
  then obtain m where n: "n = Suc m" by (cases n) auto
  show ?case
  proof (cases "js = []")
    case False
    then have "hd (join_with [TPunct (CHR '','')] (map toks js) @ TPunct (CHR '']'') # rest)
        \<noteq> TPunct (CHR '']'')"
      using toks_hd_not_close by (subst hd_join_append) (auto simp: hd_map)
    moreover have "parse_items m
        (join_with [TPunct (CHR '','')] (map toks js) @ TPunct (CHR '']'') # rest) = Some (js, rest)"
      by (rule parse_items_join) (use 6 n False in \<open>auto simp: list_all_iff\<close>)
    ultimately show ?thesis by (simp add: n)
  qed (simp add: n)
next
  case (7 kvs)
  then obtain m where n: "n = Suc m" by (cases n) auto
  let ?f = "\<lambda>(k, j). TStr k # TPunct (CHR '':'') # toks j"
  show ?case
  proof (cases "kvs = []")
    case False
    then have "hd (join_with [TPunct (CHR '','')] (map ?f kvs) @ TPunct (CHR ''}'') # rest)
        \<noteq> TPunct (CHR ''}'')"
      by (subst hd_join_append) (auto simp: hd_map split: prod.splits)
    moreover have "parse_members m
        (join_with [TPunct (CHR '','')] (map ?f kvs) @ TPunct (CHR ''}'') # rest) = Some (kvs, rest)"
      by (rule parse_members_join) (use 7 n False in \<open>fastforce simp: list_all_iff\<close>)+
    ultimately show ?thesis by (simp add: n)
  qed (simp add: n)
qed (case_tac n; simp)+

subsection \<open>The lexer reads what the writers write\<close>

text \<open>
  \<open>lexes s ts\<close>: text \<open>s\<close> lexes to \<open>ts\<close> whatever follows; \<open>lexes_delim\<close>: whenever what
  follows does not continue a word, which numbers and keywords need.
\<close>

definition delim :: "string \<Rightarrow> bool" where
  "delim s \<longleftrightarrow> (case s of [] \<Rightarrow> True | c # _ \<Rightarrow> \<not> is_word c)"

definition prepend :: "token list \<Rightarrow> token list option \<Rightarrow> token list option" where
  "prepend ts r = map_option ((@) ts) r"

lemma prepend_simps [simp]:
  "prepend [] r = r" "prepend ts (prepend us r) = prepend (ts @ us) r"
  "map_option (Cons t) r = prepend [t] r"
  by (cases r; simp add: prepend_def)+

definition lexes :: "string \<Rightarrow> token list \<Rightarrow> bool" where
  "lexes s ts \<longleftrightarrow> (\<forall>rest. lex_json (s @ rest) = prepend ts (lex_json rest))"

definition lexes_delim :: "string \<Rightarrow> token list \<Rightarrow> bool" where
  "lexes_delim s ts \<longleftrightarrow>
     (\<forall>rest. delim rest \<longrightarrow> lex_json (s @ rest) = prepend ts (lex_json rest))"

definition starts_delim :: "string \<Rightarrow> bool" where
  "starts_delim s \<longleftrightarrow> s \<noteq> [] \<and> delim s"

lemma delim_append [simp]: "starts_delim s \<Longrightarrow> delim (s @ t)"
  by (cases s) (auto simp: starts_delim_def delim_def)

lemma lexes_imp_delim: "lexes s ts \<Longrightarrow> lexes_delim s ts"
  by (simp add: lexes_def lexes_delim_def)

lemma lexes_append: "lexes s ts \<Longrightarrow> lexes t us \<Longrightarrow> lexes (s @ t) (ts @ us)"
  by (simp add: lexes_def)

lemma lexes_append_delim: "lexes s ts \<Longrightarrow> lexes_delim t us \<Longrightarrow> lexes_delim (s @ t) (ts @ us)"
  by (simp add: lexes_def lexes_delim_def)

lemma lexes_delim_append:
  "lexes_delim s ts \<Longrightarrow> starts_delim t \<Longrightarrow> lexes t us \<Longrightarrow> lexes (s @ t) (ts @ us)"
  by (simp add: lexes_def lexes_delim_def)

lemma lexes_Nil: "lexes [] []"
  by (simp add: lexes_def)

lemma punct_not_ws: "is_punct c \<Longrightarrow> \<not> is_json_ws c"
  by (auto simp: is_punct_def is_json_ws_def)

lemma lexes_punct: "is_punct c \<Longrightarrow> lexes [c] [TPunct c]"
  by (simp add: lexes_def punct_not_ws)

lemma lexes_ws: "list_all is_json_ws s \<Longrightarrow> lexes s []"
  by (induction s) (auto simp: lexes_def)

lemma lexes_newline_indent: "lexes (newline_indent d) []"
  by (rule lexes_ws) (simp add: newline_indent_def is_json_ws_def list_all_iff)

text \<open>Strings.\<close>

lemma hex_value_hex_digit [simp]: "d < 16 \<Longrightarrow> hex_value (hex_digit d) = Some d"
  by (auto simp: hex_value_def hex_digit_def is_digit_def)

lemma u_escape_value: "char_of (16 * (code_point c div 16) + code_point c mod 16) = c"
  by (simp only: mult_div_mod_eq char_of_char)

lemma escape_value_simps [simp]:
  "escape_value quote_char = Some quote_char" "escape_value backslash = Some backslash"
  "escape_value (CHR ''n'') = Some (char_of (10::nat))"
  "escape_value (CHR ''r'') = Some (char_of (13::nat))"
  "escape_value (CHR ''t'') = Some (char_of (9::nat))"
  "escape_value (CHR ''f'') = Some (char_of (12::nat))"
  "escape_value (CHR ''b'') = Some (char_of (8::nat))"
  by (simp_all add: escape_value_def)

lemma lex_string_escape:
  "lex_string (escape_char a c @ r) = map_option (apfst (Cons c)) (lex_string r)"
proof -
  have small: "code_point c div 16 < 16" "code_point c mod 16 < 16"
    using nat_of_char_less_256 [of c] by (auto simp: less_mult_imp_div_less)
  have named: "c = char_of n" if "code_point c = n" for n using that by auto
  consider "c = quote_char \<or> c = backslash"
    | "c \<noteq> quote_char" "c \<noteq> backslash" "code_point c \<in> set [10, 13, 9, 12, 8]"
    | "c \<noteq> quote_char" "c \<noteq> backslash" "code_point c \<notin> set [10, 13, 9, 12, 8]"
    by blast
  then show ?thesis
  proof cases
    case 1
    then show ?thesis by (auto simp: escape_char_def)
  next
    case 2
    then show ?thesis by (auto simp: escape_char_def Let_def dest!: named)
  next
    case 3
    then show ?thesis
      using small by (auto simp: escape_char_def Let_def u_escape_def u_escape_value u_value_def)
  qed
qed

lemma lex_string_escapes:
  "lex_string (concat (map (escape_char a) s) @ quote_char # r) = Some (s, r)"
  by (induction s) (simp_all add: lex_string_escape)

lemma lexes_json_string: "lexes (json_string a s) [TStr s]"
proof -
  have "\<not> is_json_ws quote_char" "\<not> is_punct quote_char"
    by (simp_all add: is_json_ws_def is_punct_def)
  then show ?thesis
    by (simp add: lexes_def json_string_def lex_string_escapes)
qed

text \<open>Words: numbers and keywords.\<close>

lemma word_not: "is_word c \<Longrightarrow> \<not> is_json_ws c \<and> \<not> is_punct c \<and> c \<noteq> quote_char"
  by (auto simp: is_word_def is_json_ws_def is_punct_def is_digit_def)

lemma lexes_word:
  assumes "w \<noteq> []" "list_all is_word w"
  shows "lexes_delim w [TWord w]"
proof -
  obtain c cs where w: "w = c # cs" using assms(1) by (cases w) auto
  have "takeWhile is_word (cs @ rest) = cs" "dropWhile is_word (cs @ rest) = rest"
    if "delim rest" for rest
    using assms(2) that w
    by (auto simp: list_all_iff delim_def takeWhile_eq_Nil_iff split: list.splits)
  then show ?thesis
    using assms(2) w by (simp add: lexes_delim_def word_not)
qed

lemma is_word_dec_int: "list_all is_word (dec_int i)"
  by (auto simp: list_all_iff is_word_def dest!: dec_int_chars)

lemma dec_int_nonempty [simp]: "dec_int i \<noteq> []"
  by (simp add: dec_int_def)

lemma is_word_digits: "list_all is_digit s \<Longrightarrow> list_all is_word s"
  by (auto simp: list_all_iff is_word_def)

lemma is_word_drop_sign:
  "list_all is_word (drop_sign signs s) \<Longrightarrow> list_all is_word signs \<Longrightarrow> list_all is_word s"
  by (cases s) (auto simp: drop_sign_def list_all_iff split: if_splits)

lemma is_word_split_digits: "list_all is_word (dropWhile is_digit s) \<Longrightarrow> list_all is_word s"
proof -
  assume "list_all is_word (dropWhile is_digit s)"
  moreover have "list_all is_word (takeWhile is_digit s)"
    by (auto simp: list_all_iff is_word_def dest: set_takeWhileD)
  ultimately have "list_all is_word (takeWhile is_digit s @ dropWhile is_digit s)"
    by (simp only: list_all_append)
  then show ?thesis by (simp only: takeWhile_dropWhile_id)
qed

lemma is_word_signs: "list_all is_word ''-''" "list_all is_word ''+-''"
  by (simp_all add: is_word_def)

lemma is_word_marks: "is_word (CHR ''e'')" "is_word (CHR ''E'')" "is_word (CHR ''.'')"
  by (simp_all add: is_word_def)

lemma is_word_exp: "json_exp s \<Longrightarrow> list_all is_word s"
  using is_word_drop_sign [OF is_word_digits is_word_signs(2), of "tl s"]
  by (cases s) (auto simp: json_exp_def is_digits_def is_word_marks)

lemma is_word_frac: "json_frac s \<Longrightarrow> list_all is_word s"
  using is_word_exp [of s] is_word_split_digits [OF is_word_exp, of "tl s"]
  by (cases s) (auto simp: json_frac_def is_word_marks split: if_splits)

lemma is_word_number: "json_number r \<Longrightarrow> r \<noteq> [] \<and> list_all is_word r"
  using is_word_drop_sign [OF is_word_split_digits is_word_signs(1), OF is_word_frac, of r]
  by (auto simp: json_number_def drop_sign_def Let_def)

lemma is_word_json_float:
  assumes "float_text r"
  shows "json_float r \<noteq> [] \<and> list_all is_word (json_float r)"
proof (cases "r \<in> set [''nan'', ''inf'', ''-inf'']")
  case True
  then consider "r = ''nan''" | "r = ''inf''" | "r = ''-inf''" by auto
  then show ?thesis by cases (simp_all add: json_float_def is_word_def)
next
  case False
  then show ?thesis using assms is_word_number [of r] by (simp add: float_text_def json_float_def)
qed

lemma is_word_keywords:
  "list_all is_word ''null''" "list_all is_word ''true''" "list_all is_word ''false''"
  by (simp_all add: is_word_def is_digit_def)

lemma lexes_join:
  assumes "list_all2 lexes_delim ss tss" "ss \<noteq> []" "lexes sep [p]" "starts_delim sep"
  shows "lexes_delim (join_with sep ss) (join_with [p] tss)"
  using assms(1,2)
proof (induction ss tss rule: list_all2_induct)
  case (Cons s ss t ts)
  show ?case
  proof (cases ss)
    case Nil
    then show ?thesis using Cons by simp
  next
    case (Cons s' ss')
    then obtain t' ts' where ts: "ts = t' # ts'"
      using Cons.hyps(2) by (auto simp: list_all2_Cons1)
    have "lexes_delim ((s @ sep) @ join_with sep ss) ((t @ [p]) @ join_with [p] ts)"
      using lexes_append_delim lexes_delim_append assms(3,4) Cons.hyps Cons.IH Cons by blast
    then show ?thesis using Cons ts by simp
  qed
qed simp

lemma starts_delim_simps [simp]:
  "starts_delim ('','' @ s)" "starts_delim ('']'' @ s)" "starts_delim (''}'' @ s)"
  "starts_delim (newline_indent d @ s)"
  by (simp_all add: starts_delim_def delim_def is_word_def is_digit_def newline_indent_def)

lemma lexes_container:
  assumes "list_all2 lexes_delim ss tss" "ss \<noteq> []" "lexes sep [p]" "starts_delim sep"
    and "lexes open_text [a]" "lexes close_text [b]" "starts_delim close_text"
  shows "lexes (open_text @ join_with sep ss @ close_text) (a # join_with [p] tss @ [b])"
proof -
  have "lexes_delim (join_with sep ss) (join_with [p] tss)"
    using assms(1-4) by (rule lexes_join)
  then have "lexes (join_with sep ss @ close_text) (join_with [p] tss @ [b])"
    using lexes_delim_append assms(6,7) by blast
  with assms(5) show ?thesis
    using lexes_append by fastforce
qed

subsection \<open>Reading back both formats\<close>

lemma lexes_punct_simps [simp]:
  "lexes ''['' [TPunct (CHR ''['')]" "lexes '']'' [TPunct (CHR '']'')]"
  "lexes ''{'' [TPunct (CHR ''{'')]" "lexes ''}'' [TPunct (CHR ''}'')]"
  "lexes '','' [TPunct (CHR '','')]" "lexes '':'' [TPunct (CHR '':'')]"
  by (rule lexes_punct, simp add: is_punct_def)+

lemma lexes_colon_blank [simp]: "lexes '': '' [TPunct (CHR '':'')]"
  using lexes_append [OF lexes_punct_simps(6) lexes_ws [of "'' ''"]]
  by (simp add: is_json_ws_def)

lemma lexes_member:
  "lexes sep [TPunct (CHR '':'')] \<Longrightarrow> lexes_delim t ts \<Longrightarrow>
   lexes_delim (json_string a k @ sep @ t) (TStr k # TPunct (CHR '':'') # ts)"
  using lexes_append_delim [OF lexes_json_string [of a k] lexes_append_delim [of sep "[TPunct (CHR '':'')]" t ts]]
  by simp

lemma lexes_members:
  assumes "lexes sep [TPunct (CHR '':'')]" "\<And>k j. (k, j) \<in> set kvs \<Longrightarrow> lexes_delim (w j) (toks j)"
  shows "list_all2 lexes_delim (map (\<lambda>(k, j). json_string a k @ sep @ w j) kvs)
    (map (\<lambda>(k, j). TStr k # TPunct (CHR '':'') # toks j) kvs)"
  using assms(2)
proof (induction kvs)
  case (Cons kv kvs)
  obtain k j where kv: "kv = (k, j)" by fastforce
  have "lexes_delim (w j) (toks j)" using Cons.prems [of k j] kv by simp
  from lexes_member [OF assms(1) this, of a k] have "lexes_delim (json_string a k @ sep @ w j)
      (TStr k # TPunct (CHR '':'') # toks j)" .
  moreover have "list_all2 lexes_delim (map (\<lambda>(k, j). json_string a k @ sep @ w j) kvs)
      (map (\<lambda>(k, j). TStr k # TPunct (CHR '':'') # toks j) kvs)"
    using Cons.IH Cons.prems by (meson list.set_intros(2))
  ultimately show ?case by (simp add: kv)
qed simp

lemma lexes_empty_containers [simp]:
  "lexes_delim ''[]'' [TPunct (CHR ''[''), TPunct (CHR '']'')]"
  "lexes_delim ''{}'' [TPunct (CHR ''{''), TPunct (CHR ''}'')]"
  using lexes_append [OF lexes_punct_simps(1,2)] lexes_append [OF lexes_punct_simps(3,4)]
  by (simp_all add: lexes_imp_delim)

lemma lexes_atoms [simp]:
  "lexes_delim ''null'' [TWord ''null'']" "lexes_delim ''true'' [TWord ''true'']"
  "lexes_delim ''false'' [TWord ''false'']" "lexes_delim (dec_int i) [TWord (dec_int i)]"
  "float_text r \<Longrightarrow> lexes_delim (json_float r) [TWord (json_float r)]"
  "lexes_delim (json_string a s) [TStr s]"
  using lexes_word [OF _ is_word_keywords(1)] lexes_word [OF _ is_word_keywords(2)]
    lexes_word [OF _ is_word_keywords(3)]
  by (simp_all add: lexes_word is_word_dec_int is_word_json_float lexes_imp_delim lexes_json_string)

lemma lexes_compact: "wf_json j \<Longrightarrow> lexes_delim (json_compact a j) (toks j)"
proof (induction j rule: toks.induct)
  case (6 js)
  show ?case
  proof (cases "js = []")
    case False
    have "lexes (''['' @ join_with '','' (map (json_compact a) js) @ '']'') (toks (JArr js))"
      unfolding toks.simps
      by (rule lexes_container)
        (use 6 False starts_delim_simps(1,2) [of "[]"] in
          \<open>auto simp: list_all2_map1 list_all2_map2 list_all2_same list_all_iff\<close>)
    then show ?thesis by (simp add: lexes_imp_delim)
  qed simp
next
  case (7 kvs)
  show ?case
  proof (cases "kvs = []")
    case False
    have "list_all2 lexes_delim (map (\<lambda>(k, j). json_string a k @ '':'' @ json_compact a j) kvs)
        (map (\<lambda>(k, j). TStr k # TPunct (CHR '':'') # toks j) kvs)"
      by (rule lexes_members) (use 7 in \<open>auto simp: list_all_iff\<close>)
    then have "lexes (''{'' @ join_with '',''
        (map (\<lambda>(k, j). json_string a k @ '':'' @ json_compact a j) kvs) @ ''}'') (toks (JObj kvs))"
      unfolding toks.simps
      by (rule lexes_container) (use False starts_delim_simps(1,3) [of "[]"] in auto)
    then show ?thesis by (simp add: lexes_imp_delim)
  qed simp
qed simp_all

lemma lexes_indent_parts:
  "lexes ('','' @ newline_indent d) [TPunct (CHR '','')]"
  "lexes (''['' @ newline_indent d) [TPunct (CHR ''['')]"
  "lexes (''{'' @ newline_indent d) [TPunct (CHR ''{'')]"
  "lexes (newline_indent d @ '']'') [TPunct (CHR '']'')]"
  "lexes (newline_indent d @ ''}'') [TPunct (CHR ''}'')]"
  using lexes_append [OF lexes_punct_simps(1) lexes_newline_indent]
    lexes_append [OF lexes_punct_simps(3) lexes_newline_indent]
    lexes_append [OF lexes_punct_simps(5) lexes_newline_indent]
    lexes_append [OF lexes_newline_indent lexes_punct_simps(2)]
    lexes_append [OF lexes_newline_indent lexes_punct_simps(4)]
  by simp_all

lemma lexes_indented: "wf_json j \<Longrightarrow> lexes_delim (json_indented d j) (toks j)"
proof (induction j arbitrary: d rule: toks.induct)
  case (6 js)
  show ?case
  proof (cases "js = []")
    case False
    have "lexes ((''['' @ newline_indent (Suc d))
        @ join_with ('','' @ newline_indent (Suc d)) (map (json_indented (Suc d)) js)
        @ (newline_indent d @ '']'')) (toks (JArr js))"
      unfolding toks.simps
      by (rule lexes_container)
        (use 6 False starts_delim_simps(1,4) lexes_indent_parts in
          \<open>auto simp: list_all2_map1 list_all2_map2 list_all2_same list_all_iff\<close>)
    then show ?thesis using False by (simp add: lexes_imp_delim)
  qed simp
next
  case (7 kvs)
  show ?case
  proof (cases "kvs = []")
    case False
    have "list_all2 lexes_delim
        (map (\<lambda>(k, j). json_string True k @ '': '' @ json_indented (Suc d) j) kvs)
        (map (\<lambda>(k, j). TStr k # TPunct (CHR '':'') # toks j) kvs)"
      by (rule lexes_members) (use 7 in \<open>auto simp: list_all_iff\<close>)
    then have "lexes ((''{'' @ newline_indent (Suc d))
        @ join_with ('','' @ newline_indent (Suc d))
            (map (\<lambda>(k, j). json_string True k @ '': '' @ json_indented (Suc d) j) kvs)
        @ (newline_indent d @ ''}'')) (toks (JObj kvs))"
      unfolding toks.simps
      by (rule lexes_container) (use False starts_delim_simps(1,4) lexes_indent_parts in auto)
    then show ?thesis using False by (simp add: lexes_imp_delim)
  qed simp
qed simp_all

lemma parse_of_lexes:
  assumes "lexes_delim s (toks j)" "wf_json j"
  shows "parse_json s = Some j"
proof -
  have "lex_json (s @ []) = prepend (toks j) (lex_json [])"
    using assms(1) by (simp only: lexes_delim_def delim_def list.case simp_thms)
  then have "lex_json s = Some (toks j)" by (simp add: prepend_def)
  with parse_tokens [OF assms(2) order_refl, of "[]"] show ?thesis
    by (simp add: parse_json_def)
qed

lemma parse_compact: "wf_json j \<Longrightarrow> parse_json (json_compact a j) = Some j"
  by (rule parse_of_lexes [OF lexes_compact])

lemma parse_indented: "wf_json j \<Longrightarrow> parse_json (json_indented d j) = Some j"
  by (rule parse_of_lexes [OF lexes_indented])

lemma json_compact_inj:
  "wf_json j \<Longrightarrow> wf_json k \<Longrightarrow> json_compact a j = json_compact a k \<longleftrightarrow> j = k"
  by (metis option.inject parse_compact)

end
