(* ===== verification/Context.thy ===== *)
theory Context
  imports Fixture Json_Text
begin

text \<open>
  Simulation contexts (sim_sdk/context.py) and the world they live in.

  Contexts are mutable objects: the context variable, \<open>sim_capture\<close> and \<open>DBProxy\<close> all hold
  references to the same object. So the world keeps the contexts in a list and a reference is an
  index into it. The rest of the world is the context variable, the environment variables, the
  files (as JSON documents), the readings of \<open>uuid4\<close>, \<open>time.time\<close> and \<open>datetime.now\<close> still to
  come, the log, and the host application's own state of type \<open>'a\<close>.

  A context's \<open>sink\<close> is a reference too: its \<open>emit\<close> method is an argument of the operations that
  call it.
\<close>

datatype sim_mode = OFF | RECORD | REPLAY

record sim_context =
  mode :: sim_mode
  run_id :: string
  fixture_id :: string
  request_id :: string
  stub_dir :: "path option"
  sink :: "nat option"
  ordinal_counters :: "(string \<times> int) list"
  collected_stubs :: "pyval list"
  trace_depth :: int

definition sim_context_init :: "sim_mode \<Rightarrow> string \<Rightarrow> path option \<Rightarrow> nat option \<Rightarrow> sim_context" where
  "sim_context_init m run dir snk =
     \<lparr>mode = m, run_id = run, fixture_id = [], request_id = [], stub_dir = dir, sink = snk,
      ordinal_counters = [], collected_stubs = [], trace_depth = 0\<rparr>"

subsection \<open>Methods of \<open>SimContext\<close>\<close>

definition next_ordinal :: "string \<Rightarrow> sim_context \<Rightarrow> int \<times> sim_context" where
  "next_ordinal fp c =
     (let now = (case dict_get (ordinal_counters c) fp of None \<Rightarrow> 0 | Some n \<Rightarrow> n) in
      (now, c\<lparr>ordinal_counters := AList.update fp (now + 1) (ordinal_counters c)\<rparr>))"

definition reset_ordinals :: "sim_context \<Rightarrow> sim_context" where
  "reset_ordinals c = c\<lparr>ordinal_counters := []\<rparr>"

definition reset_context :: "sim_context \<Rightarrow> sim_context" where
  "reset_context c = c\<lparr>ordinal_counters := [], collected_stubs := [], trace_depth := 0\<rparr>"

definition is_active :: "sim_context \<Rightarrow> bool" where
  "is_active c \<longleftrightarrow> mode c \<noteq> OFF"

definition is_recording :: "sim_context \<Rightarrow> bool" where
  "is_recording c \<longleftrightarrow> mode c = RECORD"

definition is_replaying :: "sim_context \<Rightarrow> bool" where
  "is_replaying c \<longleftrightarrow> mode c = REPLAY"

lemmas mode_simps = is_active_def is_recording_def is_replaying_def

subsection \<open>The world\<close>

datatype log_entry = NoResultWarning string | DiscardedTrace string | DiscardedCapture string
  | DiscardedDb string

record 'a world =
  contexts :: "sim_context list"
  current :: "nat option"
  environ :: "string \<Rightarrow> string option"
  files :: "path \<Rightarrow> json option"
  uuid_at :: "nat \<Rightarrow> string"
  time_at :: "nat \<Rightarrow> int"
  date_at :: "nat \<Rightarrow> string"
  ticks :: nat
  log_entries :: "log_entry list"
  app :: 'a

text \<open>A computation of the program: it ends with a value or an exception, and a new world.\<close>

type_synonym ('a, 'r) prog = "'a world \<Rightarrow> (py_exn + 'r) \<times> 'a world"

definition ret :: "'r \<Rightarrow> ('a, 'r) prog" where
  "ret x w = (Inr x, w)"

definition raise :: "py_exn \<Rightarrow> ('a, 'r) prog" where
  "raise e w = (Inl e, w)"

definition andthen :: "('a, 'r) prog \<Rightarrow> ('r \<Rightarrow> ('a, 's) prog) \<Rightarrow> ('a, 's) prog" where
  "andthen m k w = (case m w of (Inl e, w') \<Rightarrow> (Inl e, w') | (Inr x, w') \<Rightarrow> k x w')"

lemmas prog_defs = ret_def raise_def andthen_def

definition ctx_at :: "'a world \<Rightarrow> nat \<Rightarrow> sim_context" where
  "ctx_at w r = contexts w ! r"

definition set_ctx :: "nat \<Rightarrow> sim_context \<Rightarrow> 'a world \<Rightarrow> 'a world" where
  "set_ctx r c w = w\<lparr>contexts := (contexts w)[r := c]\<rparr>"

definition new_ctx :: "sim_context \<Rightarrow> 'a world \<Rightarrow> nat \<times> 'a world" where
  "new_ctx c w = (length (contexts w), w\<lparr>contexts := contexts w @ [c]\<rparr>)"

definition valid_ref :: "'a world \<Rightarrow> nat \<Rightarrow> bool" where
  "valid_ref w r \<longleftrightarrow> r < length (contexts w)"

definition add_log :: "log_entry \<Rightarrow> 'a world \<Rightarrow> 'a world" where
  "add_log l w = w\<lparr>log_entries := log_entries w @ [l]\<rparr>"

text \<open>\<open>str(uuid.uuid4())[:8]\<close>, \<open>time.time()\<close> and \<open>datetime.now(timezone.utc).isoformat()\<close>.\<close>

definition uuid8 :: "'a world \<Rightarrow> string \<times> 'a world" where
  "uuid8 w = (take 8 (uuid_at w (ticks w)), w\<lparr>ticks := Suc (ticks w)\<rparr>)"

definition time_time :: "'a world \<Rightarrow> int \<times> 'a world" where
  "time_time w = (time_at w (ticks w), w\<lparr>ticks := Suc (ticks w)\<rparr>)"

definition utc_now :: "'a world \<Rightarrow> string \<times> 'a world" where
  "utc_now w = (date_at w (ticks w), w\<lparr>ticks := Suc (ticks w)\<rparr>)"

text \<open>\<open>ctx.collected_stubs.append(stub)\<close>\<close>

definition push_stub :: "nat \<Rightarrow> pyval \<Rightarrow> 'a world \<Rightarrow> 'a world" where
  "push_stub r stub w =
     set_ctx r ((ctx_at w r)\<lparr>collected_stubs := collected_stubs (ctx_at w r) @ [stub]\<rparr>) w"

text \<open>\<open>ctx.next_ordinal(fp)\<close> on the context object behind a reference.\<close>

definition next_ordinal_at :: "nat \<Rightarrow> string \<Rightarrow> 'a world \<Rightarrow> int \<times> 'a world" where
  "next_ordinal_at r fp w =
     (let (n, c) = next_ordinal fp (ctx_at w r) in (n, set_ctx r c w))"

definition start_new_request :: "nat \<Rightarrow> 'a world \<Rightarrow> string \<times> 'a world" where
  "start_new_request r w =
     (let (u, w1) = uuid8 w in
      (u, set_ctx r (reset_context ((ctx_at w1 r)\<lparr>request_id := u\<rparr>)) w1))"

subsection \<open>Paths\<close>

text \<open>\<open>Path(s)\<close> and \<open>base / s\<close>: empty and dot parts vanish, an absolute \<open>s\<close> replaces the base.\<close>

definition parse_path :: "string \<Rightarrow> path" where
  "parse_path s =
     (if prefix ''/'' s then [''/''] else []) @ filter (\<lambda>p. p \<noteq> [] \<and> p \<noteq> ''.'') (split_on (CHR ''/'') s)"

definition path_join :: "path \<Rightarrow> string \<Rightarrow> path" where
  "path_join base s = (if prefix ''/'' s then parse_path s else base @ parse_path s)"

subsection \<open>The context variable\<close>

definition mode_of_value :: "string \<Rightarrow> sim_mode option" where
  "mode_of_value s =
     (if s = ''off'' then Some OFF else if s = ''record'' then Some RECORD
      else if s = ''replay'' then Some REPLAY else None)"

definition ascii_lower :: "char \<Rightarrow> char" where
  "ascii_lower c =
     (if 65 \<le> code_point c \<and> code_point c \<le> 90 then char_of (code_point c + 32) else c)"

definition create_context_from_env :: "'a world \<Rightarrow> sim_context \<times> 'a world" where
  "create_context_from_env w =
     (let mode_str = map ascii_lower
        (case environ w ''SIM_MODE'' of None \<Rightarrow> ''off'' | Some s \<Rightarrow> s);
          m = (case mode_of_value mode_str of None \<Rightarrow> OFF | Some m \<Rightarrow> m);
          (u, w1) = uuid8 w;
          run = (case environ w1 ''SIM_RUN_ID'' of None \<Rightarrow> u | Some s \<Rightarrow> s);
          dir = (case environ w1 ''SIM_STUB_DIR'' of
                   None \<Rightarrow> None
                 | Some s \<Rightarrow> if s = [] then None else Some (parse_path s))
      in (sim_context_init m run dir None, w1))"

definition get_context :: "'a world \<Rightarrow> nat \<times> 'a world" where
  "get_context w =
     (case current w of
        Some r \<Rightarrow> (r, w)
      | None \<Rightarrow>
          (let (c, w1) = create_context_from_env w; (r, w2) = new_ctx c w1
           in (r, w2\<lparr>current := Some r\<rparr>)))"

definition set_context :: "nat \<Rightarrow> 'a world \<Rightarrow> 'a world" where
  "set_context r w = w\<lparr>current := Some r\<rparr>"

definition clear_context :: "'a world \<Rightarrow> 'a world" where
  "clear_context w = w\<lparr>current := None\<rparr>"

text \<open>
  \<open>SimContext.get_current\<close>, \<open>set_current\<close>, \<open>reset_current\<close>: the token is the value the
  variable had before.
\<close>

definition get_current :: "'a world \<Rightarrow> nat option" where
  "get_current w = current w"

definition set_current :: "nat \<Rightarrow> 'a world \<Rightarrow> nat option \<times> 'a world" where
  "set_current r w = (current w, w\<lparr>current := Some r\<rparr>)"

definition reset_current :: "nat option \<Rightarrow> 'a world \<Rightarrow> 'a world" where
  "reset_current token w = w\<lparr>current := token\<rparr>"

definition init_sim ::
  "sim_mode option \<Rightarrow> string option \<Rightarrow> path option \<Rightarrow> nat option \<Rightarrow> 'a world \<Rightarrow> nat \<times> 'a world" where
  "init_sim m run dir snk w =
     (let (env_context, w1) = create_context_from_env w;
          c = sim_context_init
                (case m of Some x \<Rightarrow> x | None \<Rightarrow> mode env_context)
                (case run of Some x \<Rightarrow> x | None \<Rightarrow> run_id env_context)
                (case dir of Some x \<Rightarrow> Some x | None \<Rightarrow> stub_dir env_context)
                snk;
          (r, w2) = new_ctx c w1
      in (r, set_context r w2))"

subsection \<open>What the primitives leave alone\<close>

lemma valid_ref_simps [simp]:
  "valid_ref (set_ctx r c w) s = valid_ref w s"
  "valid_ref (w\<lparr>ticks := n\<rparr>) s = valid_ref w s"
  "valid_ref (w\<lparr>current := x\<rparr>) s = valid_ref w s"
  "valid_ref (w\<lparr>files := fs\<rparr>) s = valid_ref w s"
  "valid_ref (add_log l w) s = valid_ref w s"
  by (simp_all add: valid_ref_def set_ctx_def add_log_def)

lemma ctx_at_simps [simp]:
  "valid_ref w r \<Longrightarrow> ctx_at (set_ctx r c w) r = c"
  "r \<noteq> s \<Longrightarrow> ctx_at (set_ctx r c w) s = ctx_at w s"
  "ctx_at (w\<lparr>ticks := n\<rparr>) s = ctx_at w s"
  "ctx_at (w\<lparr>current := x\<rparr>) s = ctx_at w s"
  "ctx_at (w\<lparr>files := fs\<rparr>) s = ctx_at w s"
  "ctx_at (add_log l w) s = ctx_at w s"
  by (simp_all add: ctx_at_def set_ctx_def valid_ref_def add_log_def)

lemma set_ctx_frame [simp, frame_simps]:
  "current (set_ctx r c w) = current w"
  "environ (set_ctx r c w) = environ w"
  "files (set_ctx r c w) = files w"
  "time_at (set_ctx r c w) = time_at w"
  "ticks (set_ctx r c w) = ticks w"
  "log_entries (set_ctx r c w) = log_entries w"
  "app (set_ctx r c w) = app w"
  by (simp_all add: set_ctx_def)

lemma add_log_frame [simp, frame_simps]:
  "contexts (add_log l w) = contexts w"
  "current (add_log l w) = current w"
  "files (add_log l w) = files w"
  "app (add_log l w) = app w"
  by (simp_all add: add_log_def)

lemma readings [simp]:
  "uuid8 w = (take 8 (uuid_at w (ticks w)), w\<lparr>ticks := Suc (ticks w)\<rparr>)"
  "time_time w = (time_at w (ticks w), w\<lparr>ticks := Suc (ticks w)\<rparr>)"
  "utc_now w = (date_at w (ticks w), w\<lparr>ticks := Suc (ticks w)\<rparr>)"
  by (simp_all add: uuid8_def time_time_def utc_now_def)

lemma get_context_current [simp]: "current w = Some r \<Longrightarrow> get_context w = (r, w)"
  by (simp add: get_context_def)

subsection \<open>Ordinal counters\<close>

definition count_of :: "(string \<times> int) list \<Rightarrow> string \<Rightarrow> int" where
  "count_of d k = (case dict_get d k of None \<Rightarrow> 0 | Some n \<Rightarrow> n)"

lemma count_of_Nil [simp]: "count_of [] k = 0"
  by (simp add: count_of_def)

lemma count_of_update [simp]: "count_of (AList.update k n d) = (count_of d)(k := n)"
  by (auto simp: count_of_def update_conv')

lemma next_ordinal_count:
  "next_ordinal k c = (count_of (ordinal_counters c) k,
    c\<lparr>ordinal_counters := AList.update k (count_of (ordinal_counters c) k + 1) (ordinal_counters c)\<rparr>)"
  by (simp add: next_ordinal_def count_of_def Let_def)

text \<open>The ordinals a sequence of requests gets.\<close>

fun ordinal_run :: "string list \<Rightarrow> sim_context \<Rightarrow> int list" where
  "ordinal_run [] c = []"
| "ordinal_run (fp # fps) c = (let (n, c') = next_ordinal fp c in n # ordinal_run fps c')"

lemma ordinal_run_nth:
  "i < length fps \<Longrightarrow> ordinal_run fps c ! i =
    count_of (ordinal_counters c) (fps ! i) + int (count_list (take i fps) (fps ! i))"
proof (induction fps arbitrary: c i)
  case (Cons fp fps)
  then show ?case by (cases i) (auto simp: next_ordinal_count)
qed simp

lemma lower_off: "map ascii_lower ''off'' = ''off''"
  by (simp add: ascii_lower_def)

lemma active_from_env:
  "is_active (fst (create_context_from_env w)) \<longleftrightarrow>
    (\<exists>s. environ w ''SIM_MODE'' = Some s \<and> map ascii_lower s \<in> {''record'', ''replay''})"
proof -
  have "mode (fst (create_context_from_env w)) =
    (case mode_of_value (map ascii_lower (case environ w ''SIM_MODE'' of None \<Rightarrow> ''off'' | Some s \<Rightarrow> s)) of
       None \<Rightarrow> OFF | Some m \<Rightarrow> m)"
    by (simp add: create_context_from_env_def sim_context_init_def Let_def del: list.map)
  then show ?thesis
    by (cases "environ w ''SIM_MODE''") (simp_all add: is_active_def mode_of_value_def lower_off del: list.map)
qed

lemma create_context_frame:
  assumes "create_context_from_env w = (c, w')"
  shows "sink c = None" "w' = w\<lparr>ticks := Suc (ticks w)\<rparr>"
  using assms by (auto simp: create_context_from_env_def sim_context_init_def Let_def simp del: list.map)

text \<open>A world with no contexts and no files, in which every reading is the same.\<close>

definition blank_world :: "(string \<Rightarrow> string option) \<Rightarrow> 'a \<Rightarrow> 'a world" where
  "blank_world env x =
     \<lparr>contexts = [], current = None, environ = env, files = (\<lambda>_. None), uuid_at = (\<lambda>_. ''00000000-0000''),
      time_at = (\<lambda>_. 0), date_at = (\<lambda>_. ''2024-01-01T00:00:00+00:00''), ticks = 0,
      log_entries = [], app = x\<rparr>"

subsection \<open>Properties\<close>

text \<open>
  Ordinals number the repetitions of a fingerprint. From freshly reset counters, the ordinal
  of the i-th request is the number of earlier requests with the same fingerprint; other
  fingerprints in between do not matter.
\<close>

theorem ordinals_number_repetitions:
  assumes "i < length fps"
  shows "ordinal_run fps (reset_ordinals c) ! i = int (count_list (take i fps) (fps ! i))"
  using ordinal_run_nth [OF assms] by (simp add: reset_ordinals_def)

theorem ordinals_number_repetitions_witness:
  "ordinal_run [''a'', ''b'', ''a''] (reset_ordinals (sim_context_init RECORD ''r'' None None)) ! 2 = 1"
  by (subst ordinals_number_repetitions) (simp_all add: numeral_2_eq_2)

text \<open>
  A context that is not set is created from the environment once. The first
  \<open>get_context\<close> makes it current, and every later one returns the same object and changes
  nothing; an unknown value of \<open>SIM_MODE\<close>, or none, means the SDK is off; no sink is attached.
\<close>

theorem get_context_creates_once:
  assumes "current w = None" "get_context w = (r, w')"
  shows "get_context w' = (r, w') \<and> valid_ref w' r \<and> sink (ctx_at w' r) = None \<and>
    files w' = files w \<and> app w' = app w \<and>
    (is_active (ctx_at w' r) \<longleftrightarrow>
      (\<exists>s. environ w ''SIM_MODE'' = Some s \<and> map ascii_lower s \<in> {''record'', ''replay''}))"
proof -
  obtain c w1 where c: "create_context_from_env w = (c, w1)" by fastforce
  have w': "r = length (contexts w1)" "w' = w1\<lparr>contexts := contexts w1 @ [c], current := Some r\<rparr>"
    using assms c by (auto simp: get_context_def new_ctx_def)
  have ctx: "ctx_at w' r = c" "valid_ref w' r"
    using w' by (simp_all add: ctx_at_def valid_ref_def)
  have "is_active c \<longleftrightarrow> (\<exists>s. environ w ''SIM_MODE'' = Some s \<and> map ascii_lower s \<in> {''record'', ''replay''})"
    using active_from_env [of w] c by simp
  then show ?thesis
    using ctx create_context_frame [OF c] w' by simp
qed

theorem get_context_creates_once_witness:
  "is_active (ctx_at (snd (get_context (blank_world (\<lambda>k. if k = ''SIM_MODE'' then Some ''Replay'' else None) ()))) 0)"
proof -
  let ?w = "blank_world (\<lambda>k. if k = ''SIM_MODE'' then Some ''Replay'' else None) ()"
  obtain r w' where g: "get_context ?w = (r, w')" by fastforce
  have "fst (get_context ?w) = 0"
    by (simp add: get_context_def new_ctx_def create_context_from_env_def blank_world_def Let_def)
  moreover have "current ?w = None" by (simp add: blank_world_def)
  moreover have "map ascii_lower ''Replay'' = ''replay''"
    by (simp add: ascii_lower_def char_of_def bit_0)
  ultimately show ?thesis
    using get_context_creates_once [OF _ g] g by (simp add: blank_world_def)
qed

text \<open>
  \<open>set_current\<close> and \<open>reset_current\<close> bracket. Whatever happens to the rest of the world in
  between, resetting with the token of the matching \<open>set_current\<close> restores the context that was
  current before, and touches nothing else.
\<close>

theorem reset_current_restores:
  assumes "set_current r w = (token, w1)"
  shows "get_current w1 = Some r \<and> get_current (reset_current token w2) = get_current w \<and>
    contexts (reset_current token w2) = contexts w2 \<and> reset_current token w1 = w"
  using assms by (auto simp: set_current_def get_current_def reset_current_def)

theorem reset_current_restores_witness:
  "get_current (reset_current None (set_context 7 (blank_world (\<lambda>k. None) ()))) = None"
proof -
  let ?w = "blank_world (\<lambda>k. None) ()"
  have "set_current 3 ?w = (None, set_context 3 ?w)"
    by (simp add: set_current_def set_context_def blank_world_def)
  from reset_current_restores [OF this, of "set_context 7 ?w"] show ?thesis
    by (simp add: get_current_def blank_world_def)
qed

text \<open>
  A new request starts clean and keeps its configuration. After \<open>start_new_request\<close> the
  context has the new request id, no stubs, depth 0 and ordinal 0 for every fingerprint, while
  mode, run id, stub directory and sink are those it had; no other context changes.
\<close>

theorem start_new_request_clean:
  assumes "valid_ref w r" "start_new_request r w = (u, w')"
  shows "request_id (ctx_at w' r) = u \<and> length u \<le> 8 \<and> collected_stubs (ctx_at w' r) = [] \<and>
    trace_depth (ctx_at w' r) = 0 \<and> fst (next_ordinal fp (ctx_at w' r)) = 0 \<and>
    mode (ctx_at w' r) = mode (ctx_at w r) \<and> run_id (ctx_at w' r) = run_id (ctx_at w r) \<and>
    stub_dir (ctx_at w' r) = stub_dir (ctx_at w r) \<and> sink (ctx_at w' r) = sink (ctx_at w r) \<and>
    (\<forall>s. s \<noteq> r \<longrightarrow> ctx_at w' s = ctx_at w s)"
  using assms by (auto simp: start_new_request_def reset_context_def next_ordinal_count)

theorem start_new_request_clean_witness:
  "request_id (ctx_at (snd (start_new_request 0
      (snd (get_context (blank_world (\<lambda>k. None) ()))))) 0) = ''00000000''"
proof -
  let ?w = "snd (get_context (blank_world (\<lambda>k. None) ()))"
  have v: "valid_ref ?w 0"
    by (simp add: get_context_def new_ctx_def blank_world_def valid_ref_def Let_def split: prod.split)
  obtain u w' where n: "start_new_request 0 ?w = (u, w')" by fastforce
  then have "u = ''00000000''"
    by (auto simp: start_new_request_def get_context_def new_ctx_def blank_world_def
        create_context_from_env_def Let_def)
  then show ?thesis using start_new_request_clean [OF v n] n by simp
qed

end
