(* ===== verification/Fixture_Store.thy ===== *)
theory Fixture_Store
  imports Context
begin

text \<open>
  What the three recording components share: a run hands out ordinals per counter key and
  stores one document per call under a path made of the call and its ordinal; a later run over
  the same calls reads them back.

  The abstract store below is a map from paths to documents with a function of counters.
  \<open>fixture_paths\<close> is the interface: a path determines the part of the call it was made of and
  the ordinal. trace.py, capture.py and db.py each build such a path (\<open>_fixture_key\<close>,
  \<open>_capture_key\<close>, \<open>_db_fixture_key\<close>), and their theories interpret the locale with it. The
  locale proves once that replaying a recorded run gives the recorded documents, provided calls
  with the same path part also share their counter.
\<close>

subsection \<open>The abstract store\<close>

text \<open>A call that stored nothing (\<open>None\<close>) has used up its ordinal all the same.\<close>

fun record_run ::
  "('op \<Rightarrow> string) \<Rightarrow> ('op \<Rightarrow> int \<Rightarrow> path) \<Rightarrow> ('op \<times> json option) list \<Rightarrow> (string \<Rightarrow> int) \<Rightarrow>
    (path \<Rightarrow> json option) \<Rightarrow> (path \<Rightarrow> json option)" where
  "record_run ckey fpath [] cnt fs = fs"
| "record_run ckey fpath ((c, d) # xs) cnt fs =
     record_run ckey fpath xs (cnt(ckey c := cnt (ckey c) + 1))
       (case d of None \<Rightarrow> fs | Some j \<Rightarrow> fs(fpath c (cnt (ckey c)) \<mapsto> j))"

fun replay_run ::
  "('op \<Rightarrow> string) \<Rightarrow> ('op \<Rightarrow> int \<Rightarrow> path) \<Rightarrow> 'op list \<Rightarrow> (string \<Rightarrow> int) \<Rightarrow>
    (path \<Rightarrow> json option) \<Rightarrow> json option list" where
  "replay_run ckey fpath [] cnt fs = []"
| "replay_run ckey fpath (c # cs) cnt fs =
     fs (fpath c (cnt (ckey c))) #
       replay_run ckey fpath cs (cnt(ckey c := cnt (ckey c) + 1)) fs"

lemma replay_run_Nil [simp]: "length (replay_run ckey fpath cs cnt fs) = length cs"
  by (induction cs arbitrary: cnt) auto

text \<open>No two of the calls share the path part without sharing the counter.\<close>

definition separated :: "('op \<Rightarrow> string) \<Rightarrow> ('op \<Rightarrow> 'p) \<Rightarrow> 'op set \<Rightarrow> bool" where
  "separated ckey pkey A \<longleftrightarrow> (\<forall>x\<in>A. \<forall>y\<in>A. pkey x = pkey y \<longrightarrow> ckey x = ckey y)"

lemma separated_subset: "separated ckey pkey A \<Longrightarrow> B \<subseteq> A \<Longrightarrow> separated ckey pkey B"
  by (auto simp: separated_def)

lemma separatedD: "separated ckey pkey A \<Longrightarrow> x \<in> A \<Longrightarrow> y \<in> A \<Longrightarrow> pkey x = pkey y \<Longrightarrow> ckey x = ckey y"
  unfolding separated_def by blast

locale fixture_paths =
  fixes ok :: "'op \<Rightarrow> bool"
    and ckey :: "'op \<Rightarrow> string"
    and pkey :: "'op \<Rightarrow> 'p"
    and fpath :: "'op \<Rightarrow> int \<Rightarrow> path"
  assumes path_determines:
    "ok x \<Longrightarrow> ok y \<Longrightarrow> fpath x m = fpath y n \<Longrightarrow> pkey x = pkey y \<and> m = n"
begin

lemma record_run_frame:
  assumes "list_all ok (c # map fst xs)" "separated ckey pkey (set (c # map fst xs))"
    and "n < cnt (ckey c)"
  shows "record_run ckey fpath xs cnt fs (fpath c n) = fs (fpath c n)"
  using assms
proof (induction xs arbitrary: cnt fs)
  case (Cons x xs)
  obtain e d where x: "x = (e, d)" by fastforce
  let ?cnt = "cnt(ckey e := cnt (ckey e) + 1)"
  have ok: "ok c" "ok e" "list_all ok (c # map fst xs)"
    using Cons.prems(1) by (simp_all add: x)
  have sep: "separated ckey pkey (set (c # map fst xs))"
    by (rule separated_subset [OF Cons.prems(2)]) (auto simp: x)
  have "fpath e (cnt (ckey e)) \<noteq> fpath c n"
  proof
    assume "fpath e (cnt (ckey e)) = fpath c n"
    then have *: "pkey e = pkey c" "cnt (ckey e) = n"
      using path_determines [OF ok(2,1)] by auto
    then have "ckey e = ckey c"
      by (intro separatedD [OF Cons.prems(2)]) (simp_all add: x)
    then show False using Cons.prems(3) * by simp
  qed
  moreover have "n < ?cnt (ckey c)" using Cons.prems(3) by (cases "ckey c = ckey e") auto
  ultimately show ?case using Cons.IH [OF ok(3) sep] by (simp add: x split: option.split)
qed simp

lemma replay_run_other:
  assumes "ok c" "list_all ok cs" "separated ckey pkey (set (c # cs))" "n < cnt (ckey c)"
  shows "replay_run ckey fpath cs cnt (fs(fpath c n \<mapsto> j)) = replay_run ckey fpath cs cnt fs"
  using assms
proof (induction cs arbitrary: cnt)
  case (Cons e cs)
  let ?cnt = "cnt(ckey e := cnt (ckey e) + 1)"
  have "fpath e (cnt (ckey e)) \<noteq> fpath c n"
  proof
    assume "fpath e (cnt (ckey e)) = fpath c n"
    then have *: "pkey e = pkey c" "cnt (ckey e) = n"
      using path_determines [of e c] Cons.prems(1,2) by auto
    then have "ckey e = ckey c"
      by (intro separatedD [OF Cons.prems(3)]) simp_all
    then show False using Cons.prems(4) * by simp
  qed
  moreover have "replay_run ckey fpath cs ?cnt (fs(fpath c n \<mapsto> j)) = replay_run ckey fpath cs ?cnt fs"
  proof (rule Cons.IH)
    show "separated ckey pkey (set (c # cs))"
      by (rule separated_subset [OF Cons.prems(3)]) auto
    show "n < ?cnt (ckey c)" using Cons.prems(4) by (cases "ckey c = ckey e") auto
  qed (use Cons.prems in simp_all)
  ultimately show ?case by (simp del: fun_upd_apply) simp
qed simp

text \<open>
  Replaying reads, call by call, the document the recording stored; for a call that stored none,
  what was there before the recording.
\<close>

theorem replay_of_record:
  assumes "list_all ok (map fst xs)" "separated ckey pkey (set (map fst xs))"
  shows "replay_run ckey fpath (map fst xs) cnt (record_run ckey fpath xs cnt fs) =
    map2 (\<lambda>d old. case d of None \<Rightarrow> old | Some j \<Rightarrow> Some j) (map snd xs)
      (replay_run ckey fpath (map fst xs) cnt fs)"
  using assms
proof (induction xs arbitrary: cnt fs)
  case (Cons x xs)
  obtain c d where x: "x = (c, d)" by fastforce
  let ?cnt = "cnt(ckey c := cnt (ckey c) + 1)"
  let ?fs = "case d of None \<Rightarrow> fs | Some j \<Rightarrow> fs(fpath c (cnt (ckey c)) \<mapsto> j)"
  have rec: "record_run ckey fpath xs ?cnt ?fs (fpath c (cnt (ckey c))) = ?fs (fpath c (cnt (ckey c)))"
    using Cons.prems by (intro record_run_frame) (simp_all add: x)
  have ok: "ok c" "list_all ok (map fst xs)" using Cons.prems(1) by (simp_all add: x)
  have sep: "separated ckey pkey (set (map fst xs))"
    by (rule separated_subset [OF Cons.prems(2)]) auto
  have later: "replay_run ckey fpath (map fst xs) ?cnt ?fs = replay_run ckey fpath (map fst xs) ?cnt fs"
  proof (cases d)
    case (Some j)
    have "replay_run ckey fpath (map fst xs) ?cnt (fs(fpath c (cnt (ckey c)) \<mapsto> j)) =
        replay_run ckey fpath (map fst xs) ?cnt fs"
      using Cons.prems(2) by (intro replay_run_other ok) (simp_all add: x)
    then show ?thesis by (simp add: Some)
  qed simp
  show ?case
    using Cons.IH [OF ok(2) sep, of ?cnt ?fs] later rec
    by (simp add: x del: fun_upd_apply) (simp add: split: option.split)
qed simp

corollary replay_of_full_record:
  assumes "list_all ok ops" "separated ckey pkey (set ops)" "length docs = length ops"
  shows "replay_run ckey fpath ops cnt (record_run ckey fpath (zip ops (map Some docs)) cnt fs) =
    map Some docs"
proof -
  have "map fst (zip ops (map Some docs)) = ops" "map snd (zip ops (map Some docs)) = map Some docs"
    using assms(3) by simp_all
  moreover have "map2 (\<lambda>d old. case d of None \<Rightarrow> old | Some j \<Rightarrow> Some j) (map Some docs) olds = map Some docs"
    if "length olds = length docs" for olds :: "json option list"
    using that by (induction docs olds rule: list_induct2') auto
  ultimately show ?thesis
    using replay_of_record [of "zip ops (map Some docs)" cnt fs] assms by simp
qed

end

subsection \<open>Paths\<close>

lemma split_on_two: "c \<notin> set t \<Longrightarrow> last (split_on c (s @ c # t)) = t"
proof (induction s)
  case (Cons a s)
  obtain y ys where "split_on c (s @ c # t) = y # ys"
    by (cases "split_on c (s @ c # t)") simp_all
  moreover have "2 \<le> length (split_on c (s @ c # t))"
    by (induction s) (auto simp: Suc_le_eq split: list.split)
  ultimately show ?case using Cons by (auto split: list.split)
qed simp

lemma last_parse_path:
  assumes "CHR ''/'' \<notin> set t" "t \<noteq> []" "t \<noteq> ''.''"
  shows "parse_path (s @ CHR ''/'' # t) \<noteq> [] \<and> last (parse_path (s @ CHR ''/'' # t)) = t"
proof -
  let ?parts = "split_on (CHR ''/'') (s @ CHR ''/'' # t)"
  have parts: "?parts = butlast ?parts @ [t]"
    using split_on_two [OF assms(1), of s] by (metis append_butlast_last_id split_on_nonempty)
  have "filter (\<lambda>p. p \<noteq> [] \<and> p \<noteq> ''.'') ?parts =
    filter (\<lambda>p. p \<noteq> [] \<and> p \<noteq> ''.'') (butlast ?parts) @ [t]"
    using assms(2,3) by (subst parts) simp
  then show ?thesis by (simp add: parse_path_def)
qed

end
