(* ===== verification/Sha256.thy ===== *)
theory Sha256
  imports Prelude
begin

text \<open>
  SHA-256 as \<open>hashlib.sha256(data).hexdigest()\<close> computes it (FIPS 180-4), and the UTF-8
  encoding \<open>str.encode('utf-8')\<close> applied before it. Everything the SDK hashes
  (sim_sdk/canonical.py, sim_sdk/redaction.py) goes through these two functions.

  The state is a list of eight 32-bit words, the message schedule a sliding window of sixteen.
  The lemmas show that a digest is always 64 lowercase hexadecimal characters and check the
  standard's first test vector, the digest of \<open>abc\<close>.
\<close>

unbundle bit_operations_syntax

type_synonym u8 = "8 word"
type_synonym u32 = "32 word"

subsection \<open>The compression function\<close>

definition rotr :: "nat \<Rightarrow> u32 \<Rightarrow> u32" where
  "rotr n x = drop_bit n x OR push_bit (32 - n) (take_bit n x)"

definition sha_ch :: "u32 \<Rightarrow> u32 \<Rightarrow> u32 \<Rightarrow> u32" where
  "sha_ch x y z = (x AND y) XOR (NOT x AND z)"

definition sha_maj :: "u32 \<Rightarrow> u32 \<Rightarrow> u32 \<Rightarrow> u32" where
  "sha_maj x y z = (x AND y) XOR (x AND z) XOR (y AND z)"

definition big_sigma0 :: "u32 \<Rightarrow> u32" where
  "big_sigma0 x = rotr 2 x XOR rotr 13 x XOR rotr 22 x"

definition big_sigma1 :: "u32 \<Rightarrow> u32" where
  "big_sigma1 x = rotr 6 x XOR rotr 11 x XOR rotr 25 x"

definition small_sigma0 :: "u32 \<Rightarrow> u32" where
  "small_sigma0 x = rotr 7 x XOR rotr 18 x XOR drop_bit 3 x"

definition small_sigma1 :: "u32 \<Rightarrow> u32" where
  "small_sigma1 x = rotr 17 x XOR rotr 19 x XOR drop_bit 10 x"

definition sha_K :: "u32 list" where
  "sha_K = [
    1116352408, 1899447441, 3049323471, 3921009573, 961987163, 1508970993,
    2453635748, 2870763221, 3624381080, 310598401, 607225278, 1426881987,
    1925078388, 2162078206, 2614888103, 3248222580, 3835390401, 4022224774,
    264347078, 604807628, 770255983, 1249150122, 1555081692, 1996064986,
    2554220882, 2821834349, 2952996808, 3210313671, 3336571891, 3584528711,
    113926993, 338241895, 666307205, 773529912, 1294757372, 1396182291,
    1695183700, 1986661051, 2177026350, 2456956037, 2730485921, 2820302411,
    3259730800, 3345764771, 3516065817, 3600352804, 4094571909, 275423344,
    430227734, 506948616, 659060556, 883997877, 958139571, 1322822218,
    1537002063, 1747873779, 1955562222, 2024104815, 2227730452, 2361852424,
    2428436474, 2756734187, 3204031479, 3329325298]"

definition sha_H0 :: "u32 list" where
  "sha_H0 = [
    1779033703, 3144134277, 1013904242, 2773480762, 1359893119, 2600822924,
    528734635, 1541459225]"

definition next_window :: "u32 list \<Rightarrow> u32 list" where
  "next_window ws =
     tl ws @ [small_sigma1 (ws ! 14) + ws ! 9 + small_sigma0 (ws ! 1) + ws ! 0]"

definition sha_t1 :: "u32 \<Rightarrow> u32 \<Rightarrow> u32 list \<Rightarrow> u32" where
  "sha_t1 k w s = s ! 7 + big_sigma1 (s ! 4) + sha_ch (s ! 4) (s ! 5) (s ! 6) + k + w"

definition sha_t2 :: "u32 list \<Rightarrow> u32" where
  "sha_t2 s = big_sigma0 (s ! 0) + sha_maj (s ! 0) (s ! 1) (s ! 2)"

definition sha_round :: "u32 \<Rightarrow> u32 \<Rightarrow> u32 list \<Rightarrow> u32 list" where
  "sha_round t1 t2 s = [t1 + t2, s ! 0, s ! 1, s ! 2, s ! 3 + t1, s ! 4, s ! 5, s ! 6]"

fun rounds :: "u32 list \<Rightarrow> u32 list \<Rightarrow> u32 list \<Rightarrow> u32 list" where
  "rounds [] ws s = s"
| "rounds (k # ks) ws s =
     rounds ks (next_window ws) (sha_round (sha_t1 k (ws ! 0) s) (sha_t2 s) s)"

definition compress :: "u32 list \<Rightarrow> u32 list \<Rightarrow> u32 list" where
  "compress st blk = map2 (+) st (rounds sha_K blk st)"

subsection \<open>Padding, blocks and the digest\<close>

fun words_of_bytes :: "u8 list \<Rightarrow> u32 list" where
  "words_of_bytes (a # b # c # d # r) =
     (push_bit 24 (ucast a) OR push_bit 16 (ucast b) OR push_bit 8 (ucast c) OR ucast d)
       # words_of_bytes r"
| "words_of_bytes _ = []"

definition sha_pad :: "u8 list \<Rightarrow> u8 list" where
  "sha_pad m =
     m @ [0x80] @ replicate ((119 - length m mod 64) mod 64) 0
       @ map (\<lambda>i. word_of_nat (8 * length m div 2 ^ (8 * i))) [7, 6, 5, 4, 3, 2, 1, 0]"

function sha_blocks :: "u32 list \<Rightarrow> u32 list \<Rightarrow> u32 list" where
  "sha_blocks st ws =
     (if ws = [] then st else sha_blocks (compress st (take 16 ws)) (drop 16 ws))"
  by pat_completeness auto
termination
  by (relation "measure (\<lambda>(st, ws). length ws)") auto

declare sha_blocks.simps [simp del]

definition word_bytes :: "u32 \<Rightarrow> u8 list" where
  "word_bytes w = [ucast (drop_bit 24 w), ucast (drop_bit 16 w), ucast (drop_bit 8 w), ucast w]"

definition sha256_digest :: "u8 list \<Rightarrow> u8 list" where
  "sha256_digest m = concat (map word_bytes (sha_blocks sha_H0 (words_of_bytes (sha_pad m))))"

definition sha256_hexdigest :: "u8 list \<Rightarrow> string" where
  "sha256_hexdigest m = bytes_hex (sha256_digest m)"

subsection \<open>UTF-8\<close>

definition utf8_char :: "char \<Rightarrow> u8 list" where
  "utf8_char c =
     (let n = code_point c in
      if n < 128 then [word_of_nat n] else [word_of_nat (192 + n div 64), word_of_nat (128 + n mod 64)])"

definition utf8_encode :: "string \<Rightarrow> u8 list" where
  "utf8_encode s = concat (map utf8_char s)"

text \<open>The encoding is injective: hashing the bytes loses nothing of the text.\<close>

lemma code_point_less: "code_point c < 256"
  using nat_of_char_less_256 [of c] by simp

lemma utf8_char_inj: "utf8_char c @ xs = utf8_char d @ ys \<Longrightarrow> c = d \<and> xs = ys"
proof -
  assume eq: "utf8_char c @ xs = utf8_char d @ ys"
  have w: "(word_of_nat a :: u8) = word_of_nat b \<longleftrightarrow> a = b" if "a < 256" "b < 256" for a b
    using that by (simp add: word_of_nat_eq_iff take_bit_eq_mod)
  have bounds: "code_point c < 256" "code_point d < 256" by (rule code_point_less)+
  have d64: "n div 64 < 4" "n mod 64 < 64" if "n < 256" for n :: nat using that by auto
  show ?thesis
  proof (cases "code_point c < 128")
    case True
    then show ?thesis using eq bounds d64 [OF bounds(2)]
      by (auto simp: utf8_char_def Let_def w simp del: of_nat_add of_nat_numeral split: if_splits)
  next
    case False
    then have "\<not> code_point d < 128" using eq bounds d64 [OF bounds(1)]
      by (auto simp: utf8_char_def Let_def w simp del: of_nat_add of_nat_numeral split: if_splits)
    with False have "code_point c div 64 = code_point d div 64" "code_point c mod 64 = code_point d mod 64"
      "xs = ys"
      using eq bounds d64 [OF bounds(1)] d64 [OF bounds(2)]
      by (auto simp: utf8_char_def Let_def w simp del: of_nat_add of_nat_numeral)
    then show ?thesis by (metis div_mult_mod_eq of_char_eq_iff)
  qed
qed

lemma utf8_encode_inj: "utf8_encode s = utf8_encode t \<longleftrightarrow> s = t"
proof
  have ne: "utf8_char c \<noteq> []" for c by (simp add: utf8_char_def Let_def)
  show "utf8_encode s = utf8_encode t \<Longrightarrow> s = t"
  proof (induction s arbitrary: t)
    case Nil
    then show ?case by (cases t) (auto simp: utf8_encode_def ne)
  next
    case (Cons c s)
    then obtain d t' where t: "t = d # t'" by (cases t) (auto simp: utf8_encode_def ne)
    with Cons.prems have "c = d \<and> utf8_encode s = utf8_encode t'"
      using utf8_char_inj by (fastforce simp: utf8_encode_def)
    with t Cons.IH show ?case by simp
  qed
qed simp

subsection \<open>The shape of a digest\<close>

lemma length_rounds: "length s = 8 \<Longrightarrow> length (rounds ks ws s) = 8"
  by (induction ks ws s rule: rounds.induct) (auto simp: sha_round_def)

lemma length_compress: "length st = 8 \<Longrightarrow> length (compress st blk) = 8"
  by (simp add: compress_def length_rounds)

lemma length_sha_blocks: "length st = 8 \<Longrightarrow> length (sha_blocks st ws) = 8"
proof (induction st ws rule: sha_blocks.induct)
  case (1 st ws)
  then show ?case by (subst sha_blocks.simps) (simp add: length_compress)
qed

lemma length_concat_const: "(\<And>x. x \<in> set xs \<Longrightarrow> length (f x) = n) \<Longrightarrow>
    length (concat (map f xs)) = n * length xs"
  by (induction xs) auto

lemma length_sha256_digest: "length (sha256_digest m) = 32"
proof -
  have "length sha_H0 = 8" by (simp add: sha_H0_def)
  then show ?thesis
    by (simp add: sha256_digest_def length_concat_const [where n = 4] word_bytes_def
        length_sha_blocks)
qed

lemma length_sha256_hexdigest [simp]: "length (sha256_hexdigest m) = 64"
  by (simp add: sha256_hexdigest_def length_sha256_digest)

lemma sha256_hexdigest_chars: "c \<in> set (sha256_hexdigest m) \<Longrightarrow> is_hex c"
  by (auto simp: sha256_hexdigest_def dest: bytes_hex_chars)

subsection \<open>The test vector \<open>abc\<close>\<close>

lemmas round_defs = rotr_def sha_ch_def sha_maj_def big_sigma0_def big_sigma1_def
  small_sigma0_def small_sigma1_def next_window_def sha_t1_def sha_t2_def sha_round_def

lemma sha256_abc: "sha256_hexdigest (utf8_encode ''abc'') = ''ba7816bf8f01cfea414140de5dae2223b00361a396177a9cb410ff61f20015ad''"
proof -
  have bytes: "utf8_encode ''abc'' = [0x61, 0x62, 0x63]"
    by (simp add: utf8_encode_def utf8_char_def)
  have block: "words_of_bytes (sha_pad [0x61, 0x62, 0x63]) =
      [1633837952, 0, 0, 0, 0, 0,
    0, 0, 0, 0, 0, 0,
    0, 0, 0, 24]"
  proof -
    have "(replicate 52 0 :: u8 list) =
     [0, 0, 0, 0, 0, 0, 0, 0, 0, 0, 0, 0, 0, 0, 0, 0, 0, 0, 0, 0,
      0, 0, 0, 0, 0, 0, 0, 0, 0, 0, 0, 0, 0, 0, 0, 0, 0, 0, 0, 0,
      0, 0, 0, 0, 0, 0, 0, 0, 0, 0, 0, 0]"
      by code_simp
    then show ?thesis by (simp add: sha_pad_def)
  qed
  have state: "sha_blocks sha_H0 [1633837952, 0, 0, 0, 0, 0,
    0, 0, 0, 0, 0, 0,
    0, 0, 0, 24] =
      [3128432319, 2399260650, 1094795486, 1571693091, 2953011619, 2518121116,
    3021012833, 4060091821]"
    by (simp add: sha_blocks.simps compress_def sha_H0_def sha_K_def round_defs)
  have "sha256_digest (utf8_encode ''abc'') =
      [186, 120, 22, 191, 143, 1, 207, 234, 65, 65, 64, 222,
      93, 174, 34, 35, 176, 3, 97, 163, 150, 23, 122, 156,
      180, 16, 255, 97, 242, 0, 21, 173]"
    unfolding sha256_digest_def bytes block state by (simp add: word_bytes_def)
  then show ?thesis
    by (simp add: sha256_hexdigest_def bytes_hex_def hex_byte_def hex_digit_def char_of_def bit_0)
qed

end
