(* ===== verification/Canonical.thy ===== *)
theory Canonical
  imports Py_Value Json_Text Sha256 "HOL-Library.Multiset"
begin

text \<open>
  Canonical JSON and fingerprints (sim_sdk/canonical.py): the fallback serialiser, the encoder
  behind \<open>json.dumps\<close>, the canonical text and its SHA-256 fingerprint. The encoder is also the
  one behind \<open>json.dump(data, f, indent=2, default=str)\<close> of capture.py and db.py.

  A message of the optional protobuf package carries what \<open>MessageToDict\<close> makes of it, and there are
  no messages without the package; whether the optional Avro package is installed is the argument
  \<open>has_avro\<close>.

  The lemmas show that plain data always encodes, that reading back what was written gives the
  same data, and that two pieces of plain data have the same canonical text exactly when they
  differ in the order of dictionary items only.
\<close>

subsection \<open>Base64\<close>

definition b64_char :: "nat \<Rightarrow> char" where
  "b64_char n =
     (if n < 26 then char_of (65 + n) else if n < 52 then char_of (71 + n)
      else if n < 62 then char_of (n - 4) else if n = 62 then CHR ''+'' else CHR ''/'')"

fun b64encode :: "8 word list \<Rightarrow> string" where
  "b64encode [] = []"
| "b64encode [a] =
     (let n = unat a * 16 in [b64_char (n div 64), b64_char (n mod 64), CHR ''='', CHR ''=''])"
| "b64encode [a, b] =
     (let n = (unat a * 256 + unat b) * 4 in
      [b64_char (n div 4096), b64_char (n div 64 mod 64), b64_char (n mod 64), CHR ''=''])"
| "b64encode (a # b # c # r) =
     (let n = (unat a * 256 + unat b) * 256 + unat c in
      [b64_char (n div 262144), b64_char (n div 4096 mod 64), b64_char (n div 64 mod 64),
       b64_char (n mod 64)] @ b64encode r)"

subsection \<open>\<open>_default_serializer\<close>\<close>

fun has_avro_schema :: "pyval \<Rightarrow> bool" where
  "has_avro_schema (VObj _ _ _ (Some _) _ _ _ _ _) = True"
| "has_avro_schema _ = False"

definition avro_fields ::
  "string list \<Rightarrow> (string \<times> pyval) list \<Rightarrow> (pykey \<times> pyval) list" where
  "avro_fields fields attrs =
     dict_of_items (List.map_filter (\<lambda>f. map_option (Pair (KStr f)) (map_of attrs f)) fields)"

fun serialize_avro_record :: "pyval \<Rightarrow> pyval" where
  "serialize_avro_record (VObj isof flt proto (Some fields) (Some attrs) itr s r t) =
     VDict (avro_fields fields
       (map (\<lambda>(k, v). (k, if has_avro_schema v then serialize_avro_record v else v)) attrs))"
| "serialize_avro_record v = VDict []"

fun key_value :: "pykey \<Rightarrow> pyval" where
  "key_value (KStr s) = VStr s"
| "key_value (KInt i) = VInt i"
| "key_value (KBool b) = VBool b"
| "key_value KNone = VNone"
| "key_value (KOther s r) = VObj None None None None None None s r []"

fun default_serializer :: "bool \<Rightarrow> pyval \<Rightarrow> py_exn + pyval" where
  "default_serializer has_avro (VObj isof flt proto avro attrs itr s r t) =
     (case isof of
        Some i \<Rightarrow> Inr (VStr i)
      | None \<Rightarrow>
          (case proto of
             Some d \<Rightarrow> Inr d
           | None \<Rightarrow>
               if has_avro \<and> avro \<noteq> None then
                 Inr (serialize_avro_record (VObj isof flt proto avro attrs itr s r t))
               else
                 (case attrs of
                    Some d \<Rightarrow> Inr (VDict (map (\<lambda>(k, v). (KStr k, v)) d))
                  | None \<Rightarrow> (case itr of Some xs \<Rightarrow> Inr (VList xs) | None \<Rightarrow> Inl (TypeErr t)))))"
| "default_serializer has_avro (VBytes bs) = Inr (VDict [(KStr ''__bytes__'', VStr (b64encode bs))])"
| "default_serializer has_avro (VSet xs) = Inr (VList (sort_key py_str xs))"
| "default_serializer has_avro (VList xs) = Inr (VList xs)"
| "default_serializer has_avro (VTuple xs) = Inr (VList xs)"
| "default_serializer has_avro (VDict kvs) = Inr (VList (map (\<lambda>(k, v). key_value k) kvs))"
| "default_serializer has_avro VNone = Inl (TypeErr ''NoneType'')"
| "default_serializer has_avro (VBool b) = Inl (TypeErr ''bool'')"
| "default_serializer has_avro (VInt i) = Inl (TypeErr ''int'')"
| "default_serializer has_avro (VFloat f) = Inl (TypeErr ''float'')"
| "default_serializer has_avro (VStr s) = Inl (TypeErr ''str'')"

text \<open>
  The two \<open>default\<close> arguments the SDK passes to the encoder. It is only called on the values
  the encoder does not know: bytes, sets and objects.
\<close>

datatype default_fn = DefaultSerializer bool | DefaultStr

fun apply_default :: "default_fn \<Rightarrow> pyval \<Rightarrow> py_exn + pyval" where
  "apply_default (DefaultSerializer has_avro) v = default_serializer has_avro v"
| "apply_default DefaultStr v = Inr (VStr (py_str v))"

text \<open>The weight of a value: it drops when \<open>default\<close> replaces a value by a simpler one.\<close>

fun weight :: "pyval \<Rightarrow> nat" where
  "weight (VBytes _) = 5"
| "weight (VList xs) = 1 + sum_list (map weight xs)"
| "weight (VTuple xs) = 1 + sum_list (map weight xs)"
| "weight (VSet xs) = 3 + sum_list (map weight xs)"
| "weight (VDict kvs) = 1 + sum_list (map (\<lambda>(k, v). weight v) kvs)"
| "weight (VObj _ _ proto _ attrs itr _ _ _) =
     3 + (case proto of None \<Rightarrow> 0 | Some d \<Rightarrow> weight d)
       + (case attrs of None \<Rightarrow> 0 | Some d \<Rightarrow> sum_list (map (\<lambda>(k, v). weight v) d))
       + (case itr of None \<Rightarrow> 0 | Some xs \<Rightarrow> sum_list (map weight xs))"
| "weight _ = 1"

lemma weight_pos: "0 < weight v"
  by (cases v) auto

lemma sum_list_delete_le:
  "sum_list (map (\<lambda>(k, u). w u) (AList.delete x al)) \<le> (sum_list (map (\<lambda>(k, u). w u) al) :: nat)"
  by (induction al) (auto simp: AList.delete_eq)

lemma sum_list_delete:
  "map_of al x = Some u \<Longrightarrow>
   w u + sum_list (map (\<lambda>(k, u). w u) (AList.delete x al)) \<le> (sum_list (map (\<lambda>(k, u). w u) al) :: nat)"
proof (induction al)
  case (Cons kv al)
  then show ?case using sum_list_delete_le [of w x al] by (cases kv) (auto split: if_splits)
qed simp

lemma sum_list_lookup:
  assumes "distinct (map fst d)"
    and "\<And>k v. (k, v) \<in> set d \<Longrightarrow> \<exists>u. map_of al (h k) = Some u \<and> w v \<le> (w' u :: nat)"
    and "inj_on h (fst ` set d)"
  shows "sum_list (map (\<lambda>(k, v). w v) d) \<le> sum_list (map (\<lambda>(k, u). w' u) al)"
  using assms
proof (induction d arbitrary: al)
  case (Cons kv d)
  obtain k v where kv: "kv = (k, v)" by fastforce
  obtain u where u: "map_of al (h k) = Some u" "w v \<le> w' u" using Cons.prems(2) [of k v] kv by auto
  have rest: "w' u + sum_list (map (\<lambda>(k, u). w' u) (AList.delete (h k) al))
      \<le> sum_list (map (\<lambda>(k, u). w' u) al)"
    using u(1) by (rule sum_list_delete)
  have "sum_list (map (\<lambda>(k, v). w v) d) \<le> sum_list (map (\<lambda>(k, u). w' u) (AList.delete (h k) al))"
  proof (rule Cons.IH)
    fix k' v' assume in_d: "(k', v') \<in> set d"
    have "k' \<noteq> k" using in_d Cons.prems(1) kv by (auto simp: rev_image_eqI)
    then have "h k' \<noteq> h k" using Cons.prems(3) in_d kv by (force simp: inj_on_def)
    then show "\<exists>u. map_of (AList.delete (h k) al) (h k') = Some u \<and> w v' \<le> w' u"
      using Cons.prems(2) [of k' v'] in_d by (simp add: AList.delete_conv)
  qed (use Cons.prems kv in auto)
  then show ?case using kv u(2) rest by simp
qed simp

lemma map_of_map_values: "map_of (map (\<lambda>(k, v). (k, f v)) al) k = map_option f (map_of al k)"
  by (induction al) auto

lemma weight_avro_fields:
  assumes "\<And>k v. (k, v) \<in> set attrs \<Longrightarrow> weight (f v) \<le> weight v"
  shows "sum_list (map (\<lambda>(k, v). weight v) (avro_fields fields (map (\<lambda>(k, v). (k, f v)) attrs)))
    \<le> sum_list (map (\<lambda>(k, v). weight v) attrs)"
proof (rule sum_list_lookup [where h = key_str])
  let ?d = "avro_fields fields (map (\<lambda>(k, v). (k, f v)) attrs)"
  have sub: "\<exists>s u. k = KStr s \<and> map_of attrs s = Some u \<and> v = f u" if "(k, v) \<in> set ?d" for k v
  proof -
    have "(k, v) \<in> set (List.map_filter (\<lambda>s. map_option (Pair (KStr s))
        (map_of (map (\<lambda>(k, v). (k, f v)) attrs) s)) fields)"
      using that set_dict_of_items by (force simp: avro_fields_def)
    then show ?thesis by (auto simp: List.map_filter_def map_of_map_values)
  qed
  show "distinct (map fst ?d)" by (simp add: avro_fields_def)
  show "\<exists>u. map_of attrs (key_str k) = Some u \<and> weight v \<le> weight u" if "(k, v) \<in> set ?d" for k v
    using sub [OF that] assms map_of_SomeD by fastforce
  show "inj_on key_str (fst ` set ?d)"
    by (auto simp: inj_on_def dest!: sub)
qed

lemma weight_serialize_avro: "has_avro_schema v \<Longrightarrow> weight (serialize_avro_record v) < weight v"
proof (induction v rule: serialize_avro_record.induct)
  case (1 isof flt proto fields attrs itr s r t)
  have "sum_list (map (\<lambda>(k, v). weight v) (avro_fields fields
      (map (\<lambda>(k, v). (k, if has_avro_schema v then serialize_avro_record v else v)) attrs)))
    \<le> sum_list (map (\<lambda>(k, v). weight v) attrs)"
    by (rule weight_avro_fields) (use 1 in \<open>fastforce intro: less_imp_le\<close>)
  then show ?case by simp
qed auto

fun is_basic :: "pyval \<Rightarrow> bool" where
  "is_basic (VBytes _) = False"
| "is_basic (VSet _) = False"
| "is_basic (VObj _ _ _ _ _ _ _ _ _) = False"
| "is_basic _ = True"

lemma sum_list_sort_key: "sum_list (map f (sort_key g xs)) = (sum_list (map f xs) :: nat)"
  by (metis mset_map mset_sort sum_mset_sum_list)

lemma weight_default: "\<not> is_basic v \<Longrightarrow> apply_default d v = Inr w \<Longrightarrow> weight w < weight v"
proof (cases d)
  case (DefaultSerializer has_avro)
  assume nb: "\<not> is_basic v" and eq: "apply_default d v = Inr w"
  then show ?thesis
    using DefaultSerializer weight_serialize_avro [of v]
    by (cases v) (auto simp: sum_list_sort_key comp_def case_prod_unfold
        simp del: serialize_avro_record.simps split: option.splits if_splits)
qed (cases v; auto)

subsection \<open>The encoder of \<open>json.dumps\<close> and \<open>json.dump\<close>\<close>

text \<open>\<open>sorted(dct.items())\<close>: keys of one kind only can be compared.\<close>

fun is_str_key :: "pykey \<Rightarrow> bool" where
  "is_str_key (KStr _) = True"
| "is_str_key _ = False"

fun key_number :: "pykey \<Rightarrow> int option" where
  "key_number (KInt i) = Some i"
| "key_number (KBool b) = Some (if b then 1 else 0)"
| "key_number _ = None"

definition sort_items :: "(pykey \<times> 'a) list \<Rightarrow> py_exn + (pykey \<times> 'a) list" where
  "sort_items kvs =
     (if length kvs \<le> 1 then Inr kvs
      else if list_all (\<lambda>(k, v). is_str_key k) kvs then Inr (sort_key (\<lambda>(k, v). key_str k) kvs)
      else if list_all (\<lambda>(k, v). key_number k \<noteq> None) kvs then
        Inr (sort_key (\<lambda>(k, v). the (key_number k)) kvs)
      else Inl (TypeErr ''not supported between keys''))"

fun json_key :: "pykey \<Rightarrow> py_exn + string" where
  "json_key (KStr s) = Inr s"
| "json_key (KInt i) = Inr (dec_int i)"
| "json_key (KBool b) = Inr (if b then ''true'' else ''false'')"
| "json_key KNone = Inr ''null''"
| "json_key (KOther s r) = Inl (TypeErr ''keys'')"

lemma set_sort_items: "sort_items kvs = Inr kws \<Longrightarrow> set kws = set kvs"
  by (auto simp: sort_items_def split: if_splits)

lemma weight_member: "(k, v) \<in> set kvs \<Longrightarrow> weight v < Suc (sum_list (map (\<lambda>(k, v). weight v) kvs))"
  using member_le_sum_list [of "weight v" "map (\<lambda>(k, v). weight v) kvs"] by force

lemma weight_element: "v \<in> set xs \<Longrightarrow> weight v < Suc (sum_list (map weight xs))"
  using member_le_sum_list [of "weight v" "map weight xs"] by force

lemmas weight_default_cases =
  weight_default [of "VBytes bs" for bs, simplified]
  weight_default [of "VSet xs" for xs, simplified]
  weight_default [of "VObj isof flt proto avro attrs itr s r t" for isof flt proto avro attrs itr s r t, simplified]

function encode :: "default_fn \<Rightarrow> bool \<Rightarrow> pyval \<Rightarrow> py_exn + json" where
  "encode d sk VNone = Inr JNull"
| "encode d sk (VBool b) = Inr (JBool b)"
| "encode d sk (VInt i) = Inr (JInt i)"
| "encode d sk (VFloat r) = Inr (JFloat r)"
| "encode d sk (VStr s) = Inr (JStr s)"
| "encode d sk (VList xs) = ebind (emap (encode d sk) xs) (\<lambda>js. Inr (JArr js))"
| "encode d sk (VTuple xs) = ebind (emap (encode d sk) xs) (\<lambda>js. Inr (JArr js))"
| "encode d sk (VDict kvs) =
     ebind (if sk then sort_items kvs else Inr kvs) (\<lambda>kws.
     ebind (emap (\<lambda>(k, v). ebind (json_key k) (\<lambda>s. ebind (encode d sk v) (\<lambda>j. Inr (s, j)))) kws)
       (\<lambda>ms. Inr (JObj ms)))"
| "encode d sk (VBytes bs) = ebind (apply_default d (VBytes bs)) (encode d sk)"
| "encode d sk (VSet xs) = ebind (apply_default d (VSet xs)) (encode d sk)"
| "encode d sk (VObj isof flt proto avro attrs itr s r t) =
     ebind (apply_default d (VObj isof flt proto avro attrs itr s r t)) (encode d sk)"
  by pat_completeness auto
termination
  by (relation "measure (\<lambda>(d, sk, v). weight v)")
     (auto simp: weight_element intro: weight_default weight_member
       dest!: set_sort_items dest: weight_default_cases split: if_splits)

subsection \<open>Canonical text and fingerprints\<close>

definition canonicalize_json :: "bool \<Rightarrow> pyval \<Rightarrow> py_exn + string" where
  "canonicalize_json has_avro obj =
     ebind (encode (DefaultSerializer has_avro) True obj) (\<lambda>j. Inr (json_compact False j))"

definition fingerprint :: "bool \<Rightarrow> pyval \<Rightarrow> py_exn + string" where
  "fingerprint has_avro obj =
     ebind (canonicalize_json has_avro obj) (\<lambda>c. Inr (sha256_hexdigest (utf8_encode c)))"

text \<open>\<open>s[:n]\<close>, with Python's reading of a negative bound.\<close>

definition py_take :: "int \<Rightarrow> 'a list \<Rightarrow> 'a list" where
  "py_take n xs = (if 0 \<le> n then take (nat n) xs else take (length xs - nat (- n)) xs)"

definition fingerprint_short :: "bool \<Rightarrow> pyval \<Rightarrow> int \<Rightarrow> py_exn + string" where
  "fingerprint_short has_avro obj n = ebind (fingerprint has_avro obj) (\<lambda>h. Inr (py_take n h))"

definition sha256_collision :: "string \<Rightarrow> string \<Rightarrow> bool" where
  "sha256_collision s t \<longleftrightarrow>
     s \<noteq> t \<and> sha256_hexdigest (utf8_encode s) = sha256_hexdigest (utf8_encode t)"

text \<open>\<open>json.load\<close>: the document as Python data; of equal keys the last value wins.\<close>

fun py_of_json :: "json \<Rightarrow> pyval" where
  "py_of_json JNull = VNone"
| "py_of_json (JBool b) = VBool b"
| "py_of_json (JInt i) = VInt i"
| "py_of_json (JFloat r) = VFloat r"
| "py_of_json (JStr s) = VStr s"
| "py_of_json (JArr js) = VList (map py_of_json js)"
| "py_of_json (JObj kvs) = VDict (dict_of_items (map (\<lambda>(k, j). (KStr k, py_of_json j)) kvs))"

subsection \<open>Plain data\<close>

text \<open>\<open>plain_json\<close>: the document of plain data, in the dictionaries' own order.\<close>

fun plain_json :: "pyval \<Rightarrow> json" where
  "plain_json (VBool b) = JBool b"
| "plain_json (VInt i) = JInt i"
| "plain_json (VFloat r) = JFloat r"
| "plain_json (VStr s) = JStr s"
| "plain_json (VList xs) = JArr (map plain_json xs)"
| "plain_json (VDict kvs) = JObj (map (\<lambda>(k, v). (key_str k, plain_json v)) kvs)"
| "plain_json _ = JNull"

text \<open>Every dictionary's items in the order of their keys.\<close>

fun norm_dicts :: "pyval \<Rightarrow> pyval" where
  "norm_dicts (VList xs) = VList (map norm_dicts xs)"
| "norm_dicts (VDict kvs) =
     VDict (sort_key (\<lambda>(k, v). key_str k) (map (\<lambda>(k, v). (k, norm_dicts v)) kvs))"
| "norm_dicts v = v"

fun floats_ok :: "pyval \<Rightarrow> bool" where
  "floats_ok (VFloat r) \<longleftrightarrow> float_text r"
| "floats_ok (VList xs) \<longleftrightarrow> list_all floats_ok xs"
| "floats_ok (VDict kvs) \<longleftrightarrow> list_all (\<lambda>(k, v). floats_ok v) kvs"
| "floats_ok _ \<longleftrightarrow> True"

lemma sort_items_str:
  "list_all (\<lambda>(k, v). \<exists>s. k = KStr s) kvs \<Longrightarrow> sort_items kvs = Inr (sort_key (\<lambda>(k, v). key_str k) kvs)"
proof -
  assume "list_all (\<lambda>(k, v). \<exists>s. k = KStr s) kvs"
  then have "list_all (\<lambda>(k, v). is_str_key k) kvs" by (auto simp: list_all_iff)
  moreover have "sort_key (\<lambda>(k, v). key_str k) kvs = kvs" if "length kvs \<le> 1"
    using that by (cases kvs; cases "tl kvs") auto
  ultimately show ?thesis by (simp add: sort_items_def)
qed

lemma sort_key_map_values:
  "sort_key (\<lambda>(k, v). key_str k) (map (\<lambda>(k, v). (k, f v)) kvs) =
   map (\<lambda>(k, v). (k, f v)) (sort_key (\<lambda>(k, v). key_str k) kvs)"
proof -
  have "insort_key (\<lambda>(k, v). key_str k) (k, f v) (map (\<lambda>(k, v). (k, f v)) xs) =
      map (\<lambda>(k, v). (k, f v)) (insort_key (\<lambda>(k, v). key_str k) (k, v) xs)" for k v xs
    by (induction xs) auto
  then show ?thesis by (induction kvs) auto
qed

lemma norm_dicts_dict:
  "norm_dicts (VDict kvs) =
   VDict (map (\<lambda>(k, v). (k, norm_dicts v)) (sort_key (\<lambda>(k, v). key_str k) kvs))"
  by (simp only: norm_dicts.simps sort_key_map_values)

lemma plain_str_keys: "plain (VDict kvs) \<Longrightarrow> list_all (\<lambda>(k, v). \<exists>s. k = KStr s) kvs"
  by (auto simp: list_all_iff)

lemma encode_members:
  assumes "\<And>k v. (k, v) \<in> set kvs \<Longrightarrow> (\<exists>s. k = KStr s) \<and> encode d sk v = Inr (g v)"
  shows "emap (\<lambda>(k, v). ebind (json_key k) (\<lambda>s. ebind (encode d sk v) (\<lambda>j. Inr (s, j)))) kvs =
    Inr (map (\<lambda>(k, v). (key_str k, g v)) kvs)"
  by (rule emap_total) (use assms in fastforce)

lemma encode_plain: "plain v \<Longrightarrow> encode d False v = Inr (plain_json v)"
proof (induction v rule: plain_json.induct)
  case (5 xs)
  then show ?case by (simp add: emap_total list_all_iff)
next
  case (6 kvs)
  have "emap (\<lambda>(k, v). ebind (json_key k) (\<lambda>s. ebind (encode d False v) (\<lambda>j. Inr (s, j)))) kvs =
      Inr (map (\<lambda>(k, v). (key_str k, plain_json v)) kvs)"
    by (rule encode_members) (use 6 in \<open>fastforce simp: list_all_iff\<close>)
  then show ?case by simp
qed auto

lemma encode_plain_sorted: "plain v \<Longrightarrow> encode d True v = Inr (plain_json (norm_dicts v))"
proof (induction v rule: plain_json.induct)
  case (5 xs)
  then show ?case by (simp add: emap_total list_all_iff)
next
  case (6 kvs)
  let ?ord = "sort_key (\<lambda>(k, v). key_str k)"
  have "emap (\<lambda>(k, v). ebind (json_key k) (\<lambda>s. ebind (encode d True v) (\<lambda>j. Inr (s, j)))) (?ord kvs) =
      Inr (map (\<lambda>(k, v). (key_str k, plain_json (norm_dicts v))) (?ord kvs))"
    by (rule encode_members) (use 6 in \<open>fastforce simp: list_all_iff\<close>)
  then show ?case
    by (simp only: encode.simps if_True ebind_simps sort_items_str [OF plain_str_keys [OF "6.prems"]]
        norm_dicts_dict plain_json.simps) (simp add: comp_def case_prod_unfold)
qed auto

lemma py_of_plain_json: "plain v \<Longrightarrow> py_of_json (plain_json v) = v"
proof (induction v rule: plain_json.induct)
  case (5 xs)
  then show ?case by (auto simp: list_all_iff intro: map_idI)
next
  case (6 kvs)
  have "map ((\<lambda>(k, j). (KStr k, py_of_json j)) \<circ> (\<lambda>(k, v). (key_str k, plain_json v))) kvs = kvs"
    by (rule map_idI) (use 6 in \<open>fastforce simp: list_all_iff\<close>)
  with "6.prems" show ?case by simp
qed auto

lemma norm_dicts_plain: "plain v \<Longrightarrow> plain (norm_dicts v)"
proof (induction v rule: norm_dicts.induct)
  case (2 kvs)
  let ?ord = "sort_key (\<lambda>(k, v). key_str k)"
  have keys: "map fst (map (\<lambda>(k, v). (k, norm_dicts v)) (?ord kvs)) = map fst (?ord kvs)" by auto
  have "mset (map fst (?ord kvs)) = mset (map fst kvs)" by (simp only: mset_map mset_sort)
  moreover have "distinct (map fst kvs)" using "2.prems" by simp
  ultimately have "distinct (map fst (?ord kvs))" by (metis mset_eq_imp_distinct_iff)
  moreover have "list_all (\<lambda>(k, v). (\<exists>s. k = KStr s) \<and> plain v)
      (map (\<lambda>(k, v). (k, norm_dicts v)) (?ord kvs))"
    using 2 by (fastforce simp: list_all_iff)
  ultimately show ?case by (simp only: norm_dicts_dict plain.simps keys)
qed (auto simp: list_all_iff)

lemma floats_ok_norm: "floats_ok v \<Longrightarrow> floats_ok (norm_dicts v)"
  by (induction v rule: norm_dicts.induct) (auto simp: list_all_iff)

lemma wf_plain_json: "plain v \<Longrightarrow> floats_ok v \<Longrightarrow> wf_json (plain_json v)"
  by (induction v rule: plain_json.induct) (fastforce simp: list_all_iff)+

lemma canonicalize_plain:
  "plain v \<Longrightarrow> canonicalize_json has_avro v = Inr (json_compact False (plain_json (norm_dicts v)))"
  by (simp add: canonicalize_json_def encode_plain_sorted)

lemma canonicalize_norm:
  assumes "plain v" "plain w" "floats_ok v" "floats_ok w"
  shows "canonicalize_json has_avro v = canonicalize_json has_avro w \<longleftrightarrow> norm_dicts v = norm_dicts w"
  using assms
  by (auto simp: canonicalize_plain json_compact_inj wf_plain_json norm_dicts_plain floats_ok_norm
      dest!: arg_cong [where f = py_of_json] simp: py_of_plain_json)

subsection \<open>Equal up to the order of dictionary items\<close>

inductive same_data :: "pyval \<Rightarrow> pyval \<Rightarrow> bool" where
  same_refl: "same_data v v"
| same_list: "list_all2 same_data xs ys \<Longrightarrow> same_data (VList xs) (VList ys)"
| same_dict: "list_all2 (rel_prod (=) same_data) kvs kws \<Longrightarrow> mset kws = mset kws' \<Longrightarrow>
    same_data (VDict kvs) (VDict kws')"

lemma mset_map_reorder:
  "mset (map f xs) = mset (map g ys) \<Longrightarrow> \<exists>zs. mset zs = mset ys \<and> map f xs = map g zs"
proof (induction xs arbitrary: ys)
  case (Cons x xs)
  have "set (map f (x # xs)) = set (map g ys)" using Cons.prems by (rule mset_eq_setD)
  then have "f x \<in> g ` set ys" by (metis list.set_intros(1) list.set_map list.simps(9))
  then obtain y where "y \<in> set ys" and g: "g y = f x" by (auto simp: eq_commute)
  then obtain us vs where ys: "ys = us @ y # vs" by (auto dest: split_list)
  have "mset (map f xs) = mset (map g (us @ vs))" using Cons.prems g by (simp add: ys)
  then obtain zs where zs: "mset zs = mset (us @ vs)" "map f xs = map g zs"
    using Cons.IH by blast
  then have "mset (y # zs) = mset ys" "map f (x # xs) = map g (y # zs)" using g by (simp_all add: ys)
  then show ?case by blast
qed simp

lemma sort_key_eq_mset: "sort_key f xs = sort_key f ys \<Longrightarrow> mset xs = mset ys"
  by (metis mset_sort)

lemma norm_atoms:
  "VNone = norm_dicts w \<longleftrightarrow> w = VNone" "VBool b = norm_dicts w \<longleftrightarrow> w = VBool b"
  "VInt i = norm_dicts w \<longleftrightarrow> w = VInt i" "VFloat r = norm_dicts w \<longleftrightarrow> w = VFloat r"
  "VStr r = norm_dicts w \<longleftrightarrow> w = VStr r" "VBytes bs = norm_dicts w \<longleftrightarrow> w = VBytes bs"
  "VTuple xs = norm_dicts w \<longleftrightarrow> w = VTuple xs" "VSet xs = norm_dicts w \<longleftrightarrow> w = VSet xs"
  "VObj isof flt proto avro attrs itr r s t = norm_dicts w \<longleftrightarrow> w = VObj isof flt proto avro attrs itr r s t"
  by (cases w; auto)+

lemma same_data_of_norm: "norm_dicts v = norm_dicts w \<Longrightarrow> same_data v w"
proof (induction v arbitrary: w rule: norm_dicts.induct)
  case (1 xs)
  from "1.prems" obtain ys where w: "w = VList ys" by (cases w) auto
  have eq: "map norm_dicts xs = map norm_dicts ys" using "1.prems" w by simp
  have "list_all2 same_data xs ys"
  proof (rule list_all2_all_nthI)
    show len: "length xs = length ys" using eq by (rule map_eq_imp_length_eq)
    fix i assume i: "i < length xs"
    have "norm_dicts (xs ! i) = norm_dicts (ys ! i)" using eq i len by (metis nth_map)
    then show "same_data (xs ! i) (ys ! i)" using "1.IH" i by simp
  qed
  then show ?case using w by (simp add: same_list)
next
  case (2 kvs)
  from "2.prems" obtain kws where w: "w = VDict kws" by (cases w) auto
  let ?n = "\<lambda>(k :: pykey, v). (k, norm_dicts v)"
  have "sort_key (\<lambda>(k, v). key_str k) (map ?n kvs) = sort_key (\<lambda>(k, v). key_str k) (map ?n kws)"
    using "2.prems" w by (simp only: norm_dicts.simps pyval.inject)
  then have "mset (map ?n kvs) = mset (map ?n kws)" by (rule sort_key_eq_mset)
  then obtain zs where zs: "mset zs = mset kws" "map ?n kvs = map ?n zs"
    using mset_map_reorder by blast
  have "list_all2 (rel_prod (=) same_data) kvs zs"
  proof (rule list_all2_all_nthI)
    show len: "length kvs = length zs" using zs(2) by (rule map_eq_imp_length_eq)
    fix i assume i: "i < length kvs"
    obtain k v k' v' where kv: "kvs ! i = (k, v)" "zs ! i = (k', v')" by fastforce
    have "?n (kvs ! i) = ?n (zs ! i)" 
      using arg_cong [OF zs(2), of "\<lambda>l. l ! i"] i len by simp
    then have "k = k'" "norm_dicts v = norm_dicts v'" using kv by auto
    moreover have "(k, v) \<in> set kvs" using i kv by (metis nth_mem)
    ultimately show "rel_prod (=) same_data (kvs ! i) (zs ! i)" using "2.IH" kv by fastforce
  qed
  then show ?case using w zs(1) same_dict by blast
qed (simp_all add: norm_atoms same_refl)

lemma norm_of_same_data: "same_data v w \<Longrightarrow> plain w \<Longrightarrow> norm_dicts v = norm_dicts w"
proof (induction rule: same_data.induct)
  case (same_list xs ys)
  then show ?case
    by (auto simp: list_all2_conv_all_nth list_all_length intro!: nth_equalityI)
next
  case (same_dict kvs kws kws')
  let ?n = "\<lambda>(k :: pykey, v). (k, norm_dicts v)"
  let ?key = "\<lambda>(k, v :: pyval). key_str k"
  have set_eq: "set kws = set kws'" using same_dict.hyps by (rule mset_eq_setD)
  have plain: "list_all (\<lambda>(k, v). (\<exists>s. k = KStr s) \<and> plain v) kws"
    using same_dict.prems set_eq by (simp add: list_all_iff)
  have "map ?n kvs = map ?n kws"
  proof (rule nth_equalityI)
    show len: "length (map ?n kvs) = length (map ?n kws)"
      using same_dict.IH by (simp add: list_all2_lengthD)
    fix i assume i: "i < length (map ?n kvs)"
    obtain k v k' v' where kv: "kvs ! i = (k, v)" "kws ! i = (k', v')" by fastforce
    have "k = k' \<and> (plain v' \<longrightarrow> norm_dicts v = norm_dicts v')"
      using same_dict.IH i kv by (auto dest!: list_all2_nthD)
    moreover have "plain v'" using plain i len kv by (auto simp: list_all_length dest: spec [of _ i])
    ultimately show "map ?n kvs ! i = map ?n kws ! i" using i len kv by simp
  qed
  moreover have "sort_key ?key (map ?n kws) = sort_key ?key (map ?n kws')"
  proof (rule sort_key_inj_key_eq)
    show "mset (map ?n kws) = mset (sort_key ?key (map ?n kws'))"
      using same_dict.hyps by simp
    have dist: "distinct (map fst kws')" using same_dict.prems by simp
    show "inj_on ?key (set (map ?n kws))"
    proof (rule inj_onI)
      fix a b assume ab: "a \<in> set (map ?n kws)" "b \<in> set (map ?n kws)" "?key a = ?key b"
      then obtain k v k' v' where kv: "a = (k, norm_dicts v)" "(k, v) \<in> set kws"
        "b = (k', norm_dicts v')" "(k', v') \<in> set kws" by auto
      from kv(2,4) plain obtain s s' where "k = KStr s" "k' = KStr s'"
        by (fastforce simp: list_all_iff)
      with ab(3) kv have "k = k'" by simp
      with dist kv set_eq have "v = v'" by (metis eq_key_imp_eq_value)
      then show "a = b" using kv \<open>k = k'\<close> by simp
    qed
    show "sorted (map ?key (sort_key ?key (map ?n kws')))" by (rule sorted_sort_key)
  qed
  ultimately show ?case by (simp only: norm_dicts.simps)
qed simp

lemma canonical_same:
  assumes "plain v" "plain w" "floats_ok v" "floats_ok w"
  shows "canonicalize_json has_avro v = canonicalize_json has_avro w \<longleftrightarrow> same_data v w"
  using canonicalize_norm [OF assms] same_data_of_norm norm_of_same_data assms(2) by blast

lemma fingerprint_plain:
  "plain v \<Longrightarrow> fingerprint has_avro v =
     Inr (sha256_hexdigest (utf8_encode (json_compact False (plain_json (norm_dicts v)))))"
  by (simp add: fingerprint_def canonicalize_plain)

subsection \<open>Properties\<close>

text \<open>
  C17: canonical text forgets the insertion order of dictionaries and nothing else. Two pieces of
  plain data have the same canonical text exactly when they are equal up to the order of
  dictionary items, at any depth.
\<close>

theorem canonical_text_iff_same_data:
  assumes "plain v" "plain w" "floats_ok v" "floats_ok w"
  shows "canonicalize_json has_avro v = canonicalize_json has_avro w \<longleftrightarrow> same_data v w"
  using assms by (rule canonical_same)

theorem canonical_text_iff_same_data_witness:
  "canonicalize_json False
      (VDict [(KStr ''b'', VFloat ''1.5''), (KStr ''a'', VList [VNone, VStr ''x''])]) =
    canonicalize_json False
      (VDict [(KStr ''a'', VList [VNone, VStr ''x'']), (KStr ''b'', VFloat ''1.5'')])"
proof -
  let ?b = "(KStr ''b'', VFloat ''1.5'')" and ?a = "(KStr ''a'', VList [VNone, VStr ''x''])"
  have ok: "plain (VDict [?b, ?a])" "plain (VDict [?a, ?b])"
    "floats_ok (VDict [?b, ?a])" "floats_ok (VDict [?a, ?b])"
    by (simp_all add: float_text_def number_defs)
  have "same_data (VDict [?b, ?a]) (VDict [?a, ?b])"
    by (rule same_dict [where kws = "[?b, ?a]"]) (simp_all add: same_refl add_mset_commute)
  with canonical_text_iff_same_data [OF ok, of False] show ?thesis by blast
qed

text \<open>
  What \<open>json.dump(data, f, indent=2, default=str)\<close> writes, \<open>json.load\<close> reads back
  unchanged, for plain data: same keys in the same order, same values.
\<close>

theorem json_file_roundtrip:
  assumes "plain v" "floats_ok v"
  shows "\<exists>j. encode DefaultStr False v = Inr j \<and>
    map_option py_of_json (parse_json (json_indented 0 j)) = Some v"
  using encode_plain [OF assms(1)] parse_indented [OF wf_plain_json [OF assms]]
    py_of_plain_json [OF assms(1)] by auto

theorem json_file_roundtrip_witness:
  "\<exists>j. encode DefaultStr False (VDict [(KStr ''n'', VInt (-7)), (KStr ''q'', VStr [quote_char])]) = Inr j
    \<and> map_option py_of_json (parse_json (json_indented 0 j)) =
      Some (VDict [(KStr ''n'', VInt (-7)), (KStr ''q'', VStr [quote_char])])"
  by (rule json_file_roundtrip) simp_all

text \<open>
  C35: whatever value is serialised, the outcome is JSON data: dictionaries with distinct string keys,
  lists, strings, numbers and constants. Serialising it again changes nothing, the encoder takes it
  without its \<open>default\<close> hook, whichever that is, and the document stands for the same data.
\<close>

theorem serialised_values_are_json:
  "plain (make_serializable v) \<and> make_serializable (make_serializable v) = make_serializable v \<and>
   encode d False (make_serializable v) = Inr (plain_json (make_serializable v)) \<and>
   py_of_json (plain_json (make_serializable v)) = make_serializable v"
  by (simp add: make_serializable_plain_lemma make_serializable_idem encode_plain py_of_plain_json)



text \<open>
  Every fingerprint is 64 lowercase hexadecimal characters, whatever object it was taken of;
  a short fingerprint of non-negative length is that prefix of it.
\<close>

theorem fingerprint_shape:
  assumes "fingerprint has_avro v = Inr h"
  shows "length h = 64 \<and> list_all is_hex h \<and>
    fingerprint_short has_avro v (int n) = Inr (take n h)"
  using assms sha256_hexdigest_chars
  by (auto simp: fingerprint_def ebind_Inr list_all_iff fingerprint_short_def py_take_def)

theorem fingerprint_shape_witness:
  "\<exists>h. fingerprint False (VStr ''abc'') = Inr h \<and> length h = 64 \<and> list_all is_hex h \<and>
    fingerprint_short False (VStr ''abc'') (int 16) = Inr (take 16 h)"
proof -
  obtain h where h: "fingerprint False (VStr ''abc'') = Inr h" by (simp add: fingerprint_plain)
  then show ?thesis using fingerprint_shape [OF h, of 16] by blast
qed

end
