(* ===== verification/Trace.thy ===== *)
theory Trace
  imports Fixture_Store Canonical
begin

text \<open>
  The \<open>@sim_trace\<close> decorator (sim_sdk/trace.py): fixture keys, call fingerprints, the binding of
  arguments to a signature, and the wrapper in its three modes. The synchronous and the
  asynchronous wrapper have the same body; the model is their common sequence of steps, and theory
  Async_Trace adds what runs while a coroutine is suspended.

  A traced function is its qualified name, its signature and its body, a computation over the
  world. The sink is an argument \<open>emit\<close>: the computation \<open>ctx.sink.emit(event)\<close> runs.
\<close>

subsection \<open>Fixture keys and fingerprints\<close>

definition safe_qualname :: "string \<Rightarrow> string" where
  "safe_qualname q =
     remove_char (CHR ''>'') (remove_char (CHR ''<'') (replace_char (CHR ''.'') (CHR ''_'') q))"

definition fixture_key :: "string \<Rightarrow> string \<Rightarrow> int \<Rightarrow> string" where
  "fixture_key qualname input_fp ordinal =
     safe_qualname qualname @ ''/'' @ take 16 input_fp @ ''_'' @ dec_int ordinal @ ''.json''"

definition compute_fingerprint :: "bool \<Rightarrow> string \<Rightarrow> pyval \<Rightarrow> py_exn + string" where
  "compute_fingerprint has_avro qualname args_data =
     fingerprint has_avro (VDict [field ''qualname'' (VStr qualname), field ''args'' args_data])"

subsection \<open>\<open>str\<close> of a path and of an exception\<close>

fun path_str :: "path \<Rightarrow> string" where
  "path_str [] = ''.''"
| "path_str (p # ps) =
     (if p = ''/'' then ''/'' @ join_with ''/'' ps else join_with ''/'' (p # ps))"

definition stub_miss_message :: "string \<Rightarrow> string \<Rightarrow> int \<Rightarrow> path option \<Rightarrow> string" where
  "stub_miss_message q input_fp ordinal dir =
     ''No recorded fixture for '' @ q @ '' (fingerprint='' @ take 16 input_fp
       @ '', ordinal='' @ dec_int ordinal @ '')''
       @ (case dir of
            None \<Rightarrow> []
          | Some d \<Rightarrow> CHR 0x0A # ''  Expected at: ''
              @ path_str (path_join d (fixture_key q input_fp ordinal)))"

definition write_blocked_message :: "string \<Rightarrow> string \<Rightarrow> string" where
  "write_blocked_message sql name =
     ''Write statement blocked in replay mode ['' @ name @ '']: ''
       @ take 80 sql @ (if 80 < length sql then ''...'' else [])"

fun exn_str :: "py_exn \<Rightarrow> string" where
  "exn_str (SimStubMissError q f n d) = stub_miss_message q f n d"
| "exn_str (SimWriteBlockedError sql name) = write_blocked_message sql name"
| "exn_str (HTTPErr c m) = ''HTTP Error '' @ dec_nat c @ '': '' @ m"
| "exn_str (TypeErr m) = m"
| "exn_str (ValueErr m) = m"
| "exn_str (AttributeErr m) = m"
| "exn_str (FileNotFoundErr m) = m"
| "exn_str (AgentUnavailableError m) = m"
| "exn_str (UserExn c m) = m"
| "exn_str (BaseExn c m) = m"

subsection \<open>\<open>_bind_args\<close>\<close>

text \<open>
  \<open>inspect.signature(f).bind(*args, **kwargs)\<close> followed by \<open>apply_defaults()\<close>: a walk along the
  parameters, in order. A \<open>**kwargs\<close> parameter is the last one of a signature.
\<close>

datatype param_kind = PositionalOnly | PositionalOrKeyword | VarPositional | KeywordOnly | VarKeyword

record param =
  param_name :: string
  param_kind :: param_kind
  param_default :: "pyval option"

definition missing_argument :: "string \<Rightarrow> py_exn" where
  "missing_argument n = TypeErr (''missing a required argument: '' @ str_repr n)"

definition without_argument :: "param \<Rightarrow> py_exn + pyval" where
  "without_argument p =
     (case param_default p of None \<Rightarrow> Inl (missing_argument (param_name p)) | Some v \<Rightarrow> Inr v)"

fun bind_params ::
  "param list \<Rightarrow> pyval list \<Rightarrow> (string \<times> pyval) list \<Rightarrow> py_exn + (string \<times> pyval) list" where
  "bind_params [] (a # args) kwargs = Inl (TypeErr ''too many positional arguments'')"
| "bind_params [] [] ((k, v) # kwargs) =
     Inl (TypeErr (''got an unexpected keyword argument '' @ str_repr k))"
| "bind_params [] [] [] = Inr []"
| "bind_params (p # ps) args kwargs =
     (let n = param_name p; bound = (\<lambda>v args' kwargs'.
        ebind (bind_params ps args' kwargs') (\<lambda>rest. Inr ((n, v) # rest)))
      in case param_kind p of
        VarPositional \<Rightarrow> bound (VTuple args) [] kwargs
      | VarKeyword \<Rightarrow>
          (if args \<noteq> [] then Inl (TypeErr ''too many positional arguments'')
           else bound (VDict (map (\<lambda>(k, v). (KStr k, v)) kwargs)) [] [])
      | KeywordOnly \<Rightarrow>
          (if args \<noteq> [] then Inl (TypeErr ''too many positional arguments'')
           else case map_of kwargs n of
                  Some v \<Rightarrow> bound v [] (AList.delete n kwargs)
                | None \<Rightarrow> ebind (without_argument p) (\<lambda>v. bound v [] kwargs))
      | PositionalOnly \<Rightarrow>
          (case args of
             a # args' \<Rightarrow> bound a args' kwargs
           | [] \<Rightarrow>
               (if map_of kwargs n \<noteq> None then
                  Inl (TypeErr (str_repr n @ '' parameter is positional only, but was passed as a keyword''))
                else ebind (without_argument p) (\<lambda>v. bound v [] kwargs)))
      | PositionalOrKeyword \<Rightarrow>
          (case args of
             a # args' \<Rightarrow>
               (if map_of kwargs n \<noteq> None then
                  Inl (TypeErr (''multiple values for argument '' @ str_repr n))
                else bound a args' kwargs)
           | [] \<Rightarrow>
               (case map_of kwargs n of
                  Some v \<Rightarrow> bound v [] (AList.delete n kwargs)
                | None \<Rightarrow> ebind (without_argument p) (\<lambda>v. bound v [] kwargs))))"

record 'a traced =
  qualname :: string
  signature :: "param list"
  body :: "pyval list \<Rightarrow> (string \<times> pyval) list \<Rightarrow> ('a, pyval) prog"

definition bind_args ::
  "param list \<Rightarrow> pyval list \<Rightarrow> (string \<times> pyval) list \<Rightarrow> py_exn + pyval" where
  "bind_args sig args kwargs =
     ebind (bind_params sig args kwargs)
       (\<lambda>bound. Inr (VDict (map (\<lambda>(k, v). (KStr k, make_serializable v)) bound)))"

definition prepare_call ::
  "bool \<Rightarrow> param list \<Rightarrow> string \<Rightarrow> pyval list \<Rightarrow> (string \<times> pyval) list \<Rightarrow> nat \<Rightarrow>
    ('a, pyval \<times> string \<times> int) prog" where
  "prepare_call has_avro sig q args kwargs r w =
     (case bind_args sig args kwargs of
        Inl e \<Rightarrow> (Inl e, w)
      | Inr args_data \<Rightarrow>
          (case compute_fingerprint has_avro q args_data of
             Inl e \<Rightarrow> (Inl e, w)
           | Inr fp \<Rightarrow>
               (let (n, w1) = next_ordinal_at r fp w in (Inr (args_data, fp, n), w1))))"

subsection \<open>Replay\<close>

definition read_fixture :: "string \<Rightarrow> string \<Rightarrow> int \<Rightarrow> path \<Rightarrow> 'a world \<Rightarrow> pyval option" where
  "read_fixture q fp n dir w =
     map_option py_of_json (files w (path_join dir (fixture_key q fp n)))"

definition trace_stub :: "string \<Rightarrow> pyval \<Rightarrow> pyval \<Rightarrow> string \<Rightarrow> pyval" where
  "trace_stub q input output source = VDict
     [field ''qualname'' (VStr q), field ''input'' input, field ''output'' output,
      field ''source'' (VStr source)]"

definition replay :: "string \<Rightarrow> string \<Rightarrow> int \<Rightarrow> pyval \<Rightarrow> nat \<Rightarrow> ('a, pyval) prog" where
  "replay q fp n args_data r w =
     (case stub_dir (ctx_at w r) of
        None \<Rightarrow> (Inl (SimStubMissError q fp n None), w)
      | Some dir \<Rightarrow>
          (case read_fixture q fp n dir w of
             None \<Rightarrow> (Inl (SimStubMissError q fp n (Some dir)), w)
           | Some fixture_data \<Rightarrow>
               (let output = get_field ''output'' fixture_data in
                (Inr output,
                 if trace_depth (ctx_at w r) > 0
                 then push_stub r (trace_stub q args_data output ''replay'') w else w))))"

subsection \<open>Record\<close>

definition trace_event ::
  "string \<Rightarrow> string \<Rightarrow> string \<Rightarrow> string \<Rightarrow> pyval \<Rightarrow> string \<Rightarrow> pyval \<Rightarrow> string \<Rightarrow>
    pyval list \<Rightarrow> int \<Rightarrow> string option \<Rightarrow> int \<Rightarrow> fixture_event" where
  "trace_event fid q run date input input_fp output output_fp stubs us err n =
     (fixture_event_init fid q run date)
       \<lparr>ev_input := input, ev_input_fingerprint := input_fp, ev_output := output,
        ev_output_fingerprint := output_fp, ev_stubs := stubs,
        ev_duration_ms := hundredths_repr (round_hundredths us), ev_error := err,
        ev_ordinal := n, ev_event_type := ''Output''\<rparr>"

text \<open>\<open>ctx.sink.emit(event)\<close>, or the log message when there is no sink.\<close>

definition deliver ::
  "(nat \<Rightarrow> fixture_event \<Rightarrow> ('a, unit) prog) \<Rightarrow> nat \<Rightarrow> fixture_event \<Rightarrow> ('a, unit) prog" where
  "deliver emit r event w =
     (case sink (ctx_at w r) of
        Some s \<Rightarrow> emit s event w
      | None \<Rightarrow> (Inr (), add_log (DiscardedTrace (ev_fixture_id event)) w))"

definition emit_record ::
  "bool \<Rightarrow> (nat \<Rightarrow> fixture_event \<Rightarrow> ('a, unit) prog) \<Rightarrow> string \<Rightarrow> nat \<Rightarrow> pyval \<Rightarrow> string \<Rightarrow> int \<Rightarrow>
    pyval \<Rightarrow> string option \<Rightarrow> int \<Rightarrow> pyval list \<Rightarrow> ('a, unit) prog" where
  "emit_record has_avro emit q r args_data input_fp n output error_msg duration_us inner_stubs w =
     (let output_data = make_serializable output in
      case (if output = VNone then Inr [] else fingerprint has_avro output_data) of
        Inl e \<Rightarrow> (Inl e, w)
      | Inr output_fp \<Rightarrow>
          (let (fid, w1) = uuid8 w;
               (date, w2) = utc_now w1;
               event = trace_event fid q (run_id (ctx_at w r)) date args_data input_fp output_data
                         output_fp inner_stubs duration_us error_msg n;
               (res, w3) = deliver emit r event w2
           in case res of
                Inl e \<Rightarrow> (Inl e, w3)
              | Inr _ \<Rightarrow>
                  (Inr (),
                   if trace_depth (ctx_at w3 r) > 0
                   then push_stub r (trace_stub q args_data output_data ''record'') w3 else w3)))"

subsection \<open>The wrapper\<close>

definition enter_trace :: "nat \<Rightarrow> 'a world \<Rightarrow> 'a world" where
  "enter_trace r w = set_ctx r ((ctx_at w r)\<lparr>trace_depth := trace_depth (ctx_at w r) + 1\<rparr>) w"

text \<open>
  The \<open>finally\<close> block: leave the call and cut its stubs off the context, then emit. An
  exception of the emission replaces the result of the body.
\<close>

definition pop_trace :: "nat \<Rightarrow> nat \<Rightarrow> 'a world \<Rightarrow> pyval list \<times> 'a world" where
  "pop_trace r snapshot w =
     (let c = ctx_at w r in
      (drop snapshot (collected_stubs c),
       set_ctx r (c\<lparr>trace_depth := trace_depth c - 1,
                    collected_stubs := take snapshot (collected_stubs c)\<rparr>) w))"

definition error_text :: "py_exn \<Rightarrow> string option" where
  "error_text e = (if is_Exception e then Some (exn_class e @ '': '' @ exn_str e) else None)"

definition outcome :: "py_exn + pyval \<Rightarrow> pyval \<times> string option" where
  "outcome result = (case result of Inr v \<Rightarrow> (v, None) | Inl e \<Rightarrow> (VNone, error_text e))"

definition leave_trace ::
  "bool \<Rightarrow> (nat \<Rightarrow> fixture_event \<Rightarrow> ('a, unit) prog) \<Rightarrow> string \<Rightarrow> nat \<Rightarrow> pyval \<Rightarrow> string \<Rightarrow> int \<Rightarrow>
    nat \<Rightarrow> int \<Rightarrow> py_exn + pyval \<Rightarrow> ('a, pyval) prog" where
  "leave_trace has_avro emit q r args_data fp n snapshot start result w =
     (let (now, w1) = time_time w;
          (inner_stubs, w2) = pop_trace r snapshot w1;
          (output, error_msg) = outcome result;
          (res, w3) = emit_record has_avro emit q r args_data fp n output error_msg (now - start)
                        inner_stubs w2
      in (case res of Inl e \<Rightarrow> Inl e | Inr _ \<Rightarrow> result, w3))"

definition record_call ::
  "bool \<Rightarrow> (nat \<Rightarrow> fixture_event \<Rightarrow> ('a, unit) prog) \<Rightarrow> string \<Rightarrow> nat \<Rightarrow> pyval \<Rightarrow> string \<Rightarrow> int \<Rightarrow>
    ('a, pyval) prog \<Rightarrow> ('a, pyval) prog" where
  "record_call has_avro emit q r args_data fp n run w =
     (let w1 = enter_trace r w;
          snapshot = length (collected_stubs (ctx_at w1 r));
          (start, w2) = time_time w1;
          (result, w3) = run w2
      in leave_trace has_avro emit q r args_data fp n snapshot start result w3)"

definition traced_name :: "string option \<Rightarrow> 'a traced \<Rightarrow> string" where
  "traced_name name f =
     (case name of None \<Rightarrow> qualname f | Some s \<Rightarrow> if s = [] then qualname f else s)"

definition sim_trace ::
  "bool \<Rightarrow> (nat \<Rightarrow> fixture_event \<Rightarrow> ('a, unit) prog) \<Rightarrow> string option \<Rightarrow> 'a traced \<Rightarrow>
    pyval list \<Rightarrow> (string \<times> pyval) list \<Rightarrow> ('a, pyval) prog" where
  "sim_trace has_avro emit name f args kwargs w =
     (let q = traced_name name f;
          (r, w0) = get_context w
      in if \<not> is_active (ctx_at w0 r) then body f args kwargs w0
         else
           (case prepare_call has_avro (signature f) q args kwargs r w0 of
              (Inl e, w1) \<Rightarrow> (Inl e, w1)
            | (Inr (args_data, fp, n), w1) \<Rightarrow>
                if is_replaying (ctx_at w1 r) then replay q fp n args_data r w1
                else record_call has_avro emit q r args_data fp n (body f args kwargs) w1))"

subsection \<open>Binding and fingerprinting\<close>

lemma compute_fingerprint_total:
  "plain args_data \<Longrightarrow> \<exists>fp. compute_fingerprint has_avro q args_data = Inr fp \<and>
     length fp = 64 \<and> list_all is_hex fp"
  using sha256_hexdigest_chars
  by (auto simp: compute_fingerprint_def fingerprint_plain list_all_iff)

lemma bind_params_Cons:
  assumes "bind_params (p # ps) args kwargs = Inr bound"
  shows "\<exists>v rest args' kwargs'. bound = (param_name p, v) # rest \<and> bind_params ps args' kwargs' = Inr rest"
proof (cases "param_kind p")
  case PositionalOnly
  with assms show ?thesis
    by (auto simp: Let_def ebind_Inr split: list.splits if_splits)
next
  case PositionalOrKeyword
  with assms show ?thesis
    by (cases args; cases "map_of kwargs (param_name p)") (auto simp: Let_def ebind_Inr)
next
  case KeywordOnly
  with assms show ?thesis
    by (cases args; cases "map_of kwargs (param_name p)") (auto simp: Let_def ebind_Inr)
next
  case VarPositional
  with assms show ?thesis by (auto simp: Let_def ebind_Inr)
next
  case VarKeyword
  with assms show ?thesis by (auto simp: Let_def ebind_Inr split: if_splits)
qed

lemma bind_params_keys:
  "bind_params ps args kwargs = Inr bound \<Longrightarrow> map fst bound = map param_name ps"
proof (induction ps arbitrary: args kwargs bound)
  case Nil
  then show ?case by (cases args; cases kwargs) auto
next
  case (Cons p ps)
  then show ?case by (auto dest!: bind_params_Cons simp del: bind_params.simps)
qed

lemma bind_args_plain:
  assumes "bind_args sig args kwargs = Inr a" "distinct (map param_name sig)"
  shows "plain a"
proof -
  obtain bound where b: "bind_params sig args kwargs = Inr bound"
    "a = VDict (map (\<lambda>(k, v). (KStr k, make_serializable v)) bound)"
    using assms by (auto simp: bind_args_def ebind_Inr)
  have "map fst (map (\<lambda>(k, v). (KStr k, make_serializable v)) bound) = map KStr (map fst bound)"
    by (induction bound) auto
  moreover have "distinct (map KStr (map fst bound))"
    unfolding bind_params_keys [OF b(1)] using assms(2) by (simp add: distinct_map inj_on_def)
  moreover have "list_all (\<lambda>(k, v). (\<exists>s. k = KStr s) \<and> plain v)
      (map (\<lambda>(k, v). (KStr k, make_serializable v)) bound)"
    by (induction bound) (auto simp: make_serializable_plain_lemma)
  ultimately show ?thesis by (simp only: b(2) plain.simps)
qed

lemma prepare_call_cases:
  assumes "distinct (map param_name sig)"
  obtains (unbound) e where "bind_args sig args kwargs = Inl e"
      "prepare_call has_avro sig q args kwargs r w = (Inl e, w)"
  | (bound) a fp where "bind_args sig args kwargs = Inr a" "plain a"
      "compute_fingerprint has_avro q a = Inr fp" "length fp = 64" "list_all is_hex fp"
      "prepare_call has_avro sig q args kwargs r w =
        (Inr (a, fp, count_of (ordinal_counters (ctx_at w r)) fp), snd (next_ordinal_at r fp w))"
proof (cases "bind_args sig args kwargs")
  case (Inl e)
  then show ?thesis by (intro unbound) (simp_all add: prepare_call_def)
next
  case (Inr a)
  then have "plain a" using assms by (rule bind_args_plain)
  moreover then obtain fp where "compute_fingerprint has_avro q a = Inr fp"
    "length fp = 64" "list_all is_hex fp"
    using compute_fingerprint_total by blast
  ultimately show ?thesis
    using Inr by (intro bound) (simp_all add: prepare_call_def next_ordinal_at_def next_ordinal_count)
qed

text \<open>The context after an ordinal was taken.\<close>

lemma next_ordinal_at_frame [simp]:
  "valid_ref w r \<Longrightarrow> ctx_at (snd (next_ordinal_at r fp w)) r =
    (ctx_at w r)\<lparr>ordinal_counters :=
      AList.update fp (count_of (ordinal_counters (ctx_at w r)) fp + 1) (ordinal_counters (ctx_at w r))\<rparr>"
  "valid_ref (snd (next_ordinal_at r fp w)) s = valid_ref w s"
  "current (snd (next_ordinal_at r fp w)) = current w"
  "files (snd (next_ordinal_at r fp w)) = files w"
  "app (snd (next_ordinal_at r fp w)) = app w"
  "log_entries (snd (next_ordinal_at r fp w)) = log_entries w"
  "ticks (snd (next_ordinal_at r fp w)) = ticks w"
  by (simp_all add: next_ordinal_at_def next_ordinal_count)

subsection \<open>The wrapper, mode by mode\<close>

lemma sim_trace_off:
  assumes "get_context w = (r, w0)" "\<not> is_active (ctx_at w0 r)"
  shows "sim_trace has_avro emit name f args kwargs w = body f args kwargs w0"
  using assms by (simp add: sim_trace_def)

lemma sim_trace_replaying:
  assumes "current w = Some r" "is_replaying (ctx_at w r)" "valid_ref w r"
  shows "sim_trace has_avro emit name f args kwargs w =
    (case prepare_call has_avro (signature f) (traced_name name f) args kwargs r w of
       (Inl e, w1) \<Rightarrow> (Inl e, w1)
     | (Inr (args_data, fp, n), w1) \<Rightarrow> replay (traced_name name f) fp n args_data r w1)"
  using assms
  by (auto simp: sim_trace_def Let_def mode_simps prepare_call_def next_ordinal_at_def
      next_ordinal_count split: sum.splits)

lemma sim_trace_recording:
  assumes "current w = Some r" "is_recording (ctx_at w r)" "valid_ref w r"
  shows "sim_trace has_avro emit name f args kwargs w =
    (case prepare_call has_avro (signature f) (traced_name name f) args kwargs r w of
       (Inl e, w1) \<Rightarrow> (Inl e, w1)
     | (Inr (args_data, fp, n), w1) \<Rightarrow>
         record_call has_avro emit (traced_name name f) r args_data fp n (body f args kwargs) w1)"
  using assms
  by (auto simp: sim_trace_def Let_def mode_simps prepare_call_def next_ordinal_at_def
      next_ordinal_count split: sum.splits)

text \<open>
  A computation is framed for a context when it leaves the context current, its configuration
  and its depth as they were, and only appends stubs.
\<close>

definition frame_ok :: "nat \<Rightarrow> 'a world \<Rightarrow> 'a world \<Rightarrow> bool" where
  "frame_ok r w w' \<longleftrightarrow>
     valid_ref w' r \<and> current w' = current w \<and> mode (ctx_at w' r) = mode (ctx_at w r) \<and>
     stub_dir (ctx_at w' r) = stub_dir (ctx_at w r) \<and> sink (ctx_at w' r) = sink (ctx_at w r) \<and>
     trace_depth (ctx_at w' r) = trace_depth (ctx_at w r) \<and>
     prefix (collected_stubs (ctx_at w r)) (collected_stubs (ctx_at w' r))"

definition framed :: "nat \<Rightarrow> ('a, 'r) prog \<Rightarrow> bool" where
  "framed r m \<longleftrightarrow> (\<forall>w. valid_ref w r \<and> current w = Some r \<longrightarrow> frame_ok r w (snd (m w)))"

text \<open>A computation that leaves contexts and the context variable alone, as a sink does.\<close>

definition keeps_contexts :: "('a, 'r) prog \<Rightarrow> bool" where
  "keeps_contexts m \<longleftrightarrow> (\<forall>w. contexts (snd (m w)) = contexts w \<and> current (snd (m w)) = current w)"

lemma frame_ok_refl: "valid_ref w r \<Longrightarrow> frame_ok r w w"
  by (simp add: frame_ok_def)

lemma frame_ok_trans: "frame_ok r w w' \<Longrightarrow> frame_ok r w' w'' \<Longrightarrow> frame_ok r w w''"
  by (auto simp: frame_ok_def)

lemma same_contexts:
  "contexts w' = contexts w \<Longrightarrow> ctx_at w' r = ctx_at w r \<and> valid_ref w' r = valid_ref w r"
  by (simp add: ctx_at_def valid_ref_def)

lemma push_stub_simps [simp]:
  "valid_ref w r \<Longrightarrow> ctx_at (push_stub r s w) r =
    (ctx_at w r)\<lparr>collected_stubs := collected_stubs (ctx_at w r) @ [s]\<rparr>"
  "valid_ref (push_stub r s w) t = valid_ref w t"
  "current (push_stub r s w) = current w"
  "files (push_stub r s w) = files w"
  "app (push_stub r s w) = app w"
  "log_entries (push_stub r s w) = log_entries w"
  "ticks (push_stub r s w) = ticks w"
  by (simp_all add: push_stub_def)

lemma keeps_contextsD:
  assumes "keeps_contexts m" "m w = (x, w')"
  shows "contexts w' = contexts w" "current w' = current w"
proof -
  have "contexts (snd (m w)) = contexts w \<and> current (snd (m w)) = current w"
    using assms(1) by (simp add: keeps_contexts_def)
  then show "contexts w' = contexts w" "current w' = current w" by (simp_all add: assms(2))
qed

lemma deliver_keeps:
  assumes "\<And>s e. keeps_contexts (emit s e)"
  shows "keeps_contexts (deliver emit r ev)"
  using assms by (auto simp: keeps_contexts_def deliver_def split: option.split)

lemma make_serializable_fingerprint:
  "\<exists>fp. (if v = VNone then Inr [] else fingerprint has_avro (make_serializable v)) = Inr fp"
  by (simp add: fingerprint_plain [OF make_serializable_plain_lemma])

text \<open>One recorded event is delivered, whatever the output is.\<close>

lemma emit_record_steps:
  "\<exists>fid date ofp.
    emit_record has_avro emit q r args_data fp n output err us inner w =
    (case deliver emit r (trace_event fid q (run_id (ctx_at w r)) date args_data fp
            (make_serializable output) ofp inner us err n) (w\<lparr>ticks := ticks w + 2\<rparr>) of
       (Inl e, w3) \<Rightarrow> (Inl e, w3)
     | (Inr _, w3) \<Rightarrow> (Inr (), if trace_depth (ctx_at w3 r) > 0
          then push_stub r (trace_stub q args_data (make_serializable output) ''record'') w3 else w3))"
proof -
  obtain ofp where ofp: "(if output = VNone then Inr [] else
      fingerprint has_avro (make_serializable output)) = Inr ofp"
    using make_serializable_fingerprint by blast
  show ?thesis
    by (rule exI [of _ "take 8 (uuid_at w (ticks w))"], rule exI [of _ "date_at w (Suc (ticks w))"],
        rule exI [of _ ofp])
      (simp only: emit_record_def ofp Let_def readings case_prod_conv sum.case, simp add: case_prod_unfold)
qed

lemma emit_record_context:
  assumes "valid_ref w r" "\<And>s e. keeps_contexts (emit s e)"
    and "emit_record has_avro emit q r args_data fp n output err us inner w = (res, w')"
  shows "valid_ref w' r \<and> current w' = current w \<and>
    ctx_at w' r = (ctx_at w r)\<lparr>collected_stubs := collected_stubs (ctx_at w r) @
      (if res = Inr () \<and> trace_depth (ctx_at w r) > 0
       then [trace_stub q args_data (make_serializable output) ''record''] else [])\<rparr>"
proof -
  obtain fid date ofp where e:
    "emit_record has_avro emit q r args_data fp n output err us inner w =
    (case deliver emit r (trace_event fid q (run_id (ctx_at w r)) date args_data fp
            (make_serializable output) ofp inner us err n) (w\<lparr>ticks := ticks w + 2\<rparr>) of
       (Inl e, w3) \<Rightarrow> (Inl e, w3)
     | (Inr _, w3) \<Rightarrow> (Inr (), if trace_depth (ctx_at w3 r) > 0
          then push_stub r (trace_stub q args_data (make_serializable output) ''record'') w3 else w3))"
    using emit_record_steps by blast
  obtain res3 w3 where m: "deliver emit r (trace_event fid q (run_id (ctx_at w r)) date args_data fp
      (make_serializable output) ofp inner us err n) (w\<lparr>ticks := ticks w + 2\<rparr>) = (res3, w3)"
    by fastforce
  have "contexts w3 = contexts w" "current w3 = current w"
    using keeps_contextsD [OF deliver_keeps [OF assms(2)] m] by simp_all
  then show ?thesis
    using same_contexts [of w3 w r] assms(1,3) m e by (cases res3; cases "trace_depth (ctx_at w r) > 0") auto
qed


lemma enter_trace_simps [simp]:
  "valid_ref w r \<Longrightarrow> ctx_at (enter_trace r w) r = (ctx_at w r)\<lparr>trace_depth := trace_depth (ctx_at w r) + 1\<rparr>"
  "valid_ref (enter_trace r w) s = valid_ref w s"
  "current (enter_trace r w) = current w"
  "files (enter_trace r w) = files w"
  "app (enter_trace r w) = app w"
  "ticks (enter_trace r w) = ticks w"
  by (simp_all add: enter_trace_def)

lemma take_of_prefix: "prefix xs ys \<Longrightarrow> take (length xs) ys = xs"
  by (auto simp: prefix_def)

lemma framedD:
  assumes "framed r m" "valid_ref w r" "current w = Some r" "m w = (x, w')"
  shows "frame_ok r w w'"
proof -
  have "frame_ok r w (snd (m w))" using assms(1-3) by (simp add: framed_def)
  then show ?thesis by (simp add: assms(4))
qed

text \<open>
  The shape of a recorded call: the body runs one level deeper, its stubs are cut off, and the
  event is emitted from the context as it was.
\<close>

lemma record_call_steps_at:
  assumes "valid_ref w r"
    and "frame_ok r ((enter_trace r w)\<lparr>ticks := Suc (ticks w)\<rparr>) (snd (run ((enter_trace r w)\<lparr>ticks := Suc (ticks w)\<rparr>)))"
    and "record_call has_avro emit q r args_data fp n run w = (res, w')"
  obtains result w3 start stop inner w5 res6 where
    "run ((enter_trace r w)\<lparr>ticks := Suc (ticks w)\<rparr>) = (result, w3)"
    "frame_ok r ((enter_trace r w)\<lparr>ticks := Suc (ticks w)\<rparr>) w3"
    "collected_stubs (ctx_at w3 r) = collected_stubs (ctx_at w r) @ inner"
    "w5 = set_ctx r ((ctx_at w3 r)\<lparr>trace_depth := trace_depth (ctx_at w r),
        collected_stubs := collected_stubs (ctx_at w r)\<rparr>) (w3\<lparr>ticks := Suc (ticks w3)\<rparr>)"
    "emit_record has_avro emit q r args_data fp n (fst (outcome result)) (snd (outcome result))
      (stop - start) inner w5 = (res6, w')"
    "res = (case res6 of Inl e \<Rightarrow> Inl e | Inr _ \<Rightarrow> result)"
proof -
  let ?w2 = "(enter_trace r w)\<lparr>ticks := Suc (ticks w)\<rparr>"
  obtain result w3 where run: "run ?w2 = (result, w3)" by fastforce
  have ok: "frame_ok r ?w2 w3"
    using assms(2) by (simp add: run)
  then obtain inner where inner: "collected_stubs (ctx_at w3 r) = collected_stubs (ctx_at w r) @ inner"
    using assms(1) by (auto simp: frame_ok_def prefix_def)
  let ?w5 = "set_ctx r ((ctx_at w3 r)\<lparr>trace_depth := trace_depth (ctx_at w r),
        collected_stubs := collected_stubs (ctx_at w r)\<rparr>) (w3\<lparr>ticks := Suc (ticks w3)\<rparr>)"
  have pop: "pop_trace r (length (collected_stubs (ctx_at w r))) (w3\<lparr>ticks := Suc (ticks w3)\<rparr>) = (inner, ?w5)"
    using ok assms(1) by (simp add: pop_trace_def inner frame_ok_def)
  obtain res6 w6 where em: "emit_record has_avro emit q r args_data fp n (fst (outcome result))
      (snd (outcome result)) (time_at w3 (ticks w3) - time_at (enter_trace r w) (ticks w)) inner ?w5 = (res6, w6)"
    by fastforce
  have "record_call has_avro emit q r args_data fp n run w =
    leave_trace has_avro emit q r args_data fp n (length (collected_stubs (ctx_at w r)))
      (time_at (enter_trace r w) (ticks w)) result w3"
    using assms(1) by (simp add: record_call_def run)
  also have "\<dots> = (case res6 of Inl e \<Rightarrow> Inl e | Inr _ \<Rightarrow> result, w6)"
    by (simp add: leave_trace_def pop em case_prod_unfold)
  finally have "w' = w6" "res = (case res6 of Inl e \<Rightarrow> Inl e | Inr _ \<Rightarrow> result)"
    using assms(3) by simp_all
  with run ok inner em that show ?thesis by blast
qed

lemma record_call_steps:
  assumes "valid_ref w r" "current w = Some r" "framed r run"
    and "record_call has_avro emit q r args_data fp n run w = (res, w')"
  obtains result w3 start stop inner w5 res6 where
    "run ((enter_trace r w)\<lparr>ticks := Suc (ticks w)\<rparr>) = (result, w3)"
    "frame_ok r ((enter_trace r w)\<lparr>ticks := Suc (ticks w)\<rparr>) w3"
    "collected_stubs (ctx_at w3 r) = collected_stubs (ctx_at w r) @ inner"
    "w5 = set_ctx r ((ctx_at w3 r)\<lparr>trace_depth := trace_depth (ctx_at w r),
        collected_stubs := collected_stubs (ctx_at w r)\<rparr>) (w3\<lparr>ticks := Suc (ticks w3)\<rparr>)"
    "emit_record has_avro emit q r args_data fp n (fst (outcome result)) (snd (outcome result))
      (stop - start) inner w5 = (res6, w')"
    "res = (case res6 of Inl e \<Rightarrow> Inl e | Inr _ \<Rightarrow> result)"
proof -
  let ?w2 = "(enter_trace r w)\<lparr>ticks := Suc (ticks w)\<rparr>"
  have "frame_ok r ?w2 (snd (run ?w2))"
    using framedD [OF assms(3), of ?w2 "fst (run ?w2)" "snd (run ?w2)"] assms(1,2) by simp
  from record_call_steps_at [OF assms(1) this assms(4)] that show ?thesis by metis
qed

text \<open>The context after a recorded call: the body's stubs are gone, its own is added.\<close>

lemma record_call_context:
  assumes "valid_ref w r" "current w = Some r" "framed r run" "\<And>s e. keeps_contexts (emit s e)"
    and "record_call has_avro emit q r args_data fp n run w = (res, w')"
  obtains out where "frame_ok r w w'"
    "collected_stubs (ctx_at w' r) = collected_stubs (ctx_at w r) \<or>
      trace_depth (ctx_at w r) > 0 \<and> collected_stubs (ctx_at w' r) =
        collected_stubs (ctx_at w r) @ [trace_stub q args_data out ''record'']"
    "\<And>v. res = Inr v \<Longrightarrow> collected_stubs (ctx_at w' r) = collected_stubs (ctx_at w r) @
      (if trace_depth (ctx_at w r) > 0 then [trace_stub q args_data (make_serializable v) ''record''] else [])"
proof -
  obtain result w3 start stop inner w5 res6 where
    ok: "frame_ok r ((enter_trace r w)\<lparr>ticks := Suc (ticks w)\<rparr>) w3"
    and w5: "w5 = set_ctx r ((ctx_at w3 r)\<lparr>trace_depth := trace_depth (ctx_at w r),
        collected_stubs := collected_stubs (ctx_at w r)\<rparr>) (w3\<lparr>ticks := Suc (ticks w3)\<rparr>)"
    and em: "emit_record has_avro emit q r args_data fp n (fst (outcome result)) (snd (outcome result))
      (stop - start) inner w5 = (res6, w')"
    and res: "res = (case res6 of Inl e \<Rightarrow> Inl e | Inr _ \<Rightarrow> result)"
    using record_call_steps [OF assms(1-3,5)] by metis
  let ?out = "make_serializable (fst (outcome result))"
  have v5: "valid_ref w5 r" "valid_ref w3 r" using ok by (simp_all add: frame_ok_def w5)
  note after = emit_record_context [OF v5(1) assms(4) em]
  have c5: "ctx_at w5 r = (ctx_at w3 r)\<lparr>trace_depth := trace_depth (ctx_at w r),
      collected_stubs := collected_stubs (ctx_at w r)\<rparr>"
    using v5(2) by (simp add: w5)
  have cur: "current w5 = current w" using ok by (simp add: w5 frame_ok_def)
  show ?thesis
  proof (rule that [of ?out])
    show "frame_ok r w w'"
      using ok after c5 cur assms(1) by (auto simp: frame_ok_def)
    show "collected_stubs (ctx_at w' r) = collected_stubs (ctx_at w r) \<or>
      trace_depth (ctx_at w r) > 0 \<and> collected_stubs (ctx_at w' r) =
        collected_stubs (ctx_at w r) @ [trace_stub q args_data ?out ''record'']"
      using after c5 by auto
  next
    fix v assume "res = Inr v"
    then have "result = Inr v" "res6 = Inr ()" using res by (auto split: sum.splits)
    then show "collected_stubs (ctx_at w' r) = collected_stubs (ctx_at w r) @
      (if trace_depth (ctx_at w r) > 0 then [trace_stub q args_data (make_serializable v) ''record''] else [])"
      using after c5 by (auto simp: outcome_def)
  qed
qed

lemma replay_context:
  assumes "valid_ref w r" "replay q fp n args_data r w = (res, w')"
  shows "frame_ok r w w' \<and> files w' = files w \<and> app w' = app w \<and> log_entries w' = log_entries w"
  using assms by (auto simp: replay_def frame_ok_def Let_def split: option.splits if_splits)

lemma frame_ok_next_ordinal:
  "valid_ref w r \<Longrightarrow> frame_ok r w (snd (next_ordinal_at r fp w))"
  by (simp add: frame_ok_def)

lemma sim_trace_frame:
  assumes "framed r (body f args kwargs)" "\<And>s e. keeps_contexts (emit s e)"
    and "distinct (map param_name (signature f))"
  shows "framed r (sim_trace has_avro emit name f args kwargs)"
  unfolding framed_def
proof (intro allI impI)
  fix w :: "'a world" assume w: "valid_ref w r \<and> current w = Some r"
  let ?q = "traced_name name f"
  consider (off) "\<not> is_active (ctx_at w r)" | (replaying) "is_replaying (ctx_at w r)"
    | (recording) "is_recording (ctx_at w r)"
    by (cases "mode (ctx_at w r)") (auto simp: mode_simps)
  then show "frame_ok r w (snd (sim_trace has_avro emit name f args kwargs w))"
  proof cases
    case off
    then show ?thesis
      using w assms(1) by (subst sim_trace_off [of _ r w]) (auto simp: framed_def)
  next
    case replaying
    show ?thesis
    proof (rule prepare_call_cases [OF assms(3), of args kwargs has_avro ?q r w], goal_cases unbound bound)
      case (unbound e)
      then show ?thesis using replaying w by (simp add: sim_trace_replaying frame_ok_refl)
    next
      case (bound a fp)
      let ?w1 = "snd (next_ordinal_at r fp w)" and ?n = "count_of (ordinal_counters (ctx_at w r)) fp"
      obtain res w' where rep: "replay ?q fp ?n a r ?w1 = (res, w')" by fastforce
      then have "frame_ok r ?w1 w'" using replay_context [of ?w1 r] w by simp
      then have "frame_ok r w w'" using frame_ok_trans [OF frame_ok_next_ordinal] w by blast
      then show ?thesis using replaying w bound rep by (simp add: sim_trace_replaying)
    qed
  next
    case recording
    show ?thesis
    proof (rule prepare_call_cases [OF assms(3), of args kwargs has_avro ?q r w], goal_cases unbound bound)
      case (unbound e)
      then show ?thesis using recording w by (simp add: sim_trace_recording frame_ok_refl)
    next
      case (bound a fp)
      let ?w1 = "snd (next_ordinal_at r fp w)" and ?n = "count_of (ordinal_counters (ctx_at w r)) fp"
      obtain res w' where rec: "record_call has_avro emit ?q r a fp ?n (body f args kwargs) ?w1 = (res, w')"
        by fastforce
      have "frame_ok r ?w1 w'"
        by (rule record_call_context [OF _ _ assms(1,2) rec]) (use w in simp_all)
      then have "frame_ok r w w'" using frame_ok_trans [OF frame_ok_next_ordinal] w by blast
      then show ?thesis using recording w bound rec by (simp add: sim_trace_recording)
    qed
  qed
qed

end
