(* ===== verification/Trace_Session.thy ===== *)
theory Trace_Session
  imports Trace
begin

text \<open>
  Whole sessions of traced calls: what a recorded session returns when it is replayed from the
  fixture files it left.

  The sink of the session is the one the repository tests with, \<open>StubDirSink\<close>
  (tests/test_trace.py): it writes each event to its fixture file as soon as it is emitted. The
  application between the calls is arbitrary as long as it leaves the simulation state alone.
\<close>

subsection \<open>The persisting sink\<close>

definition persist_event :: "path \<Rightarrow> fixture_event \<Rightarrow> ('a, unit) prog" where
  "persist_event dir e w =
     (case encode DefaultStr False (to_dict e) of
        Inl err \<Rightarrow> (Inl err, w)
      | Inr doc \<Rightarrow>
          (Inr (), w\<lparr>files := (files w)(path_join dir
             (fixture_key (ev_qualname e) (ev_input_fingerprint e) (ev_ordinal e)) \<mapsto> doc)\<rparr>))"

lemma persist_keeps: "keeps_contexts (persist_event dir e)"
  by (simp add: keeps_contexts_def persist_event_def split: sum.split)

lemma persist_plain:
  "plain (to_dict e) \<Longrightarrow> persist_event dir e w =
    (Inr (), w\<lparr>files := (files w)(path_join dir
      (fixture_key (ev_qualname e) (ev_input_fingerprint e) (ev_ordinal e)) \<mapsto> plain_json (to_dict e))\<rparr>)"
  by (simp add: persist_event_def encode_plain)

subsection \<open>Fixture paths\<close>

definition trace_path :: "path \<Rightarrow> string \<times> string \<Rightarrow> int \<Rightarrow> path" where
  "trace_path dir op n = path_join dir (fixture_key (fst op) (snd op) n)"

lemma last_path_join:
  assumes "CHR ''/'' \<notin> set t" "t \<noteq> []" "t \<noteq> ''.''"
  shows "last (path_join dir (s @ CHR ''/'' # t)) = t"
  using last_parse_path [OF assms, of s] by (simp add: path_join_def)

lemma file_part:
  assumes "CHR ''/'' \<notin> set p"
  shows "CHR ''/'' \<notin> set (p @ ''_'' @ dec_int n @ ''.json'')"
    "p @ ''_'' @ dec_int n @ ''.json'' \<noteq> []" "p @ ''_'' @ dec_int n @ ''.json'' \<noteq> ''.''"
  using assms by (auto simp: append_eq_Cons_conv)

lemma file_part_inj:
  assumes "p @ ''_'' @ dec_int m @ ''.json'' = q @ ''_'' @ dec_int n @ ''.json''"
  shows "p = q \<and> m = n"
proof -
  have "p @ CHR ''_'' # dec_int m = q @ CHR ''_'' # dec_int n"
    using assms by simp
  then have "p = q \<and> dec_int m = dec_int n"
    by (rule append_sep_inj) simp_all
  then show ?thesis by (simp add: key_inj)
qed

lemma last_trace_path:
  assumes "CHR ''/'' \<notin> set (snd op)"
  shows "last (trace_path dir op n) = take 16 (snd op) @ ''_'' @ dec_int n @ ''.json''"
proof -
  have "CHR ''/'' \<notin> set (take 16 (snd op))" using assms by (meson in_set_takeD)
  from last_path_join [OF file_part [OF this], of dir "safe_qualname (fst op)" n] show ?thesis
    by (simp add: trace_path_def fixture_key_def)
qed

interpretation trace_store: fixture_paths
  "\<lambda>op. CHR ''/'' \<notin> set (snd op)" snd "\<lambda>op. take 16 (snd op)" "trace_path dir"
  for dir
proof
  fix x y :: "string \<times> string" and m n
  assume ok: "CHR ''/'' \<notin> set (snd x)" "CHR ''/'' \<notin> set (snd y)"
    and eq: "trace_path dir x m = trace_path dir y n"
  from arg_cong [OF eq, of last]
  show "take 16 (snd x) = take 16 (snd y) \<and> m = n"
    unfolding last_trace_path [OF ok(1)] last_trace_path [OF ok(2)] by (rule file_part_inj)
qed

subsection \<open>One call\<close>

text \<open>A computation that leaves contexts, context variable and files alone.\<close>

definition quiet :: "('a, 'r) prog \<Rightarrow> bool" where
  "quiet m \<longleftrightarrow> (\<forall>w. contexts (snd (m w)) = contexts w \<and> current (snd (m w)) = current w \<and>
     files (snd (m w)) = files w)"

lemma quietD:
  assumes "quiet m" "m w = (x, w')"
  shows "contexts w' = contexts w" "current w' = current w" "files w' = files w"
proof -
  have "contexts (snd (m w)) = contexts w \<and> current (snd (m w)) = current w \<and> files (snd (m w)) = files w"
    using assms(1) by (simp add: quiet_def)
  then show "contexts w' = contexts w" "current w' = current w" "files w' = files w"
    by (simp_all add: assms(2))
qed

lemma quiet_framed: "quiet m \<Longrightarrow> framed r m"
  unfolding framed_def
proof (intro allI impI)
  fix w :: "'a world" assume "quiet m" "valid_ref w r \<and> current w = Some r"
  moreover obtain x w' where "m w = (x, w')" by fastforce
  ultimately show "frame_ok r w (snd (m w))"
    using quietD [of m w x w'] same_contexts [of w' w r] by (simp add: frame_ok_def)
qed

definition session_ctx :: "sim_mode \<Rightarrow> path \<Rightarrow> nat \<Rightarrow> 'a world \<Rightarrow> bool" where
  "session_ctx m dir r w \<longleftrightarrow> valid_ref w r \<and> current w = Some r \<and> mode (ctx_at w r) = m \<and>
     stub_dir (ctx_at w r) = Some dir"

definition ordinals_at :: "'a world \<Rightarrow> nat \<Rightarrow> string \<Rightarrow> int" where
  "ordinals_at w r = count_of (ordinal_counters (ctx_at w r))"

abbreviation has_sink :: "nat \<Rightarrow> 'a world \<Rightarrow> bool" where
  "has_sink r w \<equiv> sink (ctx_at w r) \<noteq> None"

definition stored_output :: "json \<Rightarrow> pyval" where
  "stored_output doc = get_field ''output'' (py_of_json doc)"

lemma stored_output_event: "plain (to_dict e) \<Longrightarrow> stored_output (plain_json (to_dict e)) = ev_output e"
  by (simp add: stored_output_def py_of_plain_json get_field_to_dict)

lemma trace_event_fields [simp]:
  "ev_qualname (trace_event fid q run date input fp out ofp stubs us err n) = q"
  "ev_input (trace_event fid q run date input fp out ofp stubs us err n) = input"
  "ev_input_fingerprint (trace_event fid q run date input fp out ofp stubs us err n) = fp"
  "ev_output (trace_event fid q run date input fp out ofp stubs us err n) = out"
  "ev_ordinal (trace_event fid q run date input fp out ofp stubs us err n) = n"
  "ev_stubs (trace_event fid q run date input fp out ofp stubs us err n) = stubs"
  "ev_error (trace_event fid q run date input fp out ofp stubs us err n) = err"
  "ev_duration_ms (trace_event fid q run date input fp out ofp stubs us err n) =
    hundredths_repr (round_hundredths us)"
  by (simp_all add: trace_event_def fixture_event_init_def)

text \<open>The event of a recorded call, with the stubs its body left.\<close>

definition event_with ::
  "pyval list \<Rightarrow> fixture_event \<Rightarrow> string \<Rightarrow> pyval \<Rightarrow> string \<Rightarrow> int \<Rightarrow> py_exn + pyval \<Rightarrow> bool" where
  "event_with stubs e q args_data fp n res \<longleftrightarrow>
     ev_qualname e = q \<and> ev_input e = args_data \<and> ev_input_fingerprint e = fp \<and> ev_ordinal e = n \<and>
     ev_output e = make_serializable (fst (outcome res)) \<and> ev_error e = snd (outcome res) \<and>
     ev_stubs e = stubs \<and> plain (to_dict e) \<and> (\<exists>h. ev_duration_ms e = hundredths_repr h)"

abbreviation event_of :: "fixture_event \<Rightarrow> string \<Rightarrow> pyval \<Rightarrow> string \<Rightarrow> int \<Rightarrow> py_exn + pyval \<Rightarrow> bool" where
  "event_of \<equiv> event_with []"

definition taking :: "(nat \<Rightarrow> fixture_event \<Rightarrow> ('a, unit) prog) \<Rightarrow> bool" where
  "taking emit \<longleftrightarrow> (\<forall>s e w. keeps_contexts (emit s e) \<and> (plain (to_dict e) \<longrightarrow> fst (emit s e w) = Inr ()))"

lemma takingD: "taking emit \<Longrightarrow> plain (to_dict e) \<Longrightarrow> emit s e w = (Inr (), snd (emit s e w))"
  unfolding taking_def by (metis surjective_pairing)

definition same_session :: "nat \<Rightarrow> 'a world \<Rightarrow> 'a world \<Rightarrow> bool" where
  "same_session r w w' \<longleftrightarrow> valid_ref w' r \<and> current w' = current w \<and>
     ordinals_at w' r = ordinals_at w r \<and> mode (ctx_at w' r) = mode (ctx_at w r) \<and>
     stub_dir (ctx_at w' r) = stub_dir (ctx_at w r) \<and> sink (ctx_at w' r) = sink (ctx_at w r)"

text \<open>From one world to another the context gains stubs that are JSON data.\<close>

definition adds_plain :: "nat \<Rightarrow> 'a world \<Rightarrow> 'a world \<Rightarrow> bool" where
  "adds_plain r w w' \<longleftrightarrow>
     (\<exists>xs. list_all plain xs \<and> collected_stubs (ctx_at w' r) = collected_stubs (ctx_at w r) @ xs)"

lemma adds_plain_refl: "collected_stubs (ctx_at w' r) = collected_stubs (ctx_at w r) \<Longrightarrow> adds_plain r w w'"
  by (simp add: adds_plain_def)

lemma adds_plain_trans: "adds_plain r u v \<Longrightarrow> adds_plain r v w \<Longrightarrow> adds_plain r u w"
  by (auto simp: adds_plain_def)

lemma trace_stub_plain: "plain a \<Longrightarrow> plain out \<Longrightarrow> plain (trace_stub q a out src)"
  by (simp add: trace_stub_def)

text \<open>
  What a recorded call of a framed body hands to the sink, whatever the sink does with it, as long as
  it leaves contexts alone and takes plain events without raising.
\<close>

lemma record_call_runs:
  assumes v: "valid_ref w r" "current w = Some r" and s: "sink (ctx_at w r) = Some s"
    and run: "frame_ok r ((enter_trace r w)\<lparr>ticks := Suc (ticks w)\<rparr>) w3"
      "run ((enter_trace r w)\<lparr>ticks := Suc (ticks w)\<rparr>) = (result, w3)"
    and pl: "adds_plain r w w3" "plain args_data" and t: "taking emit"
    and rec: "record_call has_avro emit q r args_data fp n run w = (res, w')"
  obtains e we inner where "event_with inner e q args_data fp n result" "res = result"
    "collected_stubs (ctx_at w3 r) = collected_stubs (ctx_at w r) @ inner"
    "files we = files w3" "app we = app w3" "files w' = files (snd (emit s e we))"
    "app w' = app (snd (emit s e we))" "frame_ok r w w'" "ordinals_at w' r = ordinals_at w3 r" "adds_plain r w w'"
proof -
  have keeps: "keeps_contexts (emit s e)" for s e using t by (simp add: taking_def)
  note ok = run(1)
  obtain start stop inner w5 res6 where
    inner: "collected_stubs (ctx_at w3 r) = collected_stubs (ctx_at w r) @ inner"
    and w5: "w5 = set_ctx r ((ctx_at w3 r)\<lparr>trace_depth := trace_depth (ctx_at w r),
        collected_stubs := collected_stubs (ctx_at w r)\<rparr>) (w3\<lparr>ticks := Suc (ticks w3)\<rparr>)"
    and em: "emit_record has_avro emit q r args_data fp n (fst (outcome result))
      (snd (outcome result)) (stop - start) inner w5 = (res6, w')"
    and res: "res = (case res6 of Inl e \<Rightarrow> Inl e | Inr _ \<Rightarrow> result)"
    using record_call_steps_at [OF v(1) _ rec] run by (metis prod.inject snd_conv)
  have v3: "valid_ref w3 r" using ok by (simp add: frame_ok_def)
  have c5: "ctx_at w5 r = (ctx_at w3 r)\<lparr>trace_depth := trace_depth (ctx_at w r),
        collected_stubs := collected_stubs (ctx_at w r)\<rparr>"
    "valid_ref w5 r" "current w5 = Some r" "files w5 = files w3" "app w5 = app w3"
    using ok v v3 by (simp_all add: w5 frame_ok_def)
  let ?out = "make_serializable (fst (outcome result))"
  obtain fid date ofp where e: "emit_record has_avro emit q r args_data fp n
      (fst (outcome result)) (snd (outcome result)) (stop - start) inner w5 =
    (case deliver emit r (trace_event fid q (run_id (ctx_at w5 r)) date args_data fp
            ?out ofp inner (stop - start) (snd (outcome result)) n) (w5\<lparr>ticks := ticks w5 + 2\<rparr>) of
       (Inl e, w3) \<Rightarrow> (Inl e, w3)
     | (Inr _, w3) \<Rightarrow> (Inr (), if trace_depth (ctx_at w3 r) > 0
          then push_stub r (trace_stub q args_data ?out ''record'') w3 else w3))"
    using emit_record_steps by blast
  define ev where "ev = trace_event fid q (run_id (ctx_at w5 r)) date args_data fp
            ?out ofp inner (stop - start) (snd (outcome result)) n"
  define we where "we = w5\<lparr>ticks := ticks w5 + 2\<rparr>"
  define w6 where "w6 = snd (emit s ev we)"
  have pl': "list_all plain inner" using pl(1) inner by (auto simp: adds_plain_def)
  have pe: "plain (to_dict ev)"
    unfolding ev_def by (rule to_dict_plain) (use pl(2) pl' in \<open>simp_all add: make_serializable_plain_lemma\<close>)
  have "sink (ctx_at w5 r) = Some s" using ok s v by (simp add: c5(1) frame_ok_def)
  then have "deliver emit r ev we = (Inr (), w6)"
    unfolding w6_def using takingD [OF t pe, of s we] by (simp add: deliver_def we_def)
  then have w': "res6 = Inr ()" "w' = (if trace_depth (ctx_at w6 r) > 0
      then push_stub r (trace_stub q args_data ?out ''record'') w6 else w6)"
    using em e by (simp_all add: ev_def we_def)
  have c6: "ctx_at w6 r = ctx_at w5 r" "valid_ref w6 r" "current w6 = Some r"
    using keeps_contextsD [OF keeps, of s ev we _ w6] same_contexts [of w6 we r] c5
      same_contexts [of we w5 r]
    by (simp_all add: w6_def we_def prod_eq_iff)
  show ?thesis
  proof (rule that [of inner ev we])
    show "event_with inner ev q args_data fp n result"
      using pe by (auto simp: event_with_def ev_def)
    show "adds_plain r w w'"
      using c5(1) c6 pl(2) by (simp add: w'(2) adds_plain_def trace_stub_plain make_serializable_plain_lemma)
    show "frame_ok r w w'" "ordinals_at w' r = ordinals_at w3 r"
      using c5(1) c6 ok v by (auto simp: w'(2) frame_ok_def ordinals_at_def)
  qed (use c5 c6 inner res w'(1) in \<open>simp_all add: we_def w'(2) w6_def\<close>)
qed

lemma record_call_emits:
  assumes v: "valid_ref w r" "current w = Some r" and s: "sink (ctx_at w r) = Some s"
    and q: "quiet run" and a: "plain args_data" and t: "taking emit"
    and rec: "record_call has_avro emit q r args_data fp n run w = (res, w')"
  shows "\<exists>e we w2. event_of e q args_data fp n res \<and> files we = files w \<and>
    app w2 = app w \<and> res = fst (run w2) \<and> app we = app (snd (run w2)) \<and>
    files w' = files (snd (emit s e we)) \<and> app w' = app (snd (emit s e we)) \<and> same_session r w w'"
proof -
  let ?w2 = "(enter_trace r w)\<lparr>ticks := Suc (ticks w)\<rparr>"
  obtain result w3 where run: "run ?w2 = (result, w3)" by fastforce
  have c3: "ctx_at w3 r = (ctx_at w r)\<lparr>trace_depth := trace_depth (ctx_at w r) + 1\<rparr>" "files w3 = files w"
    using quietD [OF q run] same_contexts [of w3 "enter_trace r w" r] v by simp_all
  have "adds_plain r w w3" using c3 by (simp add: adds_plain_refl)
  have ok: "frame_ok r ?w2 w3"
    by (rule framedD [OF quiet_framed [OF q] _ _ run]) (simp_all add: v)
  from record_call_runs [OF v s ok run \<open>adds_plain r w w3\<close> a t rec]
  obtain e we inner where e: "event_with inner e q args_data fp n result" "res = result"
    "collected_stubs (ctx_at w3 r) = collected_stubs (ctx_at w r) @ inner"
    "files we = files w3" "app we = app w3" "files w' = files (snd (emit s e we))"
    "app w' = app (snd (emit s e we))" "frame_ok r w w'" "ordinals_at w' r = ordinals_at w3 r"
    by metis
  have "inner = []" using e(3) c3 by simp
  moreover have "same_session r w w'"
    using e(8,9) c3 by (simp add: same_session_def frame_ok_def ordinals_at_def)
  moreover have "app ?w2 = app w" "res = fst (run ?w2)" "w3 = snd (run ?w2)"
    using v e(2) run by simp_all
  ultimately show ?thesis using e(1,2,4-7) c3(2) by metis
qed

lemma taking_persist: "taking (\<lambda>s. persist_event dir)"
  by (simp add: taking_def persist_keeps persist_plain)

lemma record_call_persists:
  assumes w: "session_ctx RECORD dir r w" "has_sink r w" and q: "quiet run" and a: "plain args_data"
    and rec: "record_call has_avro (\<lambda>s. persist_event dir) q r args_data fp n run w = (res, w')"
  shows "session_ctx RECORD dir r w' \<and> has_sink r w' \<and> ordinals_at w' r = ordinals_at w r \<and>
    (\<exists>w2. app w2 = app w \<and> res = fst (run w2) \<and> app w' = app (snd (run w2))) \<and>
    (\<exists>doc. files w' = (files w)(trace_path dir (q, fp) n \<mapsto> doc) \<and>
       stored_output doc = make_serializable (fst (outcome res)))"
proof -
  have v: "valid_ref w r" "current w = Some r" using w by (simp_all add: session_ctx_def)
  obtain s where s: "sink (ctx_at w r) = Some s" using w(2) by auto
  obtain e we w2 where e: "event_of e q args_data fp n res" "files we = files w"
    "app w2 = app w" "res = fst (run w2)" "app we = app (snd (run w2))"
    "files w' = files (snd (persist_event dir e we))" "app w' = app (snd (persist_event dir e we))"
    "same_session r w w'"
    using record_call_emits [OF v s q a taking_persist rec] by blast
  have pl: "plain (to_dict e)" using e(1) by (simp add: event_with_def)
  have "files w' = (files w)(trace_path dir (q, fp) n \<mapsto> plain_json (to_dict e))"
    using e(1,2,6) by (simp add: persist_plain [OF pl] trace_path_def event_with_def)
  moreover have "stored_output (plain_json (to_dict e)) = make_serializable (fst (outcome res))"
    using e(1) by (simp add: stored_output_event [OF pl] event_with_def)
  moreover have "app w' = app (snd (run w2))" using e(5,7) by (simp add: persist_plain [OF pl])
  moreover have "session_ctx RECORD dir r w'" "has_sink r w'" "ordinals_at w' r = ordinals_at w r"
    using e(8) w s by (simp_all add: same_session_def session_ctx_def)
  ultimately show ?thesis using e(3,4) by blast
qed

subsection \<open>Sessions\<close>

type_synonym 'a call = "string option \<times> 'a traced \<times> pyval list \<times> (string \<times> pyval) list"

text \<open>The application catches whatever a call raises and goes on.\<close>

primrec run_all :: "('a, 'r) prog list \<Rightarrow> 'a world \<Rightarrow> (py_exn + 'r) list \<times> 'a world" where
  "run_all [] w = ([], w)"
| "run_all (m # ms) w = (let (x, w1) = m w; (xs, w2) = run_all ms w1 in (x # xs, w2))"

fun call_prog :: "bool \<Rightarrow> (nat \<Rightarrow> fixture_event \<Rightarrow> ('a, unit) prog) \<Rightarrow> 'a call \<Rightarrow> ('a, pyval) prog" where
  "call_prog has_avro emit (name, f, args, kwargs) = sim_trace has_avro emit name f args kwargs"

fun call_binding :: "'a call \<Rightarrow> py_exn + pyval" where
  "call_binding (name, f, args, kwargs) = bind_args (signature f) args kwargs"

fun call_body :: "'a call \<Rightarrow> ('a, pyval) prog" where
  "call_body (name, f, args, kwargs) = body f args kwargs"

fun call_op :: "bool \<Rightarrow> 'a call \<Rightarrow> (string \<times> string) option" where
  "call_op has_avro (name, f, args, kwargs) =
     (case bind_args (signature f) args kwargs of
        Inl e \<Rightarrow> None
      | Inr a \<Rightarrow>
          (case compute_fingerprint has_avro (traced_name name f) a of
             Inl e \<Rightarrow> None
           | Inr fp \<Rightarrow> Some (traced_name name f, fp)))"

fun quiet_call :: "'a call \<Rightarrow> bool" where
  "quiet_call (name, f, args, kwargs) \<longleftrightarrow>
     quiet (body f args kwargs) \<and> distinct (map param_name (signature f))"

fun sig_ok :: "'a call \<Rightarrow> bool" where
  "sig_ok (name, f, args, kwargs) \<longleftrightarrow> distinct (map param_name (signature f))"

lemma quiet_sig_ok: "quiet_call c \<Longrightarrow> sig_ok c"
  by (cases c) simp

lemma all_quiet_sig_ok: "list_all quiet_call cs \<Longrightarrow> list_all sig_ok cs"
  by (simp add: list_all_iff quiet_sig_ok)

text \<open>
  What a recorded result becomes in a replay: an argument mismatch is raised again, a value comes
  back in its serialised form, and a call that raised comes back as \<open>None\<close>.
\<close>

definition replayed :: "'a call \<Rightarrow> py_exn + pyval \<Rightarrow> py_exn + pyval" where
  "replayed c res =
     (case call_binding c of Inl e \<Rightarrow> Inl e
      | Inr _ \<Rightarrow> Inr (case res of Inr v \<Rightarrow> make_serializable v | Inl _ \<Rightarrow> VNone))"

fun answers :: "'a call list \<Rightarrow> json list \<Rightarrow> (py_exn + pyval) list" where
  "answers [] docs = []"
| "answers (c # cs) docs =
     (case call_binding c of
        Inl e \<Rightarrow> Inl e # answers cs docs
      | Inr _ \<Rightarrow> (case docs of [] \<Rightarrow> [] | d # ds \<Rightarrow> Inr (stored_output d) # answers cs ds))"

definition call_ops :: "bool \<Rightarrow> 'a call list \<Rightarrow> (string \<times> string) list" where
  "call_ops has_avro cs = List.map_filter (call_op has_avro) cs"

lemma call_ops_simps [simp]:
  "call_ops has_avro [] = []"
  "call_ops has_avro (c # cs) =
     (case call_op has_avro c of None \<Rightarrow> call_ops has_avro cs | Some x \<Rightarrow> x # call_ops has_avro cs)"
  by (simp_all add: call_ops_def List.map_filter_simps split: option.split)

lemma ordinals_at_next [simp]:
  "valid_ref w r \<Longrightarrow> ordinals_at (snd (next_ordinal_at r fp w)) r =
    (ordinals_at w r)(fp := ordinals_at w r fp + 1)"
  by (simp add: ordinals_at_def)

lemma session_ctx_next [simp]:
  "valid_ref w r \<Longrightarrow> session_ctx m dir r (snd (next_ordinal_at r fp w)) = session_ctx m dir r w"
  by (simp add: session_ctx_def)

lemma outcome_serialized:
  "make_serializable (fst (outcome res)) = (case res of Inr v \<Rightarrow> make_serializable v | Inl _ \<Rightarrow> VNone)"
  by (simp add: outcome_def split: sum.split)

text \<open>One call of a recorded session, and one of a replayed session.\<close>

lemma record_step:
  assumes w: "session_ctx RECORD dir r w" "has_sink r w" and c: "quiet_call c"
    and run: "call_prog has_avro (\<lambda>s. persist_event dir) c w = (res, w')"
  obtains (unbound) e where "call_binding c = Inl e" "call_op has_avro c = None" "res = Inl e" "w' = w"
  | (bound) a q fp doc where "call_binding c = Inr a" "call_op has_avro c = Some (q, fp)"
      "CHR ''/'' \<notin> set fp" "session_ctx RECORD dir r w'" "has_sink r w'"
      "ordinals_at w' r = (ordinals_at w r)(fp := ordinals_at w r fp + 1)"
      "files w' = (files w)(trace_path dir (q, fp) (ordinals_at w r fp) \<mapsto> doc)"
      "stored_output doc = (case res of Inr v \<Rightarrow> make_serializable v | Inl _ \<Rightarrow> VNone)"
      "\<exists>w2. app w2 = app w \<and> res = fst (call_body c w2) \<and> app w' = app (snd (call_body c w2))"
proof -
  obtain name f args kwargs where c_eq: "c = (name, f, args, kwargs)" by (cases c)
  have sig: "distinct (map param_name (signature f))" and q: "quiet (body f args kwargs)"
    using c by (simp_all add: c_eq)
  have v: "valid_ref w r" "current w = Some r" "is_recording (ctx_at w r)"
    using w by (simp_all add: session_ctx_def mode_simps)
  let ?q = "traced_name name f"
  show ?thesis
  proof (rule prepare_call_cases [OF sig, of args kwargs has_avro ?q r w], goal_cases unbound bound)
    case (unbound e)
    then have "res = Inl e" "w' = w" using run v by (simp_all add: c_eq sim_trace_recording)
    then show ?case using unbound by (intro that(1) [of e]) (simp_all add: c_eq)
  next
    case (bound a fp)
    let ?w1 = "snd (next_ordinal_at r fp w)" and ?n = "ordinals_at w r fp"
    have rec: "record_call has_avro (\<lambda>s. persist_event dir) ?q r a fp ?n (body f args kwargs) ?w1 = (res, w')"
      using run v bound by (simp add: c_eq sim_trace_recording ordinals_at_def)
    have "session_ctx RECORD dir r ?w1" "has_sink r ?w1" using w v(1) by simp_all
    from record_call_persists [OF this q bound(2) rec] obtain doc where
      doc: "session_ctx RECORD dir r w'" "has_sink r w'" "ordinals_at w' r = ordinals_at ?w1 r"
      "files w' = (files ?w1)(trace_path dir (?q, fp) ?n \<mapsto> doc)"
      "stored_output doc = make_serializable (fst (outcome res))"
      "\<exists>w2. app w2 = app ?w1 \<and> res = fst (body f args kwargs w2) \<and> app w' = app (snd (body f args kwargs w2))"
      by blast
    have "CHR ''/'' \<notin> set fp" using bound(5) by (auto simp: list_all_iff is_hex_def is_digit_def)
    then show ?case
      using bound(1,3) doc v(1) by (intro that(2) [of a ?q fp doc]) (simp_all add: c_eq outcome_serialized)
  qed
qed

lemma replay_step:
  assumes w: "session_ctx REPLAY dir r w" and c: "sig_ok c"
  obtains (unbound) e where "call_binding c = Inl e" "call_op has_avro c = None"
      "call_prog has_avro emit c w = (Inl e, w)"
  | (bound) a q fp w' where "call_binding c = Inr a" "call_op has_avro c = Some (q, fp)"
      "call_prog has_avro emit c w =
        (case files w (trace_path dir (q, fp) (ordinals_at w r fp)) of
           None \<Rightarrow> Inl (SimStubMissError q fp (ordinals_at w r fp) (Some dir))
         | Some doc \<Rightarrow> Inr (stored_output doc), w')"
      "session_ctx REPLAY dir r w'" "files w' = files w"
      "ordinals_at w' r = (ordinals_at w r)(fp := ordinals_at w r fp + 1)"
proof -
  obtain name f args kwargs where c_eq: "c = (name, f, args, kwargs)" by (cases c)
  have sig: "distinct (map param_name (signature f))" using c by (simp add: c_eq)
  have v: "valid_ref w r" "current w = Some r" "is_replaying (ctx_at w r)" "stub_dir (ctx_at w r) = Some dir"
    using w by (simp_all add: session_ctx_def mode_simps)
  let ?q = "traced_name name f"
  show ?thesis
  proof (rule prepare_call_cases [OF sig, of args kwargs has_avro ?q r w], goal_cases unbound bound)
    case (unbound e)
    then show ?case using v by (intro that(1) [of e]) (simp_all add: c_eq sim_trace_replaying)
  next
    case (bound a fp)
    let ?w1 = "snd (next_ordinal_at r fp w)" and ?n = "ordinals_at w r fp"
    obtain res w' where rep: "replay ?q fp ?n a r ?w1 = (res, w')" by fastforce
    have "ordinals_at w' r = ordinals_at ?w1 r" "session_ctx REPLAY dir r w'" "files w' = files w"
      using rep v w by (auto simp: replay_def Let_def session_ctx_def ordinals_at_def
          split: option.splits if_splits)
    moreover have "res = (case files w (trace_path dir (?q, fp) ?n) of
           None \<Rightarrow> Inl (SimStubMissError ?q fp ?n (Some dir))
         | Some doc \<Rightarrow> Inr (stored_output doc))"
      using rep v by (auto simp: replay_def Let_def read_fixture_def trace_path_def stored_output_def
          split: option.splits)
    ultimately show ?case
      using bound v rep
      by (intro that(2) [of a ?q fp w']) (simp_all add: c_eq sim_trace_replaying ordinals_at_def)
  qed
qed

text \<open>A recorded session writes what the abstract store records.\<close>

lemma record_session:
  assumes "session_ctx RECORD dir r w" "has_sink r w" "list_all quiet_call cs"
    and "run_all (map (call_prog has_avro (\<lambda>s. persist_event dir)) cs) w = (results, w')"
  shows "\<exists>docs. length docs = length (call_ops has_avro cs) \<and>
    files w' = record_run snd (trace_path dir) (zip (call_ops has_avro cs) (map Some docs)) (ordinals_at w r) (files w) \<and>
    answers cs docs = map2 replayed cs results \<and>
    list_all (\<lambda>op. CHR ''/'' \<notin> set (snd op)) (call_ops has_avro cs)"
  using assms
proof (induction cs arbitrary: w results)
  case (Cons c cs)
  obtain x w1 where x: "call_prog has_avro (\<lambda>s. persist_event dir) c w = (x, w1)" by fastforce
  obtain xs w2 where xs: "run_all (map (call_prog has_avro (\<lambda>s. persist_event dir)) cs) w1 = (xs, w2)"
    by fastforce
  have res: "results = x # xs" "w' = w2" using Cons.prems(4) by (simp_all add: x xs)
  have c: "quiet_call c" "list_all quiet_call cs" using Cons.prems(3) by simp_all
  show ?case
  proof (rule record_step [OF Cons.prems(1,2) c(1) x], goal_cases unbound bound)
    case (unbound e)
    then show ?case
      using Cons.IH [of w xs] Cons.prems(1,2) c(2) xs by (auto simp: res replayed_def)
  next
    case (bound a q fp doc)
    obtain docs where docs: "length docs = length (call_ops has_avro cs)"
      "files w2 = record_run snd (trace_path dir) (zip (call_ops has_avro cs) (map Some docs)) (ordinals_at w1 r) (files w1)"
      "answers cs docs = map2 replayed cs xs"
      "list_all (\<lambda>op. CHR ''/'' \<notin> set (snd op)) (call_ops has_avro cs)"
      using Cons.IH [OF bound(4,5) c(2), of xs] xs by (auto simp: res)
    have "answers (c # cs) (doc # docs) = map2 replayed (c # cs) results"
      using bound docs(3) by (simp add: res replayed_def)
    then show ?case
      using bound docs by (intro exI [of _ "doc # docs"]) (simp add: res)
  qed
qed simp

text \<open>A replayed session reads what the abstract store replays.\<close>

lemma replay_session:
  assumes "session_ctx REPLAY dir r w" "list_all sig_ok cs"
    and "replay_run snd (trace_path dir) (call_ops has_avro cs) (ordinals_at w r) (files w) = map Some docs"
  shows "fst (run_all (map (call_prog has_avro emit) cs) w) = answers cs docs"
  using assms
proof (induction cs arbitrary: w docs)
  case (Cons c cs)
  have c: "sig_ok c" "list_all sig_ok cs" using Cons.prems(2) by simp_all
  show ?case
  proof (rule replay_step [OF Cons.prems(1) c(1), of has_avro emit], goal_cases unbound bound)
    case (unbound e)
    then show ?case using Cons.IH [OF Cons.prems(1) c(2), of docs] Cons.prems(3) by (simp add: case_prod_unfold)
  next
    case (bound a q fp w1)
    then obtain d ds where d: "docs = d # ds"
      "files w (trace_path dir (q, fp) (ordinals_at w r fp)) = Some d"
      using Cons.prems(3) by (auto simp: Cons_eq_map_conv)
    have "fst (run_all (map (call_prog has_avro emit) cs) w1) = answers cs ds"
      using Cons.prems(3) bound d by (intro Cons.IH [OF bound(4) c(2)]) (simp del: fun_upd_apply)
    then show ?case using bound d by (simp add: case_prod_unfold)
  qed
qed simp

text \<open>No two calls of the session differ in their fingerprint but not in its first 16 digits.\<close>

definition no_prefix_clash :: "bool \<Rightarrow> 'a call list \<Rightarrow> bool" where
  "no_prefix_clash has_avro cs \<longleftrightarrow>
     separated snd (\<lambda>op. take 16 (snd op)) (set (call_ops has_avro cs))"


text \<open>A function with no parameters that counts its calls, and worlds to call it in.\<close>

definition tick_function :: "int traced" where
  "tick_function = \<lparr>qualname = ''tick'', signature = [],
     body = (\<lambda>args kwargs w. (Inr (VInt (app w)), w\<lparr>app := app w + 1\<rparr>))\<rparr>"

definition session_world :: "sim_mode \<Rightarrow> nat option \<Rightarrow> (path \<Rightarrow> json option) \<Rightarrow> 'a \<Rightarrow> 'a world" where
  "session_world m snk fs x = (blank_world (\<lambda>_. None) x)
     \<lparr>contexts := [sim_context_init m ''run'' (Some [''stubs'']) snk], current := Some 0, files := fs\<rparr>"

lemma session_world_ctx:
  "session_ctx m [''stubs''] 0 (session_world m snk fs x)"
  "sink (ctx_at (session_world m snk fs x) 0) = snk"
  "ordinals_at (session_world m snk fs x) 0 = (\<lambda>_. 0)"
  "files (session_world m snk fs x) = fs" "app (session_world m snk fs x) = x"
  by (simp_all add: session_world_def session_ctx_def valid_ref_def ctx_at_def sim_context_init_def
      ordinals_at_def fun_eq_iff blank_world_def)

lemma session_world_parts:
  "valid_ref (session_world m snk fs x) 0" "current (session_world m snk fs x) = Some 0"
  "mode (ctx_at (session_world m snk fs x) 0) = m"
  "stub_dir (ctx_at (session_world m snk fs x) 0) = Some [''stubs'']"
  using session_world_ctx(1) [of m snk fs x] by (simp_all add: session_ctx_def)

lemma tick_session:
  assumes "session_ctx RECORD dir r w" "has_sink r w"
  shows "fst (run_all (map (call_prog False (\<lambda>s. persist_event dir))
      (replicate n (None, tick_function, [], []))) w) = map (\<lambda>i. Inr (VInt (app w + int i))) [0..<n]"
  using assms
proof (induction n arbitrary: w)
  case (Suc n)
  let ?c = "(None, tick_function, [], []) :: int call"
  have q: "quiet_call ?c" by (simp add: tick_function_def quiet_def)
  obtain x w1 where x: "call_prog False (\<lambda>s. persist_event dir) ?c w = (x, w1)" by fastforce
  show ?case
  proof (rule record_step [OF Suc.prems q x], goal_cases unbound bound)
    case (unbound e)
    then show ?case by (simp add: bind_args_def tick_function_def)
  next
    case (bound a q fp doc)
    then have "x = Inr (VInt (app w))" "app w1 = app w + 1"
      by (auto simp: tick_function_def)
    moreover have "[0..<Suc n] = 0 # map Suc [0..<n]"
      by (simp only: map_Suc_upt) (simp add: upt_conv_Cons del: upt_Suc)
    ultimately show ?case
      using Suc.IH [OF bound(4,5)] x by (simp add: case_prod_unfold comp_def algebra_simps del: upt_Suc)
  qed
qed simp


end
