(* ===== verification/Trace_Props.thy ===== *)
theory Trace_Props
  imports Trace_Session
begin

text \<open>
  What the \<open>@sim_trace\<close> wrapper guarantees call by call: passthrough in off mode, no execution
  in replay, correct nesting and transparency in record mode, and independence of the fingerprint
  from the way arguments are passed.
\<close>

subsection \<open>Properties of the wrapper\<close>

text \<open>
  Off mode is a passthrough. When the current context (created from the environment if there
  is none) is off, calling the decorated function is calling the function: same result, same
  effects, no ordinal taken, no event, no stub.
\<close>

theorem off_is_passthrough:
  assumes "get_context w = (r, w0)" "mode (ctx_at w0 r) = OFF"
  shows "sim_trace has_avro emit name f args kwargs w = body f args kwargs w0"
  using assms by (intro sim_trace_off) (simp_all add: is_active_def)

theorem off_is_passthrough_witness:
  "fst (sim_trace False (\<lambda>s. persist_event []) None tick_function [] [] (session_world OFF None (\<lambda>_. None) 3)) =
    Inr (VInt 3)"
proof -
  let ?w = "session_world OFF None (\<lambda>_. None) (3 :: int)"
  have g: "get_context ?w = (0, ?w)" by (simp add: session_world_def)
  have "mode (ctx_at ?w 0) = OFF"
    by (rule session_world_parts)
  from off_is_passthrough [OF g this, of False "\<lambda>s. persist_event []" None tick_function] show ?thesis
    by (simp add: tick_function_def session_world_def blank_world_def)
qed





text \<open>A sink whose \<open>emit\<close> always returns, and touches neither contexts nor the application.\<close>

definition sink_ok :: "(nat \<Rightarrow> fixture_event \<Rightarrow> ('a, unit) prog) \<Rightarrow> bool" where
  "sink_ok emit \<longleftrightarrow> (\<forall>s e w. fst (emit s e w) = Inr () \<and> contexts (snd (emit s e w)) = contexts w \<and>
     current (snd (emit s e w)) = current w \<and> app (snd (emit s e w)) = app w)"

lemma deliver_ok:
  assumes "sink_ok emit" "deliver emit r ev w = (res, w')"
  shows "res = Inr () \<and> contexts w' = contexts w \<and> current w' = current w \<and> app w' = app w"
proof (cases "sink (ctx_at w r)")
  case None
  then show ?thesis using assms(2) by (auto simp: deliver_def)
next
  case (Some s)
  have "fst (emit s ev w) = Inr () \<and> contexts (snd (emit s ev w)) = contexts w \<and>
     current (snd (emit s ev w)) = current w \<and> app (snd (emit s ev w)) = app w"
    using assms(1) by (simp add: sink_ok_def)
  then show ?thesis using assms(2) Some by (simp add: deliver_def)
qed

lemma emit_record_ok:
  assumes "sink_ok emit" "emit_record has_avro emit q r args_data fp n output err us inner w = (res, w')"
  shows "res = Inr () \<and> app w' = app w"
proof -
  obtain fid date ofp where e:
    "emit_record has_avro emit q r args_data fp n output err us inner w =
    (case deliver emit r (trace_event fid q (run_id (ctx_at w r)) date args_data fp
            (make_serializable output) ofp inner us err n) (w\<lparr>ticks := ticks w + 2\<rparr>) of
       (Inl e, w3) \<Rightarrow> (Inl e, w3)
     | (Inr _, w3) \<Rightarrow> (Inr (), if trace_depth (ctx_at w3 r) > 0
          then push_stub r (trace_stub q args_data (make_serializable output) ''record'') w3 else w3))"
    using emit_record_steps by blast
  obtain res3 w3 where m: "deliver emit r (trace_event fid q (run_id (ctx_at w r)) date args_data fp
      (make_serializable output) ofp inner us err n) (w\<lparr>ticks := ticks w + 2\<rparr>) = (res3, w3)"
    by fastforce
  from deliver_ok [OF assms(1) m] show ?thesis
    using assms(2) e m by (cases "trace_depth (ctx_at w3 r) > 0") auto
qed



lemma bind_keywords:
  assumes "list_all (\<lambda>p. param_kind p = PositionalOrKeyword) ps" "distinct (map param_name ps)"
    and "length vs = length ps" "distinct (map fst kwargs)"
    and "set kwargs = set (zip (map param_name ps) vs)"
  shows "bind_params ps [] kwargs = Inr (zip (map param_name ps) vs)"
  using assms
proof (induction ps arbitrary: vs kwargs)
  case Nil
  then show ?case by simp
next
  case (Cons p ps)
  obtain v vs' where vs: "vs = v # vs'" using Cons.prems(3) by (cases vs) auto
  let ?n = "param_name p"
  have get: "map_of kwargs ?n = Some v"
    using Cons.prems(4,5) by (auto simp: vs intro: map_of_is_SomeI)
  have new: "(?n, b) \<notin> set (zip (map param_name ps) vs')" for b
    using Cons.prems(2) by (auto dest: set_zip_leftD)
  have "set (AList.delete ?n kwargs) = set (zip (map param_name ps) vs')"
    using Cons.prems(5) new by (auto simp: AList.delete_eq vs)
  moreover have "distinct (map fst (AList.delete ?n kwargs))"
    using Cons.prems(4) by (simp add: distinct_delete)
  ultimately have "bind_params ps [] (AList.delete ?n kwargs) = Inr (zip (map param_name ps) vs')"
    using Cons.prems(1-3) by (intro Cons.IH) (simp_all add: vs)
  then show ?case using Cons.prems(1) get by (simp add: vs)
qed

lemma bind_style:
  assumes "list_all (\<lambda>p. param_kind p = PositionalOrKeyword) ps" "distinct (map param_name ps)"
    and "length vs = length ps" "distinct (map fst kwargs)" "i \<le> length vs"
    and "set kwargs = set (zip (drop i (map param_name ps)) (drop i vs))"
  shows "bind_params ps (take i vs) kwargs = Inr (zip (map param_name ps) vs)"
  using assms
proof (induction ps arbitrary: vs i)
  case (Cons p ps)
  obtain v vs' where vs: "vs = v # vs'" using Cons.prems(3) by (cases vs) auto
  show ?case
  proof (cases i)
    case 0
    then show ?thesis using bind_keywords [of "p # ps" vs kwargs] Cons.prems by simp
  next
    case (Suc j)
    have "fst ` set kwargs \<subseteq> set (map param_name ps)"
      using Cons.prems(6) by (auto simp: Suc vs dest!: set_zip_leftD in_set_dropD)
    then have "map_of kwargs (param_name p) = None"
      using Cons.prems(2) by (auto simp: map_of_eq_None_iff)
    moreover have "bind_params ps (take j vs') kwargs = Inr (zip (map param_name ps) vs')"
      using Cons.prems by (intro Cons.IH) (simp_all add: Suc vs)
    ultimately show ?thesis using Cons.prems(1) by (simp add: Suc vs)
  qed
qed simp

text \<open>
  How the arguments are passed does not matter. For a function of plain parameters, passing
  the first i arguments by position and the others by keyword, in any order, binds the same
  dictionary as passing all of them by position, so the call has the same fingerprint and is
  replayed from the same fixture.
\<close>

theorem call_style_is_irrelevant:
  assumes "list_all (\<lambda>p. param_kind p = PositionalOrKeyword) (signature f)"
    and "distinct (map param_name (signature f))" "length vs = length (signature f)"
    and "distinct (map fst kwargs)" "i \<le> length vs"
    and "set kwargs = set (zip (drop i (map param_name (signature f))) (drop i vs))"
  shows "prepare_call has_avro (signature f) q (take i vs) kwargs r w =
    prepare_call has_avro (signature f) q vs [] r w"
proof -
  have "bind_params (signature f) (take i vs) kwargs = bind_params (signature f) vs []"
    using bind_style [OF assms] bind_style [OF assms(1-3), of "[]" "length vs"] assms(3) by simp
  then show ?thesis by (simp add: prepare_call_def bind_args_def)
qed

theorem call_style_is_irrelevant_witness:
  "prepare_call False [\<lparr>param_name = ''a'', param_kind = PositionalOrKeyword, param_default = None\<rparr>,
       \<lparr>param_name = ''b'', param_kind = PositionalOrKeyword, param_default = None\<rparr>] ''f''
       [VInt 1] [(''b'', VInt 2)] 0 (session_world RECORD None (\<lambda>_. None) ()) =
   prepare_call False [\<lparr>param_name = ''a'', param_kind = PositionalOrKeyword, param_default = None\<rparr>,
       \<lparr>param_name = ''b'', param_kind = PositionalOrKeyword, param_default = None\<rparr>] ''f''
       [VInt 1, VInt 2] [] 0 (session_world RECORD None (\<lambda>_. None) ())"
  using call_style_is_irrelevant [of "\<lparr>qualname = ''f'',
    signature = [\<lparr>param_name = ''a'', param_kind = PositionalOrKeyword, param_default = None\<rparr>,
       \<lparr>param_name = ''b'', param_kind = PositionalOrKeyword, param_default = None\<rparr>],
    body = (\<lambda>_ _ w. (Inr VNone, w))\<rparr>" "[VInt 1, VInt 2]" "[(''b'', VInt 2)]" 1] by simp

text \<open>
  In record mode a trace needs a sink. Without one the event is discarded even if a stub
  directory is configured: no fixture file is written, so a replay in that directory has nothing
  to read. The loss is logged.
\<close>

theorem trace_without_sink_discarded:
  assumes "session_ctx RECORD dir r w" "sink (ctx_at w r) = None"
    and "quiet_call (name, f, args, kwargs)" "bind_args (signature f) args kwargs = Inr a"
    and "sim_trace has_avro emit name f args kwargs w = (res, w')"
  shows "files w' = files w \<and> (\<exists>fid. last (log_entries w') = DiscardedTrace fid \<and> log_entries w' \<noteq> [])"
proof -
  have v: "valid_ref w r" "current w = Some r" "is_recording (ctx_at w r)"
    using assms(1) by (simp_all add: session_ctx_def mode_simps)
  have q: "quiet (body f args kwargs)" and sig: "distinct (map param_name (signature f))"
    using assms(3) by simp_all
  show ?thesis
  proof (rule prepare_call_cases [OF sig, of args kwargs has_avro "traced_name name f" r w],
      goal_cases unbound bound)
    case (unbound e)
    then show ?case using assms(4) by simp
  next
    case (bound a' fp)
    let ?w1 = "snd (next_ordinal_at r fp w)"
    have run: "record_call has_avro emit (traced_name name f) r a' fp
        (count_of (ordinal_counters (ctx_at w r)) fp) (body f args kwargs) ?w1 = (res, w')"
      using assms(5) bound by (simp add: sim_trace_recording [OF v(2,3,1)])
    have v1: "valid_ref ?w1 r" "current ?w1 = Some r" using v by simp_all
    obtain result w3 start stop inner w5 res6 where
      b: "body f args kwargs ((enter_trace r ?w1)\<lparr>ticks := Suc (ticks ?w1)\<rparr>) = (result, w3)"
      and w5: "w5 = set_ctx r ((ctx_at w3 r)\<lparr>trace_depth := trace_depth (ctx_at ?w1 r),
        collected_stubs := collected_stubs (ctx_at ?w1 r)\<rparr>) (w3\<lparr>ticks := Suc (ticks w3)\<rparr>)"
      and em: "emit_record has_avro emit (traced_name name f) r a' fp
        (count_of (ordinal_counters (ctx_at w r)) fp) (fst (outcome result)) (snd (outcome result))
        (stop - start) inner w5 = (res6, w')"
      using record_call_steps [OF v1 quiet_framed [OF q] run] by metis
    have "contexts w3 = contexts (enter_trace r ?w1)" "files w3 = files w"
      using quietD [OF q b] by simp_all
    then have "ctx_at w3 r = ctx_at (enter_trace r ?w1) r" "valid_ref w3 r"
      using same_contexts [of w3 "enter_trace r ?w1" r] v(1) by simp_all
    then have s5: "sink (ctx_at w5 r) = None" "files w5 = files w"
      using assms(2) v(1) \<open>files w3 = files w\<close> by (simp_all add: w5)
    obtain fid date ofp where e: "emit_record has_avro emit (traced_name name f) r a' fp
        (count_of (ordinal_counters (ctx_at w r)) fp) (fst (outcome result)) (snd (outcome result))
        (stop - start) inner w5 =
      (case deliver emit r (trace_event fid (traced_name name f) (run_id (ctx_at w5 r)) date a' fp
            (make_serializable (fst (outcome result))) ofp inner (stop - start) (snd (outcome result))
            (count_of (ordinal_counters (ctx_at w r)) fp)) (w5\<lparr>ticks := ticks w5 + 2\<rparr>) of
       (Inl e, w3) \<Rightarrow> (Inl e, w3)
     | (Inr _, w3) \<Rightarrow> (Inr (), if trace_depth (ctx_at w3 r) > 0
          then push_stub r (trace_stub (traced_name name f) a' (make_serializable (fst (outcome result))) ''record'') w3 else w3))"
      using emit_record_steps by blast
    have "files w' = files w \<and> log_entries w' = log_entries w5 @ [DiscardedTrace
        (ev_fixture_id (trace_event fid (traced_name name f) (run_id (ctx_at w5 r)) date a' fp
            (make_serializable (fst (outcome result))) ofp inner (stop - start) (snd (outcome result))
            (count_of (ordinal_counters (ctx_at w r)) fp)))]"
      using em e s5 by (auto simp: deliver_def add_log_def push_stub_def set_ctx_def)
    then show ?case by simp
  qed
qed

theorem trace_without_sink_discarded_witness:
  "files (snd (sim_trace False (\<lambda>s. persist_event []) None tick_function [] []
      (session_world RECORD None (\<lambda>_. None) 7))) = (\<lambda>_. None)"
proof -
  have f: "quiet_call (None, tick_function, [], [])" "bind_args (signature tick_function) [] [] = Inr (VDict [])"
    by (simp_all add: tick_function_def bind_args_def quiet_def)
  from trace_without_sink_discarded [OF session_world_ctx(1,2) f surjective_pairing]
  show ?thesis by (simp add: session_world_ctx)
qed

end
