(* ===== verification/Capture.thy ===== *)
theory Capture
  imports Trace_Session
begin

text \<open>
  The \<open>sim_capture\<close> context manager (sim_sdk/capture.py): capture keys, reading and writing of
  capture fixtures, the handle given to the developer, and the \<open>with\<close> statement around a block.

  The block is a computation that is handed the handle and gives back its final state, since
  \<open>set_result\<close> changes the object the manager also holds. The synchronous and the asynchronous
  protocol call the same two methods.
\<close>

subsection \<open>Keys and fixtures\<close>

definition safe_label :: "string \<Rightarrow> string" where
  "safe_label s = replace_char (CHR '' '') (CHR ''_'') (replace_char (CHR ''/'') (CHR ''_'')
     (replace_char (CHR ''.'') (CHR ''_'') s))"

definition capture_key :: "string \<Rightarrow> int \<Rightarrow> string" where
  "capture_key label n = ''__capture__/'' @ safe_label label @ ''_'' @ dec_int n @ ''.json''"

definition capture_name :: "string \<Rightarrow> string" where
  "capture_name label = ''capture:'' @ label"

definition capture_data :: "string \<Rightarrow> int \<Rightarrow> pyval \<Rightarrow> pyval" where
  "capture_data label n result = VDict
     [field ''type'' (VStr ''capture''), field ''label'' (VStr label), field ''ordinal'' (VInt n),
      field ''result'' (make_serializable result)]"

text \<open>\<open>json.dump(data, f, indent=2, default=str)\<close> to the file at a path.\<close>

definition dump_file :: "path \<Rightarrow> pyval \<Rightarrow> ('a, unit) prog" where
  "dump_file p data w =
     (case encode DefaultStr False data of
        Inl e \<Rightarrow> (Inl e, w)
      | Inr doc \<Rightarrow> (Inr (), w\<lparr>files := (files w)(p \<mapsto> doc)\<rparr>))"

definition capture_event :: "string \<Rightarrow> string \<Rightarrow> string \<Rightarrow> string \<Rightarrow> int \<Rightarrow> pyval \<Rightarrow> fixture_event" where
  "capture_event fid run date label n result =
     (fixture_event_init fid (capture_name label) run date)
       \<lparr>ev_output := make_serializable result, ev_ordinal := n,
        ev_storage_key := Some (capture_key label n), ev_event_type := ''Stub''\<rparr>"

definition write_capture ::
  "(nat \<Rightarrow> fixture_event \<Rightarrow> ('a, unit) prog) \<Rightarrow> string \<Rightarrow> int \<Rightarrow> pyval \<Rightarrow> nat \<Rightarrow> ('a, unit) prog" where
  "write_capture emit label n result r w =
     (case sink (ctx_at w r) of
        Some s \<Rightarrow>
          (let (fid, w1) = uuid8 w; (date, w2) = utc_now w1 in
           emit s (capture_event fid (run_id (ctx_at w r)) date label n result) w2)
      | None \<Rightarrow>
          (case stub_dir (ctx_at w r) of
             Some dir \<Rightarrow> dump_file (path_join dir (capture_key label n)) (capture_data label n result) w
           | None \<Rightarrow> (Inr (), add_log (DiscardedCapture label) w)))"

definition read_capture :: "string \<Rightarrow> int \<Rightarrow> path \<Rightarrow> 'a world \<Rightarrow> pyval option" where
  "read_capture label n dir w =
     map_option py_of_json (files w (path_join dir (capture_key label n)))"

subsection \<open>\<open>CaptureHandle\<close>\<close>

record capture_handle =
  h_label :: string
  h_ordinal :: int
  h_ctx :: nat
  h_result :: pyval
  h_result_set :: bool
  h_replaying :: bool

definition load_recorded :: "capture_handle \<Rightarrow> 'a world \<Rightarrow> py_exn + capture_handle" where
  "load_recorded h w =
     (case stub_dir (ctx_at w (h_ctx h)) of
        None \<Rightarrow> Inl (SimStubMissError (capture_name (h_label h)) [] (h_ordinal h) None)
      | Some dir \<Rightarrow>
          (case read_capture (h_label h) (h_ordinal h) dir w of
             None \<Rightarrow> Inl (SimStubMissError (capture_name (h_label h)) [] (h_ordinal h) (Some dir))
           | Some data \<Rightarrow> Inr (h\<lparr>h_result := get_field ''result'' data, h_result_set := True\<rparr>)))"

definition capture_handle_init :: "string \<Rightarrow> int \<Rightarrow> nat \<Rightarrow> 'a world \<Rightarrow> py_exn + capture_handle" where
  "capture_handle_init label n r w =
     (let h = \<lparr>h_label = label, h_ordinal = n, h_ctx = r, h_result = VNone, h_result_set = False,
               h_replaying = is_replaying (ctx_at w r)\<rparr>
      in if h_replaying h then load_recorded h w else Inr h)"

definition handle_result :: "capture_handle \<Rightarrow> pyval" where
  "handle_result h = h_result h"

definition set_result :: "pyval \<Rightarrow> capture_handle \<Rightarrow> capture_handle" where
  "set_result v h = h\<lparr>h_result := v, h_result_set := True\<rparr>"

subsection \<open>\<open>sim_capture\<close>\<close>

text \<open>The manager: \<open>cap_entered\<close> says whether its \<open>_handle\<close> is set.\<close>

record sim_capture =
  cap_label :: string
  cap_entered :: bool
  cap_ctx :: "nat option"
  cap_ordinal :: int

definition sim_capture_init :: "string \<Rightarrow> sim_capture" where
  "sim_capture_init label = \<lparr>cap_label = label, cap_entered = False, cap_ctx = None, cap_ordinal = 0\<rparr>"

definition capture_setup :: "sim_capture \<Rightarrow> ('a, capture_handle \<times> sim_capture) prog" where
  "capture_setup cap w =
     (let (r, w1) = get_context w; cap1 = cap\<lparr>cap_ctx := Some r\<rparr> in
      if \<not> is_active (ctx_at w1 r) then
        (case capture_handle_init (cap_label cap1) 0 r w1 of
           Inl e \<Rightarrow> (Inl e, w1) | Inr h \<Rightarrow> (Inr (h, cap1), w1))
      else
        (let (n, w2) = next_ordinal_at r (capture_name (cap_label cap1)) w1;
             cap2 = cap1\<lparr>cap_ordinal := n\<rparr>
         in case capture_handle_init (cap_label cap2) n r w2 of
              Inl e \<Rightarrow> (Inl e, w2)
            | Inr h \<Rightarrow> (Inr (h, cap2\<lparr>cap_entered := True\<rparr>), w2)))"

definition capture_replay_stub :: "string \<Rightarrow> int \<Rightarrow> pyval \<Rightarrow> pyval" where
  "capture_replay_stub label n result = VDict
     [field ''type'' (VStr ''capture''), field ''label'' (VStr label), field ''ordinal'' (VInt n),
      field ''result'' (make_serializable result), field ''source'' (VStr ''replay'')]"

definition capture_teardown ::
  "(nat \<Rightarrow> fixture_event \<Rightarrow> ('a, unit) prog) \<Rightarrow> sim_capture \<Rightarrow> capture_handle \<Rightarrow> ('a, unit) prog" where
  "capture_teardown emit cap h w =
     (case cap_ctx cap of
        None \<Rightarrow> (Inr (), w)
      | Some r \<Rightarrow>
          if \<not> is_active (ctx_at w r) \<or> \<not> cap_entered cap then (Inr (), w)
          else if is_recording (ctx_at w r) then
            (let w1 = (if h_result_set h then w else add_log (NoResultWarning (cap_label cap)) w);
                 w2 = push_stub r (capture_data (cap_label cap) (cap_ordinal cap) (h_result h)) w1
             in write_capture emit (cap_label cap) (cap_ordinal cap) (h_result h) r w2)
          else if is_replaying (ctx_at w r) then
            (Inr (), push_stub r (capture_replay_stub (cap_label cap) (cap_ordinal cap) (h_result h)) w)
          else (Inr (), w))"

text \<open>
  \<open>with sim_capture(label) as cap: block\<close>. The teardown runs when the block raises too; it never
  swallows the exception, and an exception of its own replaces it.
\<close>

definition with_capture ::
  "(nat \<Rightarrow> fixture_event \<Rightarrow> ('a, unit) prog) \<Rightarrow> string \<Rightarrow>
    (capture_handle \<Rightarrow> 'a world \<Rightarrow> (py_exn + 'r) \<times> capture_handle \<times> 'a world) \<Rightarrow> ('a, 'r) prog" where
  "with_capture emit label block w =
     (case capture_setup (sim_capture_init label) w of
        (Inl e, w1) \<Rightarrow> (Inl e, w1)
      | (Inr (h, cap), w1) \<Rightarrow>
          (let (result, h', w2) = block h w1;
               (res, w3) = capture_teardown emit cap h' w2
           in (case res of Inl e \<Rightarrow> Inl e | Inr _ \<Rightarrow> result, w3)))"

text \<open>
  The block the documentation shows: unless the handle is replaying, run the dependency and set
  the result; then use \<open>cap.result\<close>.
\<close>

definition captured_block ::
  "('a, pyval) prog \<Rightarrow> capture_handle \<Rightarrow> 'a world \<Rightarrow> (py_exn + pyval) \<times> capture_handle \<times> 'a world" where
  "captured_block dep h w =
     (if h_replaying h then (Inr (handle_result h), h, w)
      else (case dep w of
              (Inl e, w') \<Rightarrow> (Inl e, h, w')
            | (Inr v, w') \<Rightarrow> (Inr (handle_result (set_result v h)), set_result v h, w')))"

subsection \<open>Captures as a fixture store\<close>

lemma dump_file_plain:
  "plain data \<Longrightarrow> dump_file p data w = (Inr (), w\<lparr>files := (files w)(p \<mapsto> plain_json data)\<rparr>)"
  by (simp add: dump_file_def encode_plain)

lemma capture_data_plain [simp]: "plain (capture_data label n v)"
  by (simp add: capture_data_def make_serializable_plain_lemma)

definition stored_result :: "json \<Rightarrow> pyval" where
  "stored_result doc = get_field ''result'' (py_of_json doc)"

lemma stored_result_capture [simp]:
  "stored_result (plain_json (capture_data label n v)) = make_serializable v"
  unfolding stored_result_def py_of_plain_json [OF capture_data_plain]
  by (simp add: get_field_def capture_data_def)

definition capture_path :: "path \<Rightarrow> string \<Rightarrow> int \<Rightarrow> path" where
  "capture_path dir label n = path_join dir (capture_key label n)"

lemma safe_label_no_slash: "CHR ''/'' \<notin> set (safe_label s)"
  by (simp add: safe_label_def)

lemma last_capture_path:
  "last (capture_path dir label n) = safe_label label @ ''_'' @ dec_int n @ ''.json''"
  using last_path_join [OF file_part [OF safe_label_no_slash], of dir "''__capture__''" label n]
  by (simp add: capture_path_def capture_key_def)

interpretation capture_store: fixture_paths
  "\<lambda>label. True" capture_name safe_label "capture_path dir"
  for dir
proof
  fix x y :: string and m n
  assume eq: "capture_path dir x m = capture_path dir y n"
  from arg_cong [OF eq, of last] show "safe_label x = safe_label y \<and> m = n"
    unfolding last_capture_path by (rule file_part_inj)
qed

text \<open>Entering and leaving the manager in an active context.\<close>

lemma capture_setup_active:
  assumes "current w = Some r" "is_active (ctx_at w r)"
  shows "capture_setup (sim_capture_init label) w =
    (let n = ordinals_at w r (capture_name label); w1 = snd (next_ordinal_at r (capture_name label) w) in
     case capture_handle_init label n r w1 of
       Inl e \<Rightarrow> (Inl e, w1)
     | Inr h \<Rightarrow> (Inr (h, \<lparr>cap_label = label, cap_entered = True, cap_ctx = Some r, cap_ordinal = n\<rparr>), w1))"
  using assms
  by (simp add: capture_setup_def sim_capture_init_def next_ordinal_at_def next_ordinal_count ordinals_at_def
      Let_def split: sum.split)

lemma write_capture_dir:
  assumes "sink (ctx_at w r) = None" "stub_dir (ctx_at w r) = Some dir"
  shows "write_capture emit label n v r w =
    (Inr (), w\<lparr>files := (files w)(capture_path dir label n \<mapsto> plain_json (capture_data label n v))\<rparr>)"
  using assms by (simp add: write_capture_def dump_file_plain capture_path_def)

lemma capture_teardown_recording:
  assumes "mode (ctx_at w r) = RECORD" "stub_dir (ctx_at w r) = Some dir" "sink (ctx_at w r) = None"
    "valid_ref w r"
    and "w1 = (if h_result_set h then w else add_log (NoResultWarning label) w)"
    and "w2 = push_stub r (capture_data label n (h_result h)) w1"
  shows "capture_teardown emit \<lparr>cap_label = label, cap_entered = True, cap_ctx = Some r, cap_ordinal = n\<rparr> h w =
    (Inr (), w2\<lparr>files := (files w2)(capture_path dir label n \<mapsto>
       plain_json (capture_data label n (h_result h)))\<rparr>)"
proof -
  have "sink (ctx_at w2 r) = None" "stub_dir (ctx_at w2 r) = Some dir"
    using assms by simp_all
  note written = write_capture_dir [OF this, of emit label n "h_result h"]
  have "capture_teardown emit \<lparr>cap_label = label, cap_entered = True, cap_ctx = Some r, cap_ordinal = n\<rparr> h w =
      write_capture emit label n (h_result h) r w2"
    unfolding assms(5,6) using assms(1) by (simp add: capture_teardown_def mode_simps Let_def del: if_split)
  then show ?thesis by (simp only: written)
qed

text \<open>One captured block, recorded to the stub directory and replayed from it.\<close>

lemma capture_record_step:
  assumes w: "session_ctx RECORD dir r w" "sink (ctx_at w r) = None" and q: "quiet dep"
    and run: "with_capture emit label (captured_block dep) w = (res, w')"
  obtains doc where "session_ctx RECORD dir r w'" "sink (ctx_at w' r) = None"
    "ordinals_at w' r =
      (ordinals_at w r)(capture_name label := ordinals_at w r (capture_name label) + 1)"
    "files w' = (files w)(capture_path dir label (ordinals_at w r (capture_name label)) \<mapsto> doc)"
    "stored_result doc = (case res of Inr v \<Rightarrow> make_serializable v | Inl _ \<Rightarrow> VNone)"
    "\<exists>w2. app w2 = app w \<and> res = fst (dep w2) \<and> app w' = app (snd (dep w2))"
    "\<exists>s. collected_stubs (ctx_at w' r) = collected_stubs (ctx_at w r) @ [s]"
proof -
  have v: "valid_ref w r" "current w = Some r" "mode (ctx_at w r) = RECORD" "stub_dir (ctx_at w r) = Some dir"
    using w by (simp_all add: session_ctx_def)
  define k where "k = capture_name label"
  define n where "n = ordinals_at w r k"
  let ?w1 = "snd (next_ordinal_at r k w)"
  let ?h0 = "\<lparr>h_label = label, h_ordinal = n, h_ctx = r, h_result = VNone, h_result_set = False,
               h_replaying = False\<rparr>"
  obtain x w2 where dep: "dep ?w1 = (x, w2)" by fastforce
  define h where "h = (case x of Inr v \<Rightarrow> set_result v ?h0 | Inl _ \<Rightarrow> ?h0)"
  have entry: "capture_setup (sim_capture_init label) w =
      (Inr (?h0, \<lparr>cap_label = label, cap_entered = True, cap_ctx = Some r, cap_ordinal = n\<rparr>), ?w1)"
    using v by (simp add: capture_setup_active is_active_def capture_handle_init_def is_replaying_def k_def n_def Let_def)
  have blk: "captured_block dep ?h0 ?w1 = (x, h, w2)"
    by (cases x) (simp_all add: captured_block_def dep h_def handle_result_def set_result_def)
  have c2: "ctx_at w2 r = ctx_at ?w1 r" "valid_ref w2 r" "current w2 = Some r" "files w2 = files w"
    using quietD [OF q dep] same_contexts [of w2 ?w1 r] v by simp_all
  define w3 where "w3 = (if h_result_set h then w2 else add_log (NoResultWarning label) w2)"
  define w4 where "w4 = push_stub r (capture_data label n (h_result h)) w3"
  have c3: "ctx_at w3 r = ctx_at ?w1 r" "valid_ref w3 r" "current w3 = Some r" "files w3 = files w" "app w3 = app w2"
    using c2 by (simp_all add: w3_def)
  let ?doc = "plain_json (capture_data label n (h_result h))"
  have "capture_teardown emit \<lparr>cap_label = label, cap_entered = True, cap_ctx = Some r, cap_ordinal = n\<rparr> h w2 =
    (Inr (), w4\<lparr>files := (files w4)(capture_path dir label n \<mapsto> ?doc)\<rparr>)"
    using v w(2) c2 by (intro capture_teardown_recording [OF _ _ _ _ w3_def w4_def]) simp_all
  then have fin: "res = x" "w' = w4\<lparr>files := (files w4)(capture_path dir label n \<mapsto> ?doc)\<rparr>"
    using run by (simp_all add: with_capture_def entry blk)
  show ?thesis
  proof (rule that [of ?doc])
    show "stored_result ?doc = (case res of Inr v \<Rightarrow> make_serializable v | Inl _ \<Rightarrow> VNone)"
      by (cases x) (simp_all add: fin(1) h_def set_result_def)
    show "\<exists>w2. app w2 = app w \<and> res = fst (dep w2) \<and> app w' = app (snd (dep w2))"
      using dep fin c3(5) by (intro exI [of _ ?w1]) (simp add: w4_def)
  qed (use v w c3 fin in \<open>simp_all add: w4_def session_ctx_def ordinals_at_def k_def n_def\<close>)
qed

lemma capture_replay_step:
  assumes w: "session_ctx REPLAY dir r w"
  obtains w' where "with_capture emit label (captured_block dep) w =
      (case files w (capture_path dir label (ordinals_at w r (capture_name label))) of
         None \<Rightarrow> Inl (SimStubMissError (capture_name label) [] (ordinals_at w r (capture_name label)) (Some dir))
       | Some doc \<Rightarrow> Inr (stored_result doc), w')"
    "session_ctx REPLAY dir r w'" "files w' = files w" "app w' = app w"
    "ordinals_at w' r =
      (ordinals_at w r)(capture_name label := ordinals_at w r (capture_name label) + 1)"
proof -
  have v: "valid_ref w r" "current w = Some r" "mode (ctx_at w r) = REPLAY" "stub_dir (ctx_at w r) = Some dir"
    using w by (simp_all add: session_ctx_def)
  define k where "k = capture_name label"
  define n where "n = ordinals_at w r k"
  let ?w1 = "snd (next_ordinal_at r k w)"
  have entry: "capture_setup (sim_capture_init label) w =
     (case files w (capture_path dir label n) of
         None \<Rightarrow> (Inl (SimStubMissError k [] n (Some dir)), ?w1)
       | Some doc \<Rightarrow> (Inr (\<lparr>h_label = label, h_ordinal = n, h_ctx = r, h_result = stored_result doc,
           h_result_set = True, h_replaying = True\<rparr>,
           \<lparr>cap_label = label, cap_entered = True, cap_ctx = Some r, cap_ordinal = n\<rparr>), ?w1))"
    using v by (simp add: capture_setup_active is_active_def capture_handle_init_def is_replaying_def k_def n_def
        load_recorded_def read_capture_def capture_path_def stored_result_def Let_def split: option.split)
  show ?thesis
  proof (cases "files w (capture_path dir label n)")
    case None
    then show ?thesis
      using v w by (intro that [of ?w1]) (simp_all add: with_capture_def entry k_def n_def)
  next
    case (Some doc)
    let ?w2 = "push_stub r (capture_replay_stub label n (stored_result doc)) ?w1"
    show ?thesis
      using v w Some
      by (intro that [of ?w2])
        (simp_all add: with_capture_def entry captured_block_def capture_teardown_def mode_simps
          handle_result_def k_def n_def session_ctx_def ordinals_at_def)
  qed
qed

subsection \<open>Sessions of captured blocks\<close>

fun capture_prog ::
  "(nat \<Rightarrow> fixture_event \<Rightarrow> ('a, unit) prog) \<Rightarrow> string \<times> ('a, pyval) prog \<Rightarrow> ('a, pyval) prog" where
  "capture_prog emit (label, dep) = with_capture emit label (captured_block dep)"

definition came_back :: "py_exn + pyval \<Rightarrow> pyval" where
  "came_back res = (case res of Inr v \<Rightarrow> make_serializable v | Inl _ \<Rightarrow> VNone)"

lemma capture_record_session:
  assumes "session_ctx RECORD dir r w" "sink (ctx_at w r) = None" "list_all (quiet \<circ> snd) cs"
    and "run_all (map (capture_prog emit) cs) w = (results, w')"
  shows "\<exists>docs. length docs = length cs \<and> map stored_result docs = map came_back results \<and>
    files w' = record_run capture_name (capture_path dir) (zip (map fst cs) (map Some docs)) (ordinals_at w r) (files w)"
  using assms
proof (induction cs arbitrary: w results)
  case (Cons c cs)
  obtain label dep where c: "c = (label, dep)" by fastforce
  obtain x w1 where x: "with_capture emit label (captured_block dep) w = (x, w1)" by fastforce
  obtain xs w2 where xs: "run_all (map (capture_prog emit) cs) w1 = (xs, w2)" by fastforce
  have res: "results = x # xs" "w' = w2" using Cons.prems(4) by (simp_all add: c x xs)
  have q: "quiet dep" "list_all (quiet \<circ> snd) cs" using Cons.prems(3) by (simp_all add: c comp_def)
  obtain doc where doc: "session_ctx RECORD dir r w1" "sink (ctx_at w1 r) = None"
    "ordinals_at w1 r =
      (ordinals_at w r)(capture_name label := ordinals_at w r (capture_name label) + 1)"
    "files w1 = (files w)(capture_path dir label (ordinals_at w r (capture_name label)) \<mapsto> doc)"
    "stored_result doc = came_back x"
    using capture_record_step [OF Cons.prems(1,2) q(1) x] unfolding came_back_def by metis
  obtain docs where "length docs = length cs" "map stored_result docs = map came_back xs"
    "files w2 = record_run capture_name (capture_path dir) (zip (map fst cs) (map Some docs)) (ordinals_at w1 r) (files w1)"
    using Cons.IH [OF doc(1,2) q(2) xs [folded res(2)]] by (auto simp: res)
  then show ?case
    using doc by (intro exI [of _ "doc # docs"]) (simp add: res c)
qed simp

lemma capture_replay_session:
  assumes "session_ctx REPLAY dir r w"
    and "replay_run capture_name (capture_path dir) (map fst cs) (ordinals_at w r) (files w) = map Some docs"
  shows "fst (run_all (map (capture_prog emit) cs) w) = map (Inr \<circ> stored_result) docs"
  using assms
proof (induction cs arbitrary: w docs)
  case (Cons c cs)
  obtain label dep where c: "c = (label, dep)" by fastforce
  obtain d ds where d: "docs = d # ds"
    "files w (capture_path dir label (ordinals_at w r (capture_name label))) = Some d"
    using Cons.prems(2) by (auto simp: Cons_eq_map_conv c)
  obtain w1 where w1: "with_capture emit label (captured_block dep) w =
      (case files w (capture_path dir label (ordinals_at w r (capture_name label))) of
         None \<Rightarrow> Inl (SimStubMissError (capture_name label) [] (ordinals_at w r (capture_name label)) (Some dir))
       | Some doc \<Rightarrow> Inr (stored_result doc), w1)"
    "session_ctx REPLAY dir r w1" "files w1 = files w"
    "ordinals_at w1 r = (ordinals_at w r)(capture_name label := ordinals_at w r (capture_name label) + 1)"
    by (rule capture_replay_step [OF Cons.prems(1), of emit label dep])
  have "fst (run_all (map (capture_prog emit) cs) w1) = map (Inr \<circ> stored_result) ds"
    using Cons.prems(2) w1 d by (intro Cons.IH [OF w1(2)]) (simp add: c del: fun_upd_apply)
  then show ?case by (simp add: c w1(1) d case_prod_unfold)
qed simp

subsection \<open>Properties\<close>

text \<open>
  C8: captures round-trip. Record a session of captured blocks into a stub directory and replay
  the same labels there: every block gets, without running its dependency, the serialised form
  of the value its dependency returned, in order, also when a label repeats with different
  values; a block whose dependency raised comes back as \<open>None\<close>. The labels must not become equal
  by replacing dots, slashes and blanks by underscores.
\<close>

theorem capture_record_replay:
  assumes "session_ctx RECORD dir r w" "sink (ctx_at w r) = None" "list_all (quiet \<circ> snd) cs"
    and "separated capture_name safe_label (set (map fst cs))"
    and "run_all (map (capture_prog emit) cs) w = (results, w1)"
    and "session_ctx REPLAY dir s v" "files v = files w1" "ordinals_at v s = ordinals_at w r"
  shows "fst (run_all (map (capture_prog emit') (map (\<lambda>(l, d). (l, deps l)) cs)) v) =
    map (Inr \<circ> came_back) results"
proof -
  obtain docs where docs: "length docs = length cs" "map stored_result docs = map came_back results"
    "files w1 = record_run capture_name (capture_path dir) (zip (map fst cs) (map Some docs)) (ordinals_at w r) (files w)"
    using capture_record_session [OF assms(1-3,5)] by blast
  have "replay_run capture_name (capture_path dir) (map fst cs) (ordinals_at v s) (files v) = map Some docs"
    using capture_store.replay_of_full_record [of "map fst cs" docs dir "ordinals_at w r" "files w"]
      docs assms(4,7,8) by (simp add: list_all_iff)
  moreover have "map fst (map (\<lambda>(l, d). (l, deps l)) cs) = map fst cs" by (induction cs) auto
  ultimately have "fst (run_all (map (capture_prog emit') (map (\<lambda>(l, d). (l, deps l)) cs)) v) =
      map (Inr \<circ> stored_result) docs"
    by (intro capture_replay_session [OF assms(6)]) (simp only:)
  then show ?thesis using docs(2) by (simp flip: map_map)
qed

definition failing :: "('a, pyval) prog" where
  "failing w = (Inl (UserExn ''Boom'' []), w)"

definition answering :: "pyval \<Rightarrow> ('a, pyval) prog" where
  "answering v w = (Inr v, w)"

lemma answering_step:
  assumes "session_ctx RECORD dir r w" "sink (ctx_at w r) = None"
  obtains w1 where "with_capture emit label (captured_block (answering v)) w = (Inr v, w1)"
    "session_ctx RECORD dir r w1" "sink (ctx_at w1 r) = None"
proof -
  obtain x w1 where x: "with_capture emit label (captured_block (answering v)) w = (x, w1)" by fastforce
  have q: "quiet (answering v)" by (simp add: quiet_def answering_def)
  obtain doc where "session_ctx RECORD dir r w1" "sink (ctx_at w1 r) = None"
    "\<exists>w2. app w2 = app w \<and> x = fst (answering v w2) \<and> app w1 = app (snd (answering v w2))"
    by (rule capture_record_step [OF assms q x])
  with that x show ?thesis by (auto simp: answering_def)
qed

theorem capture_record_replay_witness:
  "fst (run_all (map (capture_prog (\<lambda>_ _ w. (Inr (), w)))
       [(''rate'', failing), (''rate'', failing)])
     (session_world REPLAY None (files (snd (run_all (map (capture_prog (\<lambda>_ _ w. (Inr (), w)))
        [(''rate'', answering (VInt 1)), (''rate'', answering (VTuple []))])
        (session_world RECORD None (\<lambda>_. None) ())))) ())) =
   [Inr (VInt 1), Inr (VList [])]"
proof -
  let ?e = "\<lambda>_ _ w. (Inr (), w)" and ?cs = "[(''rate'', answering (VInt 1)), (''rate'', answering (VTuple []))] :: (string \<times> (unit, pyval) prog) list"
  let ?w = "session_world RECORD None (\<lambda>_. None) ()"
  have q: "list_all (quiet \<circ> snd) ?cs" by (simp add: quiet_def answering_def)
  have sep: "separated capture_name safe_label (set (map fst ?cs))" by (simp add: separated_def)
  have results: "fst (run_all (map (capture_prog ?e) ?cs) ?w) = [Inr (VInt 1), Inr (VTuple [])]"
  proof -
    obtain w1 where 1: "with_capture ?e ''rate'' (captured_block (answering (VInt 1))) ?w = (Inr (VInt 1), w1)"
      "session_ctx RECORD [''stubs''] 0 w1" "sink (ctx_at w1 0) = None"
      by (rule answering_step [OF session_world_ctx(1,2)])
    obtain w2 where 2: "with_capture ?e ''rate'' (captured_block (answering (VTuple []))) w1 = (Inr (VTuple []), w2)"
      by (rule answering_step [OF 1(2,3)])
    show ?thesis by (simp add: 1(1) 2)
  qed
  let ?v = "session_world REPLAY None (files (snd (run_all (map (capture_prog ?e) ?cs) ?w))) ()"
  have "fst (run_all (map (capture_prog ?e) (map (\<lambda>(l, d). (l, failing)) ?cs)) ?v) =
      map (Inr \<circ> came_back) (fst (run_all (map (capture_prog ?e) ?cs) ?w))"
    by (rule capture_record_replay [OF session_world_ctx(1,2) q sep surjective_pairing session_world_ctx(1)])
      (simp_all only: session_world_ctx)
  also have "\<dots> = [Inr (VInt 1), Inr (VList [])]"
    unfolding results by (simp add: came_back_def)
  finally show ?thesis by simp
qed

text \<open>
  Off mode leaves the block alone. With the context off, the \<open>with\<close> statement runs the block
  once with an inert handle (not replaying, no result) and does nothing else: no ordinal, no
  stub, no event, no file; the block's result or exception is the statement's.
\<close>

theorem capture_off_is_passthrough:
  assumes "get_context w = (r, w0)" "mode (ctx_at w0 r) = OFF"
  shows "\<exists>h. h_replaying h = False \<and> h_result h = VNone \<and>
    with_capture emit label block w = (let (x, h', w') = block h w0 in (x, w'))"
proof -
  let ?h = "\<lparr>h_label = label, h_ordinal = 0, h_ctx = r, h_result = VNone, h_result_set = False,
    h_replaying = False\<rparr>"
  have "capture_setup (sim_capture_init label) w =
      (Inr (?h, (sim_capture_init label)\<lparr>cap_ctx := Some r\<rparr>), w0)"
    using assms by (simp add: capture_setup_def is_active_def capture_handle_init_def is_replaying_def
        sim_capture_init_def)
  then have "with_capture emit label block w = (let (x, h', w') = block ?h w0 in (x, w'))"
    by (simp add: with_capture_def capture_teardown_def sim_capture_init_def case_prod_unfold)
  then show ?thesis by (intro exI [of _ ?h]) simp
qed

theorem capture_off_is_passthrough_witness:
  "fst (with_capture (\<lambda>_ _ w. (Inr (), w)) ''rate'' (captured_block (answering (VInt 4)))
     (session_world OFF None (\<lambda>_. None) ())) = Inr (VInt 4)"
proof -
  let ?w = "session_world OFF None (\<lambda>_. None) ()"
  have g: "get_context ?w = (0, ?w)" by (simp add: session_world_parts)
  obtain h where h: "h_replaying h = False"
    "with_capture (\<lambda>_ _ w. (Inr (), w)) ''rate'' (captured_block (answering (VInt 4))) ?w =
      (let (x, h', w') = captured_block (answering (VInt 4)) h ?w in (x, w'))"
    using capture_off_is_passthrough [OF g session_world_parts(3)] by blast
  show ?thesis
    unfolding h(2) by (simp add: captured_block_def h(1) answering_def handle_result_def set_result_def)
qed

text \<open>
  Labels that differ only in dots, slashes and blanks overwrite each other. Capturing two
  such labels, both for the first time, leaves one file; replaying the first label gives the
  value of the second.
\<close>

theorem capture_labels_collide:
  assumes "session_ctx RECORD dir r w" "sink (ctx_at w r) = None"
    and "safe_label a = safe_label b" "a \<noteq> b"
    and "ordinals_at w r (capture_name a) = 0" "ordinals_at w r (capture_name b) = 0"
    and "with_capture emit a (captured_block (answering x)) w = (res1, w1)"
    and "with_capture emit b (captured_block (answering y)) w1 = (res2, w2)"
    and "session_ctx REPLAY dir s v" "files v = files w2" "ordinals_at v s (capture_name a) = 0"
  shows "fst (with_capture emit a (captured_block dep) v) = Inr (make_serializable y)"
proof -
  have q: "quiet (answering z)" for z by (simp add: quiet_def answering_def)
  obtain doc1 where 1: "session_ctx RECORD dir r w1" "sink (ctx_at w1 r) = None"
    "ordinals_at w1 r = (ordinals_at w r)(capture_name a := ordinals_at w r (capture_name a) + 1)"
    by (rule capture_record_step [OF assms(1,2) q assms(7)])
  obtain doc2 where 2: "files w2 = (files w1)(capture_path dir b (ordinals_at w1 r (capture_name b)) \<mapsto> doc2)"
    "stored_result doc2 = (case res2 of Inr v \<Rightarrow> make_serializable v | Inl _ \<Rightarrow> VNone)"
    "\<exists>u. app u = app w1 \<and> res2 = fst (answering y u) \<and> app w2 = app (snd (answering y u))"
    by (rule capture_record_step [OF 1(1,2) q assms(8)])
  have "ordinals_at w1 r (capture_name b) = 0" using 1(3) assms(4,6) by (simp add: capture_name_def)
  moreover have "capture_path dir b 0 = capture_path dir a 0"
    by (simp add: capture_path_def capture_key_def assms(3))
  ultimately have "files v (capture_path dir a 0) = Some doc2" "stored_result doc2 = make_serializable y"
    using 2 assms(10) by (auto simp: answering_def)
  then show ?thesis
    using capture_replay_step [OF assms(9), of emit a dep] assms(11) by (metis fst_conv option.simps(5))
qed

theorem capture_labels_collide_witness:
  "fst (with_capture (\<lambda>_ _ w. (Inr (), w)) ''a.b'' (captured_block failing)
     (session_world REPLAY None (files (snd (with_capture (\<lambda>_ _ w. (Inr (), w)) ''a_b''
        (captured_block (answering (VInt 2)))
        (snd (with_capture (\<lambda>_ _ w. (Inr (), w)) ''a.b'' (captured_block (answering (VInt 1)))
           (session_world RECORD None (\<lambda>_. None) ())))))) ())) = Inr (VInt 2)"
proof -
  let ?e = "\<lambda>_ _ w. (Inr (), w)" and ?w = "session_world RECORD None (\<lambda>_. None) ()"
  let ?w1 = "snd (with_capture ?e ''a.b'' (captured_block (answering (VInt 1))) ?w)"
  let ?w2 = "snd (with_capture ?e ''a_b'' (captured_block (answering (VInt 2))) ?w1)"
  have same: "safe_label ''a.b'' = safe_label ''a_b''" by (simp add: safe_label_def replace_char_def)
  have "fst (with_capture ?e ''a.b'' (captured_block failing) (session_world REPLAY None (files ?w2) ())) =
      Inr (make_serializable (VInt 2))"
    by (rule capture_labels_collide [OF session_world_ctx(1,2) same _ _ _ surjective_pairing surjective_pairing
          session_world_ctx(1)])
      (simp_all only: session_world_ctx, simp)
  then show ?thesis by simp
qed

text \<open>
  A capture emitted through a sink is not in the form the replay reads. The event carries the
  value under \<open>output\<close>; if a sink stores the event's dictionary under the event's own storage
  key, the replay finds the file, finds no \<open>result\<close> in it, and returns \<open>None\<close> for every value.
\<close>

theorem sink_capture_replays_none:
  assumes "session_ctx REPLAY dir r w"
    and "e = capture_event fid run date label (ordinals_at w r (capture_name label)) v"
    and "ev_storage_key e = Some key"
    and "files w (path_join dir key) = Some (plain_json (to_dict e))"
  shows "fst (with_capture emit label (captured_block dep) w) = Inr VNone"
proof -
  have pl: "plain (to_dict e)"
    by (rule to_dict_plain)
      (simp_all add: assms(2) capture_event_def fixture_event_init_def make_serializable_plain_lemma)
  have "key = capture_key label (ordinals_at w r (capture_name label))"
    using assms(2,3) by (simp add: capture_event_def)
  then have f: "files w (capture_path dir label (ordinals_at w r (capture_name label))) =
      Some (plain_json (to_dict e))"
    using assms(4) by (simp add: capture_path_def)
  have none: "stored_result (plain_json (to_dict e)) = VNone"
    by (simp add: stored_result_def py_of_plain_json [OF pl] del: plain_json.simps)
      (simp add: get_field_def to_dict_def)
  obtain w' where run: "with_capture emit label (captured_block dep) w =
      (case files w (capture_path dir label (ordinals_at w r (capture_name label))) of
         None \<Rightarrow> Inl (SimStubMissError (capture_name label) [] (ordinals_at w r (capture_name label)) (Some dir))
       | Some doc \<Rightarrow> Inr (stored_result doc), w')"
    by (rule capture_replay_step [OF assms(1), of emit label dep])
  show ?thesis by (simp add: run f none)
qed

theorem sink_capture_replays_none_witness:
  "fst (with_capture (\<lambda>_ _ w. (Inr (), w)) ''rate'' (captured_block failing)
     (session_world REPLAY None (\<lambda>_. Some (plain_json (to_dict
        (capture_event ''1'' ''run'' ''now'' ''rate'' 0 (VInt 4))))) ())) = Inr VNone"
  by (rule sink_capture_replays_none [OF session_world_ctx(1), where v = "VInt 4"])
    (simp_all only: session_world_ctx, simp_all add: capture_event_def)

end
