(* ===== verification/Sql.thy ===== *)
theory Sql
  imports Canonical
begin

text \<open>
  SQL normalisation and fingerprints (sim_sdk/canonical.py) and write detection (sim_sdk/db.py).

  The regular expressions of \<open>_normalize_sql_basic\<close> are written out as the left-to-right scans
  \<open>re.sub\<close> performs. The optional sqlparse package is an argument: its \<open>parse\<close> (is the result
  non-empty) and its \<open>format\<close> with the options the code passes.
\<close>

subsection \<open>The substitutions of \<open>_normalize_sql_basic\<close>\<close>

lemma dropWhile_shorter [termination_simp]:
  "length (dropWhile P xs) < Suc (length xs)"
  "length (dropWhile P xs) < Suc (Suc (length xs))"
  using length_dropWhile_le [of P xs] by simp_all

text \<open>\<open>re.sub(r'--[^\n]*', '', s)\<close>\<close>

fun drop_line_comments :: "string \<Rightarrow> string" where
  "drop_line_comments (c # d # cs) =
     (if c = CHR ''-'' \<and> d = CHR ''-'' then drop_line_comments (dropWhile (\<lambda>x. x \<noteq> CHR 0x0A) cs)
      else c # drop_line_comments (d # cs))"
| "drop_line_comments s = s"

text \<open>\<open>re.sub(r'/\*.*?\*/', '', s, flags=re.DOTALL)\<close>\<close>

fun after_close :: "string \<Rightarrow> string option" where
  "after_close (c # d # cs) =
     (if c = CHR ''*'' \<and> d = CHR ''/'' then Some cs else after_close (d # cs))"
| "after_close s = None"

lemma after_close_length: "after_close s = Some t \<Longrightarrow> length t < length s"
  by (induction s rule: after_close.induct) (auto split: if_splits)

function drop_block_comments :: "string \<Rightarrow> string" where
  "drop_block_comments [] = []"
| "drop_block_comments (c # cs) =
     (if c = CHR ''/'' \<and> cs \<noteq> [] \<and> hd cs = CHR ''*'' then
        (case after_close (tl cs) of
           Some t \<Rightarrow> drop_block_comments t
         | None \<Rightarrow> c # drop_block_comments cs)
      else c # drop_block_comments cs)"
  by pat_completeness auto
termination
  by (relation "measure length") (auto dest!: after_close_length simp: less_Suc_eq)

text \<open>\<open>re.sub(r'\s+', ' ', s)\<close>\<close>

fun collapse_ws :: "string \<Rightarrow> string" where
  "collapse_ws [] = []"
| "collapse_ws (c # cs) =
     (if py_isspace c then CHR '' '' # collapse_ws (dropWhile py_isspace cs)
      else c # collapse_ws cs)"

text \<open>\<open>re.sub(r'\s*' + re.escape(op) + r'\s*', op, s)\<close> for an operator without blanks.\<close>

function squeeze_op :: "string \<Rightarrow> string \<Rightarrow> string" where
  "squeeze_op op [] = []"
| "squeeze_op op (c # cs) =
     (let r = dropWhile py_isspace (c # cs) in
      if op \<noteq> [] \<and> prefix op r then op @ squeeze_op op (dropWhile py_isspace (drop (length op) r))
      else c # squeeze_op op cs)"
  by pat_completeness auto
termination
proof (relation "measure (\<lambda>(op, s). length s)", goal_cases)
  case (2 op c cs r)
  have "length (dropWhile py_isspace (drop (length op) r)) \<le> length (drop (length op) r)"
    by (rule length_dropWhile_le)
  also have "\<dots> < length r"
  proof -
    have "r \<noteq> []" using 2(2) by (auto simp flip: 2(1))
    then show ?thesis using 2(2) by simp
  qed
  also have "\<dots> \<le> length (c # cs)" unfolding 2(1) by (rule length_dropWhile_le)
  finally show ?case by simp
qed auto

text \<open>\<open>s.replace(op, new)\<close> for a non-empty \<open>op\<close>.\<close>

function replace_str :: "string \<Rightarrow> string \<Rightarrow> string \<Rightarrow> string" where
  "replace_str op new [] = []"
| "replace_str op new (c # cs) =
     (if op \<noteq> [] \<and> prefix op (c # cs) then new @ replace_str op new (drop (length op) (c # cs))
      else c # replace_str op new cs)"
  by pat_completeness auto
termination
  by (relation "measure (\<lambda>(op, new, s). length s)") (auto simp: Suc_le_eq)

definition space_op :: "string \<Rightarrow> string \<Rightarrow> string" where
  "space_op op s = replace_str op ('' '' @ op @ '' '') (squeeze_op op s)"

definition sql_operators :: "string list" where
  "sql_operators = [''='', ''!='', ''<='', ''>='', ''<'', ''>'']"

text \<open>\<open>\w\<close> on U+0000 to U+00FF.\<close>

definition is_word_char :: "char \<Rightarrow> bool" where
  "is_word_char c \<longleftrightarrow>
     (let n = code_point c in
      is_digit c \<or> (65 \<le> n \<and> n \<le> 90) \<or> (97 \<le> n \<and> n \<le> 122) \<or> n = 95 \<or>
      n \<in> set [170, 178, 179, 181, 185, 186, 188, 189, 190] \<or>
      (192 \<le> n \<and> n \<noteq> 215 \<and> n \<noteq> 247))"

text \<open>
  \<open>re.sub(r'\b' + kw + r'\b', kw, s, flags=re.IGNORECASE)\<close> for a keyword of capital letters;
  \<open>inside\<close> says whether the character before is a word character.
\<close>

definition keyword_here :: "string \<Rightarrow> string \<Rightarrow> bool" where
  "keyword_here kw s \<longleftrightarrow> map ascii_upper (take (length kw) s) = kw \<and>
     (case drop (length kw) s of [] \<Rightarrow> True | d # _ \<Rightarrow> \<not> is_word_char d)"

function upper_keyword :: "string \<Rightarrow> bool \<Rightarrow> string \<Rightarrow> string" where
  "upper_keyword kw inside [] = []"
| "upper_keyword kw inside (c # cs) =
     (if kw \<noteq> [] \<and> \<not> inside \<and> keyword_here kw (c # cs)
      then kw @ upper_keyword kw True (drop (length kw) (c # cs))
      else c # upper_keyword kw (is_word_char c) cs)"
  by pat_completeness auto
termination
  by (relation "measure (\<lambda>(kw, b, s). length s)") (auto simp: Suc_le_eq)

definition sql_keywords :: "string list" where
  "sql_keywords =
     [''SELECT'', ''FROM'', ''WHERE'', ''AND'', ''OR'', ''NOT'', ''IN'', ''LIKE'',
      ''INSERT'', ''INTO'', ''VALUES'', ''UPDATE'', ''SET'', ''DELETE'',
      ''JOIN'', ''LEFT'', ''RIGHT'', ''INNER'', ''OUTER'', ''ON'', ''AS'',
      ''ORDER'', ''BY'', ''GROUP'', ''HAVING'', ''LIMIT'', ''OFFSET'',
      ''CREATE'', ''TABLE'', ''DROP'', ''ALTER'', ''ADD'', ''COLUMN'',
      ''PRIMARY'', ''KEY'', ''FOREIGN'', ''REFERENCES'', ''INDEX'',
      ''DISTINCT'', ''COUNT'', ''SUM'', ''AVG'', ''MAX'', ''MIN'',
      ''CASE'', ''WHEN'', ''THEN'', ''ELSE'', ''END'', ''NULL'', ''IS'']"

definition normalize_sql_basic :: "string \<Rightarrow> bool \<Rightarrow> string" where
  "normalize_sql_basic query strip_comments =
     (let q1 = (if strip_comments then drop_block_comments (drop_line_comments query) else query);
          q2 = collapse_ws q1;
          q3 = fold space_op sql_operators q2;
          q4 = collapse_ws q3;
          q5 = fold (\<lambda>kw. upper_keyword kw False) sql_keywords q4
      in strip q5)"

subsection \<open>Normalisation and fingerprint\<close>

record sql_parser =
  parse_nonempty :: "string \<Rightarrow> bool"
  format_sql :: "string \<Rightarrow> bool \<Rightarrow> string"

definition normalize_sql_with_parser :: "sql_parser \<Rightarrow> string \<Rightarrow> bool \<Rightarrow> string" where
  "normalize_sql_with_parser p query strip_comments =
     (if \<not> parse_nonempty p query then strip query
      else strip (collapse_ws (format_sql p query strip_comments)))"

definition normalize_sql :: "sql_parser option \<Rightarrow> string \<Rightarrow> bool \<Rightarrow> string" where
  "normalize_sql sqlparse query strip_comments =
     (if query = [] then query
      else (case sqlparse of
              Some p \<Rightarrow> normalize_sql_with_parser p query strip_comments
            | None \<Rightarrow> normalize_sql_basic query strip_comments))"

definition fingerprint_sql :: "bool \<Rightarrow> sql_parser option \<Rightarrow> string \<Rightarrow> bool \<Rightarrow> py_exn + string" where
  "fingerprint_sql has_avro sqlparse query strip_comments =
     fingerprint has_avro (VStr (normalize_sql sqlparse query strip_comments))"

subsection \<open>Write detection\<close>

text \<open>
  \<open>s.upper()\<close>. The capitals of U+00B5 and U+00FF lie outside U+00FF; those two characters are
  left as they are, which no comparison below can see.
\<close>

definition upper_char :: "char \<Rightarrow> string" where
  "upper_char c =
     (let n = code_point c in
      if n = 223 then ''SS''
      else if 224 \<le> n \<and> n \<noteq> 247 \<and> n \<noteq> 255 then [char_of (n - 32)]
      else [ascii_upper c])"

definition py_upper :: "string \<Rightarrow> string" where
  "py_upper s = concat (map upper_char s)"

definition write_prefixes :: "string list" where
  "write_prefixes = [''INSERT'', ''UPDATE'', ''DELETE'', ''DROP'', ''ALTER'', ''TRUNCATE'']"

definition is_write_statement :: "string \<Rightarrow> bool" where
  "is_write_statement sql =
     (let normalized = py_upper (strip sql) in
      if prefix ''WITH'' normalized then list_ex (\<lambda>p. sublist p normalized) write_prefixes
      else list_ex (\<lambda>p. prefix p normalized) write_prefixes)"

subsection \<open>Blanks of a normalised query\<close>

text \<open>All white space is single blanks; \<open>b\<close> says whether a blank comes just before.\<close>

fun ws_ok :: "bool \<Rightarrow> string \<Rightarrow> bool" where
  "ws_ok b [] = True"
| "ws_ok b (c # cs) \<longleftrightarrow> (py_isspace c \<longrightarrow> c = CHR '' '' \<and> \<not> b) \<and> ws_ok (py_isspace c) cs"

lemma space_isspace [simp]: "py_isspace (CHR '' '')"
  by (simp add: py_isspace_def)

lemma ws_ok_collapse: "(b \<longrightarrow> s = [] \<or> \<not> py_isspace (hd s)) \<Longrightarrow> ws_ok b (collapse_ws s)"
proof (induction s arbitrary: b rule: collapse_ws.induct)
  case (2 c cs)
  have "dropWhile py_isspace cs = [] \<or> \<not> py_isspace (hd (dropWhile py_isspace cs))"
    using hd_dropWhile by blast
  then show ?case using 2 by auto
qed simp

text \<open>A keyword substitution changes no white space.\<close>

definition same_ws :: "char \<Rightarrow> char \<Rightarrow> bool" where
  "same_ws c d \<longleftrightarrow> py_isspace d = py_isspace c \<and> (py_isspace c \<longrightarrow> d = c)"

lemma same_ws_self [simp]: "same_ws c c"
  by (simp add: same_ws_def)

lemma ws_ok_same: "list_all2 same_ws s t \<Longrightarrow> ws_ok b t = ws_ok b s"
  by (induction s t arbitrary: b rule: list_all2_induct) (auto simp: same_ws_def)

lemma same_ws_refl: "list_all2 same_ws s s"
  by (induction s) (auto simp: same_ws_def)

lemma same_ws_trans: "list_all2 same_ws s t \<Longrightarrow> list_all2 same_ws t u \<Longrightarrow> list_all2 same_ws s u"
  by (rule list_all2_trans [of same_ws same_ws same_ws]) (auto simp: same_ws_def)

lemma py_isspace_ascii_upper: "same_ws c (ascii_upper c)"
proof (cases "97 \<le> code_point c \<and> code_point c \<le> 122")
  case True
  then have u: "code_point (ascii_upper c) = code_point c - 32"
    by (auto simp: ascii_upper_def intro: mod_less)
  then have "\<not> py_isspace (ascii_upper c)" "\<not> py_isspace c"
    using True unfolding py_isspace_def u by auto
  then show ?thesis by (simp add: same_ws_def)
next
  case False
  then show ?thesis by (auto simp: ascii_upper_def same_ws_def)
qed

lemma same_ws_upper: "list_all2 same_ws s (map ascii_upper s)"
  by (induction s) (simp_all add: py_isspace_ascii_upper)

lemma upper_keyword_same: "list_all2 same_ws s (upper_keyword kw inside s)"
proof (induction kw inside s rule: upper_keyword.induct)
  case (2 kw inside c cs)
  show ?case
  proof (cases "kw \<noteq> [] \<and> \<not> inside \<and> keyword_here kw (c # cs)")
    case True
    then have kw: "kw = map ascii_upper (take (length kw) (c # cs))" by (simp add: keyword_here_def)
    have "list_all2 same_ws (take (length kw) (c # cs) @ drop (length kw) (c # cs))
        (map ascii_upper (take (length kw) (c # cs)) @ upper_keyword kw True (drop (length kw) (c # cs)))"
      using 2(1) [OF True] by (intro list_all2_appendI same_ws_upper)
    then show ?thesis using True by (simp flip: kw)
  next
    case False
    have "list_all2 same_ws (c # cs) (c # upper_keyword kw (is_word_char c) cs)"
      using 2(2) [OF False] by simp
    then show ?thesis by (simp only: upper_keyword.simps False if_False)
  qed
qed simp

lemma upper_keywords_same: "list_all2 same_ws s (fold (\<lambda>kw. upper_keyword kw False) kws s)"
proof (induction kws arbitrary: s)
  case (Cons kw kws)
  show ?case using same_ws_trans [OF upper_keyword_same Cons] by simp
qed (simp add: same_ws_refl)

text \<open>Stripping.\<close>

lemma ws_ok_mono: "ws_ok b s \<Longrightarrow> ws_ok False s"
  by (cases s) auto

lemma ws_ok_dropWhile: "ws_ok b s \<Longrightarrow> ws_ok False (dropWhile P s)"
  by (induction s arbitrary: b) (auto dest: ws_ok_mono)

lemma ws_ok_append: "ws_ok b (s @ t) \<Longrightarrow> ws_ok b s"
  by (induction s arbitrary: b) auto

lemma rstrip_append: "\<exists>t. s = rstrip s @ t"
proof
  show "s = rstrip s @ rev (takeWhile py_isspace (rev s))"
    unfolding rstrip_def by (metis rev_append rev_rev_ident takeWhile_dropWhile_id)
qed

lemma strip_ends:
  assumes "strip s \<noteq> []"
  shows "\<not> py_isspace (hd (strip s))" "\<not> py_isspace (last (strip s))"
proof -
  obtain t where t: "lstrip s = strip s @ t"
    using rstrip_append [of "lstrip s"] by (auto simp: strip_def)
  then have hd: "hd (lstrip s) = hd (strip s)" using assms by (simp add: hd_append)
  have "dropWhile py_isspace s \<noteq> []" using t assms by (auto simp: lstrip_def)
  then have "\<not> py_isspace (hd (dropWhile py_isspace s))" by (rule hd_dropWhile)
  then show "\<not> py_isspace (hd (strip s))" by (simp flip: hd lstrip_def)
  have "dropWhile py_isspace (rev (lstrip s)) \<noteq> []"
    using assms by (auto simp: strip_def rstrip_def)
  then have "\<not> py_isspace (hd (dropWhile py_isspace (rev (lstrip s))))" by (rule hd_dropWhile)
  then show "\<not> py_isspace (last (strip s))"
    by (simp add: strip_def rstrip_def last_rev)
qed

lemma ws_ok_strip: "ws_ok b s \<Longrightarrow> ws_ok False (strip s)"
proof -
  assume "ws_ok b s"
  then have "ws_ok False (lstrip s)" by (simp add: lstrip_def ws_ok_dropWhile)
  moreover obtain t where "lstrip s = rstrip (lstrip s) @ t"
    using rstrip_append [of "lstrip s"] by blast
  ultimately show "ws_ok False (strip s)" unfolding strip_def using ws_ok_append by metis
qed

lemma ws_ok_nth:
  "ws_ok b s \<Longrightarrow> i < length s \<Longrightarrow> py_isspace (s ! i) \<Longrightarrow>
    s ! i = CHR '' '' \<and> (Suc i < length s \<longrightarrow> \<not> py_isspace (s ! Suc i))"
proof (induction s arbitrary: b i)
  case (Cons c cs)
  show ?case
  proof (cases i)
    case 0
    then show ?thesis using Cons.prems by (cases cs) auto
  next
    case (Suc j)
    then show ?thesis using Cons.IH [of "py_isspace c" j] Cons.prems by simp
  qed
qed simp

definition single_spaced :: "string \<Rightarrow> bool" where
  "single_spaced s \<longleftrightarrow> (\<forall>i < length s. py_isspace (s ! i) \<longrightarrow>
     s ! i = CHR '' '' \<and> 0 < i \<and> Suc i < length s \<and> \<not> py_isspace (s ! Suc i))"

lemma single_spaced_strip:
  assumes "ws_ok b s"
  shows "single_spaced (strip s)"
  unfolding single_spaced_def
proof (intro allI impI)
  let ?t = "strip s"
  fix i assume i: "i < length ?t" "py_isspace (?t ! i)"
  then have ne: "?t \<noteq> []" by auto
  have ws: "?t ! i = CHR '' '' \<and> (Suc i < length ?t \<longrightarrow> \<not> py_isspace (?t ! Suc i))"
    using ws_ok_nth [OF ws_ok_strip [OF assms] i] .
  have "i \<noteq> 0" using i strip_ends(1) [OF ne] ne by (metis hd_conv_nth)
  moreover have "i \<noteq> length ?t - 1" using i strip_ends(2) [OF ne] ne by (metis last_conv_nth)
  ultimately show "?t ! i = CHR '' '' \<and> 0 < i \<and> Suc i < length ?t \<and> \<not> py_isspace (?t ! Suc i)"
    using ws i by linarith
qed

subsection \<open>Properties\<close>

text \<open>
  A normalised query is laid out canonically. Whatever the query, every white-space character
  of its basic normal form is one blank between two other characters; so is that of the form
  sqlparse gives, whenever sqlparse finds a statement.
\<close>

theorem normalized_sql_layout:
  "single_spaced (normalize_sql_basic query strip_comments) \<and>
   (if parse_nonempty p query then single_spaced (normalize_sql_with_parser p query strip_comments)
    else normalize_sql_with_parser p query strip_comments = strip query)"
proof -
  let ?q3 = "fold space_op sql_operators
    (collapse_ws (if strip_comments then drop_block_comments (drop_line_comments query) else query))"
  have "ws_ok False (collapse_ws ?q3)" by (rule ws_ok_collapse) simp
  then have "ws_ok False (fold (\<lambda>kw. upper_keyword kw False) sql_keywords (collapse_ws ?q3))"
    using ws_ok_same [OF upper_keywords_same] by blast
  then have "single_spaced (normalize_sql_basic query strip_comments)"
    unfolding normalize_sql_basic_def Let_def by (rule single_spaced_strip)
  moreover have "ws_ok False (collapse_ws (format_sql p query strip_comments))"
    by (rule ws_ok_collapse) simp
  then have "if parse_nonempty p query then single_spaced (normalize_sql_with_parser p query strip_comments)
    else normalize_sql_with_parser p query strip_comments = strip query"
    by (auto simp: normalize_sql_with_parser_def intro: single_spaced_strip)
  ultimately show ?thesis ..
qed

lemma dropWhile_to_newline:
  "CHR 0x0A \<notin> set c \<Longrightarrow> dropWhile (\<lambda>x. x \<noteq> CHR 0x0A) (c @ CHR 0x0A # b) = CHR 0x0A # b"
  by (auto simp: dropWhile_append)

lemma drop_line_comments_comment:
  assumes "CHR 0x0A \<notin> set c" "a = [] \<or> last a \<noteq> CHR ''-''"
  shows "drop_line_comments (a @ ''--'' @ c @ CHR 0x0A # b) = drop_line_comments (a @ CHR 0x0A # b)"
  using assms
proof (induction a rule: drop_line_comments.induct)
  case (1 x y cs)
  let ?P = "\<lambda>x. x \<noteq> CHR 0x0A"
  show ?case
  proof (cases "x = CHR ''-'' \<and> y = CHR ''-''")
    case True
    show ?thesis
    proof (cases "CHR 0x0A \<in> set cs")
      case nl: True
      have "cs \<noteq> []" using nl by auto
      then have "dropWhile ?P cs = [] \<or> last (dropWhile ?P cs) \<noteq> CHR ''-''"
        using 1(4) by (metis append_Nil2 last.simps last_appendR list.distinct(1) takeWhile_dropWhile_id)
      from 1(1) [OF True 1(3) this] show ?thesis
        using True nl by (auto simp: dropWhile_append)
    next
      case False
      then have "\<And>t. dropWhile ?P (cs @ CHR 0x0A # t) = CHR 0x0A # t"
        "dropWhile ?P (cs @ ''--'' @ c @ CHR 0x0A # b) = CHR 0x0A # b"
        using 1(3) by (auto simp: dropWhile_append dropWhile_append3)
      then show ?thesis using True by simp
    qed
  next
    case False
    have "y # cs = [] \<or> last (y # cs) \<noteq> CHR ''-''" using 1(4) by simp
    from 1(2) [OF False 1(3) this] show ?thesis using False by (cases "x = CHR ''-''") auto
  qed
qed (use dropWhile_to_newline [OF assms(1)] in simp_all)



lemma keyword_here_chars: "keyword_here kw s \<Longrightarrow> set kw \<subseteq> ascii_upper ` set s"
  unfolding keyword_here_def by (metis image_mono list.set_map set_take_subset)

lemma upper_keyword_id:
  "\<not> set kw \<subseteq> ascii_upper ` set s \<Longrightarrow> upper_keyword kw inside s = s"
proof (induction kw inside s rule: upper_keyword.induct)
  case (2 kw inside c cs)
  then have "\<not> keyword_here kw (c # cs)" using keyword_here_chars by blast
  moreover have "\<not> set kw \<subseteq> ascii_upper ` set cs" using 2(3) by auto
  ultimately show ?case using 2 by simp
qed simp

lemma upper_keywords_id:
  "list_all (\<lambda>kw. \<not> set kw \<subseteq> ascii_upper ` set s) kws \<Longrightarrow>
    fold (\<lambda>kw. upper_keyword kw False) kws s = s"
  by (induction kws) (simp_all add: upper_keyword_id)

text \<open>
  Spacing around \<open>!=\<close> leaks into the fingerprint. The basic normalisation spaces \<open>=\<close> first,
  which splits \<open>!=\<close>: the same comparison written without and with blanks has two normal forms,
  \<open>a! = 1\<close> and \<open>a ! = 1\<close>.
\<close>

theorem not_equal_spacing_leaks:
  "normalize_sql_basic ''a!=1'' True = ''a! = 1'' \<and> normalize_sql_basic ''a != 1'' True = ''a ! = 1''"
proof -
  note ops = sql_operators_def space_op_def py_isspace_def collapse_ws.simps Let_def
  have "fold (\<lambda>kw. upper_keyword kw False) sql_keywords ''a! = 1'' = ''a! = 1''"
    "fold (\<lambda>kw. upper_keyword kw False) sql_keywords ''a ! = 1'' = ''a ! = 1''"
    by (rule upper_keywords_id, simp add: sql_keywords_def ascii_upper_def char_of_def bit_0)+
  then show ?thesis
    by (simp add: normalize_sql_basic_def ops strip_def lstrip_def rstrip_def)
qed

lemma dropWhile_blanks:
  "dropWhile py_isspace (p @ CHR '' '' # CHR '' '' # q) = dropWhile py_isspace (p @ CHR '' '' # q) \<or>
   (\<exists>p'. length p' \<le> length p \<and> dropWhile py_isspace (p @ CHR '' '' # CHR '' '' # q) = p' @ CHR '' '' # CHR '' '' # q \<and>
     dropWhile py_isspace (p @ CHR '' '' # q) = p' @ CHR '' '' # q)"
proof (induction p)
  case (Cons x p)
  then show ?case by (cases "py_isspace x") (auto intro: exI [of _ "x # p"] le_SucI)
qed simp

lemma collapse_blanks: "collapse_ws (p @ CHR '' '' # CHR '' '' # q) = collapse_ws (p @ CHR '' '' # q)"
proof (induction p rule: measure_induct_rule [of length])
  case (less p)
  show ?case
  proof (cases p)
    case (Cons c cs)
    then show ?thesis
      using less [of cs] dropWhile_blanks [of cs q] less by (auto simp: less_Suc_eq_le)
  qed simp
qed

text \<open>
  With comments kept, one more blank next to a blank never changes the fingerprint, wherever
  it stands: also inside a string literal, where it changes what the query means.
\<close>

theorem extra_blank_ignored:
  "fingerprint_sql has_avro None (p @ CHR '' '' # CHR '' '' # q) False =
   fingerprint_sql has_avro None (p @ CHR '' '' # q) False"
  by (simp add: fingerprint_sql_def normalize_sql_def normalize_sql_basic_def collapse_blanks)

subsection \<open>Write detection\<close>

lemma upper_prefix:
  "map ascii_upper k = w \<Longrightarrow> list_all (\<lambda>c. code_point c < 128) k \<Longrightarrow> py_upper k = w"
  by (induction k arbitrary: w) (auto simp: py_upper_def upper_char_def)

text \<open>
  A statement that starts with a write keyword is a write. Leading white space, trailing
  white space, the case of the keyword and what follows it do not matter.
\<close>

theorem write_keyword_detected:
  assumes "list_all py_isspace ws" "map ascii_upper kw \<in> set write_prefixes"
    and "list_all (\<lambda>c. code_point c < 128) kw"
  shows "is_write_statement (ws @ kw @ rest)"
proof -
  let ?w = "map ascii_upper kw"
  have letters: "kw \<noteq> []" "\<not> prefix ''WITH'' (?w @ t)" for t
    using assms(2) by (auto simp: write_prefixes_def)
  have nospace: "\<not> py_isspace c" if "c \<in> set kw" for c
  proof
    assume "py_isspace c"
    then have "py_isspace (ascii_upper c)" using py_isspace_ascii_upper by (simp add: same_ws_def)
    moreover have "ascii_upper c \<in> set ?w" using that by simp
    ultimately show False using assms(2) by (auto simp: write_prefixes_def py_isspace_def)
  qed
  have "lstrip (ws @ kw @ rest) = kw @ rest"
    using assms(1) letters(1) nospace by (cases kw) (auto simp: lstrip_def list_all_iff dropWhile_append)
  moreover obtain t where "rstrip (kw @ rest) = kw @ t"
  proof -
    have "dropWhile py_isspace (rev rest @ rev kw) = dropWhile py_isspace (rev rest) @ rev kw"
    proof -
      have "dropWhile py_isspace (rev kw) = rev kw"
        using nospace [of "last kw"] letters(1) by (simp add: dropWhile_eq_self_iff hd_rev)
      then show ?thesis by (auto simp: dropWhile_append)
    qed
    then show ?thesis by (intro that [of "rev (dropWhile py_isspace (rev rest))"]) (simp add: rstrip_def)
  qed
  ultimately have "py_upper (strip (ws @ kw @ rest)) = ?w @ py_upper t"
    using upper_prefix [OF refl assms(3)] by (simp add: strip_def py_upper_def)
  then show ?thesis
    using letters(2) by (auto simp: is_write_statement_def Let_def list_ex_iff intro: bexI [OF _ assms(2)])
qed

theorem write_keyword_detected_witness:
  "is_write_statement ('' '' @ ''inSert'' @ '' into t values (1)'')"
  by (rule write_keyword_detected)
    (simp_all add: py_isspace_def write_prefixes_def ascii_upper_def char_of_def bit_0)

text \<open>
  In a statement that starts with \<open>WITH\<close>, a write keyword anywhere makes it a write, also
  inside an identifier: a query that only reads a column \<open>updated_at\<close> is blocked. Statements
  behind a leading comment, and \<open>CREATE\<close>, are not detected.
\<close>

theorem write_detection_limits:
  "is_write_statement ''WITH c AS (SELECT updated_at FROM t) SELECT 1'' \<and>
   \<not> is_write_statement ''/* x */ DELETE FROM t'' \<and> \<not> is_write_statement ''CREATE INDEX i''"
proof -
  note ev = is_write_statement_def py_upper_def upper_char_def write_prefixes_def strip_def lstrip_def
    rstrip_def py_isspace_def ascii_upper_def char_of_def bit_0 Let_def
  have "is_write_statement ''WITH c AS (SELECT updated_at FROM t) SELECT 1''"
    by (simp add: ev sublist_Cons_right)
  moreover have "\<not> is_write_statement ''/* x */ DELETE FROM t''" by (simp add: ev)
  moreover have "\<not> is_write_statement ''CREATE INDEX i''" by (simp add: ev)
  ultimately show ?thesis by blast
qed

end
