(* ===== verification/Db.thy ===== *)
theory Db
  imports Capture Sql
begin

text \<open>
  The database proxy (sim_sdk/db.py): fixture keys and fingerprints of queries, reading and
  writing of query fixtures, and \<open>DBProxy\<close>, which intercepts \<open>query\<close> and \<open>execute\<close>.

  The wrapped database object is an argument \<open>db\<close>: calling its method of a given name with
  positional and keyword arguments, attribute lookup included. The proxy is passed along and
  returned, since recording appends to its list of captured queries.
\<close>

subsection \<open>Keys, fingerprints and fixtures\<close>

definition db_fixture_key :: "string \<Rightarrow> string \<Rightarrow> string \<Rightarrow> int \<Rightarrow> string" where
  "db_fixture_key name sql_fp params_fp n =
     ''__db__/'' @ safe_label name @ ''_'' @ take 8 sql_fp @ ''_'' @ take 8 params_fp @ ''_''
       @ dec_int n @ ''.json''"

definition compute_query_fingerprint ::
  "bool \<Rightarrow> sql_parser option \<Rightarrow> string \<Rightarrow> pyval \<Rightarrow> py_exn + string \<times> string" where
  "compute_query_fingerprint has_avro sqlparse sql params =
     ebind (fingerprint_sql has_avro sqlparse sql True) (\<lambda>sql_fp.
       let params_data = (if params \<noteq> VNone then make_serializable params else VNone) in
       ebind (if params_data \<noteq> VNone then fingerprint has_avro params_data
              else fingerprint has_avro (VStr []))
         (\<lambda>params_fp. Inr (sql_fp, params_fp)))"

definition short_fps :: "string \<Rightarrow> string \<Rightarrow> string" where
  "short_fps sql_fp params_fp = take 16 sql_fp @ '':'' @ take 16 params_fp"

definition db_event ::
  "string \<Rightarrow> string \<Rightarrow> string \<Rightarrow> string \<Rightarrow> string \<Rightarrow> pyval \<Rightarrow> string \<Rightarrow> string \<Rightarrow> int \<Rightarrow> pyval \<Rightarrow> fixture_event" where
  "db_event fid run date name sql params sql_fp params_fp n result =
     (fixture_event_init fid (''db:'' @ name) run date)
       \<lparr>ev_input := VDict [field ''sql'' (VStr sql), field ''params'' (make_serializable params)],
        ev_input_fingerprint := short_fps sql_fp params_fp,
        ev_output := make_serializable result, ev_ordinal := n,
        ev_storage_key := Some (db_fixture_key name sql_fp params_fp n), ev_event_type := ''Stub''\<rparr>"

definition db_data ::
  "string \<Rightarrow> string \<Rightarrow> pyval \<Rightarrow> string \<Rightarrow> string \<Rightarrow> int \<Rightarrow> pyval \<Rightarrow> pyval" where
  "db_data name sql params sql_fp params_fp n result = VDict
     [field ''type'' (VStr ''db_query''), field ''name'' (VStr name), field ''sql'' (VStr sql),
      field ''params'' (make_serializable params), field ''sql_fingerprint'' (VStr sql_fp),
      field ''params_fingerprint'' (VStr params_fp), field ''ordinal'' (VInt n),
      field ''result'' (make_serializable result)]"

definition write_db_fixture ::
  "(nat \<Rightarrow> fixture_event \<Rightarrow> ('a, unit) prog) \<Rightarrow> string \<Rightarrow> string \<Rightarrow> pyval \<Rightarrow> string \<Rightarrow> string \<Rightarrow> int \<Rightarrow>
    pyval \<Rightarrow> nat \<Rightarrow> ('a, unit) prog" where
  "write_db_fixture emit name sql params sql_fp params_fp n result r w =
     (case sink (ctx_at w r) of
        Some s \<Rightarrow>
          (let (fid, w1) = uuid8 w; (date, w2) = utc_now w1 in
           emit s (db_event fid (run_id (ctx_at w r)) date name sql params sql_fp params_fp n result) w2)
      | None \<Rightarrow>
          (case stub_dir (ctx_at w r) of
             Some dir \<Rightarrow>
               dump_file (path_join dir (db_fixture_key name sql_fp params_fp n))
                 (db_data name sql params sql_fp params_fp n result) w
           | None \<Rightarrow> (Inr (), add_log (DiscardedDb name) w)))"

definition read_db_fixture :: "string \<Rightarrow> string \<Rightarrow> string \<Rightarrow> int \<Rightarrow> path \<Rightarrow> 'a world \<Rightarrow> pyval option" where
  "read_db_fixture name sql_fp params_fp n dir w =
     map_option py_of_json (files w (path_join dir (db_fixture_key name sql_fp params_fp n)))"

subsection \<open>\<open>DBProxy\<close>\<close>

record db_proxy =
  proxy_name :: string
  proxy_ctx :: nat
  queries_captured :: "(string \<times> pyval \<times> int) list"

definition db_proxy_init :: "string \<Rightarrow> nat \<Rightarrow> db_proxy" where
  "db_proxy_init name r = \<lparr>proxy_name = name, proxy_ctx = r, queries_captured = []\<rparr>"

type_synonym 'a db_object = "string \<Rightarrow> pyval list \<Rightarrow> (string \<times> pyval) list \<Rightarrow> ('a, pyval) prog"

definition real_call ::
  "'a db_object \<Rightarrow> string \<Rightarrow> string \<Rightarrow> pyval \<Rightarrow> pyval list \<Rightarrow> (string \<times> pyval) list \<Rightarrow> ('a, pyval) prog" where
  "real_call db meth sql params args kwargs =
     (if params \<noteq> VNone then db meth (VStr sql # params # args) kwargs
      else db meth (VStr sql # args) kwargs)"

definition db_stub :: "string \<Rightarrow> string \<Rightarrow> int \<Rightarrow> pyval \<Rightarrow> string \<Rightarrow> pyval" where
  "db_stub name sql n result source = VDict
     [field ''type'' (VStr ''db_query''), field ''name'' (VStr name), field ''sql'' (VStr sql),
      field ''ordinal'' (VInt n), field ''result'' result, field ''source'' (VStr source)]"

definition db_replay_call ::
  "string \<Rightarrow> string \<Rightarrow> string \<Rightarrow> int \<Rightarrow> string \<Rightarrow> nat \<Rightarrow> ('a, pyval) prog" where
  "db_replay_call sql sql_fp params_fp n name r w =
     (if is_write_statement sql then (Inl (SimWriteBlockedError sql name), w)
      else
        (case stub_dir (ctx_at w r) of
           None \<Rightarrow> (Inl (SimStubMissError (''db:'' @ name) (short_fps sql_fp params_fp) n None), w)
         | Some dir \<Rightarrow>
             (case read_db_fixture name sql_fp params_fp n dir w of
                None \<Rightarrow>
                  (Inl (SimStubMissError (''db:'' @ name) (short_fps sql_fp params_fp) n (Some dir)), w)
              | Some fixture \<Rightarrow>
                  (let result = get_field ''result'' fixture in
                   (Inr result, push_stub r (db_stub name sql n result ''replay'') w)))))"

definition db_record_call ::
  "(nat \<Rightarrow> fixture_event \<Rightarrow> ('a, unit) prog) \<Rightarrow> 'a db_object \<Rightarrow> string \<Rightarrow> string \<Rightarrow> pyval \<Rightarrow>
    string \<Rightarrow> string \<Rightarrow> int \<Rightarrow> string \<Rightarrow> nat \<Rightarrow> pyval list \<Rightarrow> (string \<times> pyval) list \<Rightarrow>
    db_proxy \<Rightarrow> 'a world \<Rightarrow> (py_exn + pyval) \<times> db_proxy \<times> 'a world" where
  "db_record_call emit db meth sql params sql_fp params_fp n name r args kwargs p w =
     (case real_call db meth sql params args kwargs w of
        (Inl e, w1) \<Rightarrow> (Inl e, p, w1)
      | (Inr result, w1) \<Rightarrow>
          (case write_db_fixture emit name sql params sql_fp params_fp n result r w1 of
             (Inl e, w2) \<Rightarrow> (Inl e, p, w2)
           | (Inr _, w2) \<Rightarrow>
               (Inr result,
                p\<lparr>queries_captured := queries_captured p @ [(sql, params, n)]\<rparr>,
                push_stub r (db_stub name sql n (make_serializable result) ''record'') w2)))"

definition combined_fp :: "string \<Rightarrow> string \<Rightarrow> string \<Rightarrow> string" where
  "combined_fp name sql_fp params_fp = ''db:'' @ name @ '':'' @ short_fps sql_fp params_fp"

definition intercept_call ::
  "bool \<Rightarrow> sql_parser option \<Rightarrow> (nat \<Rightarrow> fixture_event \<Rightarrow> ('a, unit) prog) \<Rightarrow> 'a db_object \<Rightarrow>
    string \<Rightarrow> string \<Rightarrow> pyval \<Rightarrow> pyval list \<Rightarrow> (string \<times> pyval) list \<Rightarrow>
    db_proxy \<Rightarrow> 'a world \<Rightarrow> (py_exn + pyval) \<times> db_proxy \<times> 'a world" where
  "intercept_call has_avro sqlparse emit db meth sql params args kwargs p w =
     (let r = proxy_ctx p; name = proxy_name p in
      case compute_query_fingerprint has_avro sqlparse sql params of
        Inl e \<Rightarrow> (Inl e, p, w)
      | Inr (sql_fp, params_fp) \<Rightarrow>
          (let (n, w1) = next_ordinal_at r (combined_fp name sql_fp params_fp) w in
           if is_replaying (ctx_at w1 r) then
             (let (res, w2) = db_replay_call sql sql_fp params_fp n name r w1 in (res, p, w2))
           else if is_recording (ctx_at w1 r) then
             db_record_call emit db meth sql params sql_fp params_fp n name r args kwargs p w1
           else (let (res, w2) = real_call db meth sql params args kwargs w1 in (res, p, w2))))"

text \<open>
  \<open>__getattr__\<close>: \<open>query\<close> and \<open>execute\<close> give the interceptor, any other name the attribute of the
  wrapped object.
\<close>

datatype 'v proxy_attribute = Interceptor string | Delegated 'v

definition proxy_getattr :: "(string \<Rightarrow> 'v) \<Rightarrow> string \<Rightarrow> 'v proxy_attribute" where
  "proxy_getattr attribute_of a =
     (if a \<in> set [''query'', ''execute''] then Interceptor a else Delegated (attribute_of a))"

subsection \<open>\<open>sim_db\<close>\<close>

text \<open>What entering the manager yields: the object itself in off mode, else a proxy of it.\<close>

datatype db_handle = RawObject | Proxied db_proxy

definition sim_db_setup :: "string \<Rightarrow> 'a world \<Rightarrow> db_handle \<times> 'a world" where
  "sim_db_setup name w =
     (let (r, w1) = get_context w in
      (if \<not> is_active (ctx_at w1 r) then RawObject else Proxied (db_proxy_init name r), w1))"

text \<open>
  A \<open>query\<close> or \<open>execute\<close> call on what the manager yielded; \<open>params\<close> is \<open>None\<close> here when the caller
  passes no second argument, which the interceptor reads as Python's \<open>None\<close>.
\<close>

definition db_call ::
  "bool \<Rightarrow> sql_parser option \<Rightarrow> (nat \<Rightarrow> fixture_event \<Rightarrow> ('a, unit) prog) \<Rightarrow> 'a db_object \<Rightarrow>
    string \<Rightarrow> string \<Rightarrow> pyval option \<Rightarrow> pyval list \<Rightarrow> (string \<times> pyval) list \<Rightarrow>
    db_handle \<Rightarrow> 'a world \<Rightarrow> (py_exn + pyval) \<times> db_handle \<times> 'a world" where
  "db_call has_avro sqlparse emit db meth sql params args kwargs h w =
     (case h of
        RawObject \<Rightarrow>
          (let (res, w1) = db meth (VStr sql # (case params of None \<Rightarrow> [] | Some v \<Rightarrow> [v]) @ args) kwargs w
           in (res, h, w1))
      | Proxied p \<Rightarrow>
          (let v = (case params of None \<Rightarrow> VNone | Some v \<Rightarrow> v);
               (res, p', w1) = intercept_call has_avro sqlparse emit db meth sql v args kwargs p w
           in (res, Proxied p', w1)))"

text \<open>
  \<open>with sim_db(db, name) as sdb: block\<close>; the teardown does nothing, so the block's result or
  exception is the statement's.
\<close>

definition with_db :: "string \<Rightarrow> (db_handle \<Rightarrow> ('a, 'r) prog) \<Rightarrow> ('a, 'r) prog" where
  "with_db name block w = (let (h, w1) = sim_db_setup name w in block h w1)"

subsection \<open>Queries as a fixture store\<close>

lemma db_data_plain [simp]: "plain (db_data name sql params s p n v)"
  by (simp add: db_data_def make_serializable_plain_lemma)

lemma stored_result_db [simp]:
  "stored_result (plain_json (db_data name sql params s p n v)) = make_serializable v"
  unfolding stored_result_def py_of_plain_json [OF db_data_plain]
  by (simp add: get_field_def db_data_def)

lemma hex_no_slash: "list_all is_hex s \<Longrightarrow> CHR ''/'' \<notin> set s"
  by (auto simp: list_all_iff is_hex_def is_digit_def)

lemma compute_query_fingerprint_total:
  obtains s p where "compute_query_fingerprint has_avro sqlparse sql params = Inr (s, p)"
    "CHR ''/'' \<notin> set s" "CHR ''/'' \<notin> set p"
proof -
  have fp: "\<exists>h. fingerprint has_avro v = Inr h \<and> CHR ''/'' \<notin> set h" if "plain v" for v
    using sha256_hexdigest_chars hex_no_slash
    by (simp add: fingerprint_plain [OF that]) (metis list_all_iff)
  obtain s where s: "fingerprint_sql has_avro sqlparse sql True = Inr s" "CHR ''/'' \<notin> set s"
    using fp [of "VStr (normalize_sql sqlparse sql True)"] by (auto simp: fingerprint_sql_def)
  let ?d = "if params \<noteq> VNone then make_serializable params else VNone"
  have "plain (if ?d \<noteq> VNone then ?d else VStr [])"
    using make_serializable_plain_lemma by simp
  from fp [OF this] obtain p where
    "(if ?d \<noteq> VNone then fingerprint has_avro ?d else fingerprint has_avro (VStr [])) = Inr p"
    "CHR ''/'' \<notin> set p"
    by (auto split: if_splits)
  then show ?thesis
    using s that by (auto simp: compute_query_fingerprint_def Let_def simp del: if_split)
qed

type_synonym db_op = "string \<times> string \<times> string"

fun db_ckey :: "db_op \<Rightarrow> string" where
  "db_ckey (name, s, p) = combined_fp name s p"

fun db_stem :: "db_op \<Rightarrow> string" where
  "db_stem (name, s, p) = safe_label name @ ''_'' @ take 8 s @ ''_'' @ take 8 p"

fun db_path :: "path \<Rightarrow> db_op \<Rightarrow> int \<Rightarrow> path" where
  "db_path dir (name, s, p) n = path_join dir (db_fixture_key name s p n)"

fun db_op_ok :: "db_op \<Rightarrow> bool" where
  "db_op_ok (name, s, p) \<longleftrightarrow> CHR ''/'' \<notin> set s \<and> CHR ''/'' \<notin> set p"

lemma last_db_path:
  assumes "db_op_ok op"
  shows "last (db_path dir op n) = db_stem op @ ''_'' @ dec_int n @ ''.json''"
proof -
  obtain name s p where op: "op = (name, s, p)" by (cases op)
  have "CHR ''/'' \<notin> set (db_stem op)"
    using assms safe_label_no_slash by (auto simp: op dest: in_set_takeD)
  from last_path_join [OF file_part [OF this], of dir "''__db__''" n] show ?thesis
    by (simp add: op db_fixture_key_def)
qed

interpretation db_store: fixture_paths db_op_ok db_ckey db_stem "db_path dir"
  for dir
proof
  fix x y m n
  assume ok: "db_op_ok x" "db_op_ok y" and eq: "db_path dir x m = db_path dir y n"
  from arg_cong [OF eq, of last] show "db_stem x = db_stem y \<and> m = n"
    unfolding last_db_path [OF ok(1)] last_db_path [OF ok(2)] by (rule file_part_inj)
qed

subsection \<open>Sessions of queries\<close>

record query =
  q_name :: string
  q_method :: string
  q_sql :: string
  q_params :: "pyval option"
  q_args :: "pyval list"
  q_kwargs :: "(string \<times> pyval) list"

abbreviation q_param_value :: "query \<Rightarrow> pyval" where
  "q_param_value q \<equiv> (case q_params q of None \<Rightarrow> VNone | Some v \<Rightarrow> v)"

definition query_prog ::
  "bool \<Rightarrow> sql_parser option \<Rightarrow> (nat \<Rightarrow> fixture_event \<Rightarrow> ('a, unit) prog) \<Rightarrow> 'a db_object \<Rightarrow> query \<Rightarrow>
    ('a, pyval) prog" where
  "query_prog has_avro sqlparse emit db q = with_db (q_name q) (\<lambda>h w.
     (let (res, h', w1) = db_call has_avro sqlparse emit db (q_method q) (q_sql q) (q_params q)
            (q_args q) (q_kwargs q) h w in (res, w1)))"

definition query_op :: "bool \<Rightarrow> sql_parser option \<Rightarrow> query \<Rightarrow> db_op" where
  "query_op has_avro sqlparse q =
     (case compute_query_fingerprint has_avro sqlparse (q_sql q) (q_param_value q) of
        Inl e \<Rightarrow> ([], [], []) | Inr (s, p) \<Rightarrow> (q_name q, s, p))"

text \<open>A database object whose methods leave the simulation state alone.\<close>

definition quiet_db :: "'a db_object \<Rightarrow> bool" where
  "quiet_db db \<longleftrightarrow> (\<forall>m a k. quiet (db m a k))"

lemma quiet_real_call: "quiet_db db \<Longrightarrow> quiet (real_call db meth sql params args kwargs)"
  by (simp add: quiet_db_def quiet_def real_call_def)

text \<open>A call on the proxy, in an active context.\<close>

lemma query_prog_active:
  assumes "current w = Some r" "is_active (ctx_at w r)"
    and "compute_query_fingerprint has_avro sqlparse (q_sql q) (q_param_value q) = Inr (s, p)"
    and "n = ordinals_at w r (combined_fp (q_name q) s p)"
    and "w1 = snd (next_ordinal_at r (combined_fp (q_name q) s p) w)"
  shows "query_prog has_avro sqlparse emit db q w =
    (if is_replaying (ctx_at w1 r) then db_replay_call (q_sql q) s p n (q_name q) r w1
     else if is_recording (ctx_at w1 r) then
       (let (res, pr, w2) = db_record_call emit db (q_method q) (q_sql q) (q_param_value q) s p n (q_name q) r
          (q_args q) (q_kwargs q) (db_proxy_init (q_name q) r) w1 in (res, w2))
     else real_call db (q_method q) (q_sql q) (q_param_value q) (q_args q) (q_kwargs q) w1)"
proof -
  have no: "next_ordinal_at r (combined_fp (q_name q) s p) w = (n, w1)"
    by (simp add: assms(4,5) next_ordinal_at_def next_ordinal_count ordinals_at_def)
  have pr: "proxy_ctx (db_proxy_init (q_name q) r) = r" "proxy_name (db_proxy_init (q_name q) r) = q_name q"
    by (simp_all add: db_proxy_init_def)
  have "sim_db_setup (q_name q) w = (Proxied (db_proxy_init (q_name q) r), w)"
    using assms(1,2) by (simp add: sim_db_setup_def)
  then show ?thesis
    by (simp add: query_prog_def with_db_def db_call_def intercept_call_def pr assms(3) no case_prod_unfold Let_def)
qed

lemma write_db_fixture_dir:
  assumes "sink (ctx_at w r) = None" "stub_dir (ctx_at w r) = Some dir"
  shows "write_db_fixture emit name sql params s p n v r w =
    (Inr (), w\<lparr>files := (files w)(db_path dir (name, s, p) n \<mapsto>
       plain_json (db_data name sql params s p n v))\<rparr>)"
  using assms by (simp add: write_db_fixture_def dump_file_plain)

lemma db_record_step:
  assumes w: "session_ctx RECORD dir r w" "sink (ctx_at w r) = None"
    and q: "quiet_db db"
    and run: "query_prog has_avro sqlparse emit db q w = (res, w')"
    and op: "op = query_op has_avro sqlparse q"
  obtains doc u where "session_ctx RECORD dir r w'" "sink (ctx_at w' r) = None" "db_op_ok op"
    "ordinals_at w' r = (ordinals_at w r)(db_ckey op := ordinals_at w r (db_ckey op) + 1)"
    "files w' = (case doc of None \<Rightarrow> files w
       | Some j \<Rightarrow> (files w)(db_path dir op (ordinals_at w r (db_ckey op)) \<mapsto> j))"
    "case res of Inr v \<Rightarrow> \<exists>j. doc = Some j \<and> stored_result j = make_serializable v | Inl _ \<Rightarrow> doc = None"
    "app u = app w"
    "res = fst (real_call db (q_method q) (q_sql q) (q_param_value q) (q_args q) (q_kwargs q) u)"
    "app w' = app (snd (real_call db (q_method q) (q_sql q) (q_param_value q) (q_args q) (q_kwargs q) u))"
proof -
  have v: "valid_ref w r" "current w = Some r" "mode (ctx_at w r) = RECORD" "stub_dir (ctx_at w r) = Some dir"
    using w by (simp_all add: session_ctx_def)
  obtain s p where fps: "compute_query_fingerprint has_avro sqlparse (q_sql q) (q_param_value q) = Inr (s, p)"
    "CHR ''/'' \<notin> set s" "CHR ''/'' \<notin> set p"
    by (rule compute_query_fingerprint_total)
  have op_eq: "op = (q_name q, s, p)" by (simp add: op query_op_def fps)
  define k where "k = combined_fp (q_name q) s p"
  define n where "n = ordinals_at w r k"
  let ?w1 = "snd (next_ordinal_at r k w)"
  let ?real = "real_call db (q_method q) (q_sql q) (q_param_value q) (q_args q) (q_kwargs q)"
  have qr: "quiet ?real" by (rule quiet_real_call [OF q])
  obtain x w2 where real: "?real ?w1 = (x, w2)" by fastforce
  have c2: "ctx_at w2 r = ctx_at ?w1 r" "valid_ref w2 r" "current w2 = Some r" "files w2 = files w"
    using quietD [OF qr real] same_contexts [of w2 ?w1 r] v by simp_all
  have prog: "query_prog has_avro sqlparse emit db q w =
      (let (res, pr, w2) = db_record_call emit db (q_method q) (q_sql q) (q_param_value q) s p n (q_name q) r
            (q_args q) (q_kwargs q) (db_proxy_init (q_name q) r) ?w1 in (res, w2))"
    using query_prog_active [OF v(2) _ fps(1) refl refl] v by (simp add: mode_simps k_def n_def)
  have sess: "session_ctx RECORD dir r w2" "sink (ctx_at w2 r) = None"
    "ordinals_at w2 r = (ordinals_at w r)(k := n + 1)"
    using c2 v w(2) by (simp_all add: session_ctx_def ordinals_at_def n_def)
  show ?thesis
  proof (cases x)
    case (Inl e)
    then have fin: "res = Inl e" "w' = w2"
      using run real by (simp_all add: prog db_record_call_def)
    show ?thesis
      by (rule that [of None ?w1])
        (use sess c2 fps real Inl fin in \<open>simp_all add: op_eq n_def flip: k_def\<close>)
  next
    case (Inr val)
    define doc where "doc = plain_json (db_data (q_name q) (q_sql q) (q_param_value q) s p n val)"
    let ?w3 = "w2\<lparr>files := (files w2)(db_path dir op n \<mapsto> doc)\<rparr>"
    have "sink (ctx_at w2 r) = None" "stub_dir (ctx_at w2 r) = Some dir"
      using sess by (simp_all add: session_ctx_def)
    then have wr: "write_db_fixture emit (q_name q) (q_sql q) (q_param_value q) s p n val r w2 = (Inr (), ?w3)"
      by (simp add: write_db_fixture_dir op_eq doc_def)
    let ?stub = "db_stub (q_name q) (q_sql q) n (make_serializable val) ''record''"
    have fin: "res = Inr val" "w' = push_stub r ?stub ?w3"
      using run real Inr by (simp_all add: prog db_record_call_def wr)
    have sess3: "session_ctx RECORD dir r w'" "sink (ctx_at w' r) = None"
      "ordinals_at w' r = (ordinals_at w r)(k := n + 1)" "files w' = (files w)(db_path dir op n \<mapsto> doc)"
      "app w' = app w2"
      using sess c2 by (simp_all add: fin(2) session_ctx_def ordinals_at_def)
    have sr: "stored_result doc = make_serializable val" by (simp only: doc_def stored_result_db)
    show ?thesis
      by (rule that [of "Some doc" ?w1])
        (use sess3 fps real Inr fin(1) sr in \<open>simp_all add: op_eq n_def flip: k_def\<close>)
  qed
qed

text \<open>What a replayed query gives, from the document read for it.\<close>

definition db_answer :: "path \<Rightarrow> query \<Rightarrow> json option \<Rightarrow> py_exn + pyval \<Rightarrow> bool" where
  "db_answer dir q d out \<longleftrightarrow>
     (if is_write_statement (q_sql q) then out = Inl (SimWriteBlockedError (q_sql q) (q_name q))
      else (case d of
              Some j \<Rightarrow> out = Inr (stored_result j)
            | None \<Rightarrow> \<exists>fp n. out = Inl (SimStubMissError (''db:'' @ q_name q) fp n (Some dir))))"

lemma db_replay_step:
  assumes w: "session_ctx REPLAY dir r w" and op: "op = query_op has_avro sqlparse q"
  obtains out w' where "query_prog has_avro sqlparse emit db q w = (out, w')"
    "db_answer dir q (files w (db_path dir op (ordinals_at w r (db_ckey op)))) out"
    "session_ctx REPLAY dir r w'" "files w' = files w" "app w' = app w"
    "ordinals_at w' r = (ordinals_at w r)(db_ckey op := ordinals_at w r (db_ckey op) + 1)"
proof -
  have v: "valid_ref w r" "current w = Some r" "mode (ctx_at w r) = REPLAY" "stub_dir (ctx_at w r) = Some dir"
    using w by (simp_all add: session_ctx_def)
  obtain s p where fps: "compute_query_fingerprint has_avro sqlparse (q_sql q) (q_param_value q) = Inr (s, p)"
    by (rule compute_query_fingerprint_total)
  have op_eq: "op = (q_name q, s, p)" by (simp add: op query_op_def fps)
  define k where "k = combined_fp (q_name q) s p"
  define n where "n = ordinals_at w r k"
  let ?w1 = "snd (next_ordinal_at r k w)"
  have prog: "query_prog has_avro sqlparse emit db q w = db_replay_call (q_sql q) s p n (q_name q) r ?w1"
    using query_prog_active [OF v(2) _ fps refl refl] v by (simp add: mode_simps k_def n_def)
  obtain out w' where run: "db_replay_call (q_sql q) s p n (q_name q) r ?w1 = (out, w')" by fastforce
  have "session_ctx REPLAY dir r w'" "files w' = files w" "app w' = app w"
    "ordinals_at w' r = (ordinals_at w r)(k := n + 1)"
    using run v w by (auto simp: db_replay_call_def Let_def session_ctx_def ordinals_at_def n_def
        split: if_splits option.splits)
  moreover have "db_answer dir q (files w (db_path dir op n)) out"
    using run v(1,4) by (auto simp: db_replay_call_def db_answer_def Let_def read_db_fixture_def op_eq stored_result_def
        split: if_splits option.splits)
  ultimately show ?thesis using prog run by (intro that [of out w']) (simp_all add: op_eq n_def flip: k_def)
qed

definition db_stored :: "py_exn + pyval \<Rightarrow> json option \<Rightarrow> bool" where
  "db_stored res d \<longleftrightarrow>
     (case res of Inr v \<Rightarrow> \<exists>j. d = Some j \<and> stored_result j = make_serializable v | Inl _ \<Rightarrow> d = None)"

lemma db_record_session:
  assumes "session_ctx RECORD dir r w" "sink (ctx_at w r) = None" "quiet_db db"
    and "run_all (map (query_prog has_avro sqlparse emit db) qs) w = (results, w')"
  shows "\<exists>ds. length ds = length qs \<and> list_all2 db_stored results ds \<and>
    list_all db_op_ok (map (query_op has_avro sqlparse) qs) \<and>
    files w' = record_run db_ckey (db_path dir) (zip (map (query_op has_avro sqlparse) qs) ds)
      (ordinals_at w r) (files w)"
  using assms
proof (induction qs arbitrary: w results)
  case (Cons q qs)
  obtain x w1 where x: "query_prog has_avro sqlparse emit db q w = (x, w1)" by fastforce
  obtain xs w2 where xs: "run_all (map (query_prog has_avro sqlparse emit db) qs) w1 = (xs, w2)" by fastforce
  have res: "results = x # xs" "w' = w2" using Cons.prems(4) by (simp_all add: x xs)
  define op where "op = query_op has_avro sqlparse q"
  obtain d where d: "session_ctx RECORD dir r w1" "sink (ctx_at w1 r) = None" "db_op_ok op"
    "ordinals_at w1 r = (ordinals_at w r)(db_ckey op := ordinals_at w r (db_ckey op) + 1)"
    "files w1 = (case d of None \<Rightarrow> files w
       | Some j \<Rightarrow> (files w)(db_path dir op (ordinals_at w r (db_ckey op)) \<mapsto> j))"
    "case x of Inr v \<Rightarrow> \<exists>j. d = Some j \<and> stored_result j = make_serializable v | Inl _ \<Rightarrow> d = None"
    by (rule db_record_step [OF Cons.prems(1,2,3) x op_def])
  obtain ds where "length ds = length qs" "list_all2 db_stored xs ds"
    "list_all db_op_ok (map (query_op has_avro sqlparse) qs)"
    "files w2 = record_run db_ckey (db_path dir) (zip (map (query_op has_avro sqlparse) qs) ds)
      (ordinals_at w1 r) (files w1)"
    using Cons.IH [OF d(1,2) Cons.prems(3) xs [folded res(2)]] by (auto simp: res)
  moreover have "db_stored x d" using d(6) by (simp add: db_stored_def)
  ultimately show ?case
    using d(3-5) by (intro exI [of _ "d # ds"]) (simp add: res flip: op_def)
qed simp

lemma db_replay_session:
  assumes "session_ctx REPLAY dir r w"
  shows "list_all2 (\<lambda>(q, d) out. db_answer dir q d out)
    (zip qs (replay_run db_ckey (db_path dir) (map (query_op has_avro sqlparse) qs) (ordinals_at w r) (files w)))
    (fst (run_all (map (query_prog has_avro sqlparse emit db) qs) w)) \<and>
    app (snd (run_all (map (query_prog has_avro sqlparse emit db) qs) w)) = app w"
  using assms
proof (induction qs arbitrary: w)
  case (Cons q qs)
  define op where "op = query_op has_avro sqlparse q"
  obtain out w1 where 1: "query_prog has_avro sqlparse emit db q w = (out, w1)"
    "db_answer dir q (files w (db_path dir op (ordinals_at w r (db_ckey op)))) out"
    "session_ctx REPLAY dir r w1" "files w1 = files w" "app w1 = app w"
    "ordinals_at w1 r = (ordinals_at w r)(db_ckey op := ordinals_at w r (db_ckey op) + 1)"
    by (rule db_replay_step [OF Cons.prems op_def, of emit db])
  from Cons.IH [OF 1(3)] 1 show ?case
    by (simp add: case_prod_unfold Let_def flip: op_def del: fun_upd_apply)
qed simp

lemma replay_run_empty:
  "(\<And>op n. fs (fpath op n) = None) \<Longrightarrow> replay_run ckey fpath ops cnt fs = replicate (length ops) None"
  by (induction ops arbitrary: cnt) simp_all

subsection \<open>Properties\<close>

text \<open>What a recorded result of a query becomes in a replay.\<close>

definition query_back :: "path \<Rightarrow> query \<Rightarrow> py_exn + pyval \<Rightarrow> py_exn + pyval \<Rightarrow> bool" where
  "query_back dir q res out \<longleftrightarrow>
     (if is_write_statement (q_sql q) then out = Inl (SimWriteBlockedError (q_sql q) (q_name q))
      else (case res of
              Inr v \<Rightarrow> out = Inr (make_serializable v)
            | Inl _ \<Rightarrow> \<exists>fp n. out = Inl (SimStubMissError (''db:'' @ q_name q) fp n (Some dir))))"

lemma query_back_answer: "db_stored res d \<Longrightarrow> db_answer dir q d out \<Longrightarrow> query_back dir q res out"
  by (auto simp: db_stored_def db_answer_def query_back_def split: sum.splits option.splits if_splits)

text \<open>
  C7: query sessions round-trip, and replay never touches the database. Record a session of
  queries into an empty stub directory; replay the same queries there against any database
  object. A query returns the serialised rows it returned when recorded, repeated queries in
  order; a write is blocked; a query that raised when recorded has no fixture and raises
  \<open>SimStubMissError\<close>. The replay does not call the database: the application state is unchanged.
\<close>

theorem db_record_replay:
  assumes "session_ctx RECORD dir r w" "sink (ctx_at w r) = None" "quiet_db db"
    and "\<And>op n. files w (db_path dir op n) = None"
    and "separated db_ckey db_stem (set (map (query_op has_avro sqlparse) qs))"
    and "run_all (map (query_prog has_avro sqlparse emit db) qs) w = (results, w1)"
    and "session_ctx REPLAY dir s v" "files v = files w1" "ordinals_at v s = ordinals_at w r"
    and "run_all (map (query_prog has_avro sqlparse emit' db') qs) v = (outs, v')"
  shows "list_all2 (\<lambda>(q, res) out. query_back dir q res out) (zip qs results) outs \<and> app v' = app v"
proof -
  let ?ops = "map (query_op has_avro sqlparse) qs"
  obtain ds where ds: "length ds = length qs" "list_all2 db_stored results ds" "list_all db_op_ok ?ops"
    "files w1 = record_run db_ckey (db_path dir) (zip ?ops ds) (ordinals_at w r) (files w)"
    using db_record_session [OF assms(1-3,6)] by blast
  have "replay_run db_ckey (db_path dir) ?ops (ordinals_at v s) (files v) =
      map2 (\<lambda>d old. case d of None \<Rightarrow> old | Some j \<Rightarrow> Some j) ds (replicate (length ?ops) None)"
    using db_store.replay_of_record [of "zip ?ops ds" dir "ordinals_at w r" "files w"] ds assms(5,8,9)
      replay_run_empty [of "files w" "db_path dir" db_ckey ?ops "ordinals_at w r"] assms(4) by simp
  also have "\<dots> = ds"
    using ds(1) by (intro nth_equalityI) (auto split: option.split)
  finally have read: "replay_run db_ckey (db_path dir) ?ops (ordinals_at v s) (files v) = ds" .
  have ans: "list_all2 (\<lambda>(q, d) out. db_answer dir q d out) (zip qs ds) outs" "app v' = app v"
    using db_replay_session [OF assms(7), where qs = qs and has_avro = has_avro and sqlparse = sqlparse
        and emit = emit' and db = db'] assms(10) by (simp_all add: read)
  have "list_all2 (\<lambda>(q, res) out. query_back dir q res out) (zip qs results) outs"
    unfolding list_all2_conv_all_nth
  proof (intro conjI allI impI)
    show "length (zip qs results) = length outs"
      using ans(1) ds(1,2) by (auto dest!: list_all2_lengthD)
    fix i assume "i < length (zip qs results)"
    then show "(case zip qs results ! i of (q, res) \<Rightarrow> query_back dir q res) (outs ! i)"
      using list_all2_nthD [OF ans(1), of i] list_all2_nthD [OF ds(2), of i] ds(1) query_back_answer by simp
  qed
  with ans(2) show ?thesis by simp
qed

definition constant_db :: "pyval \<Rightarrow> 'a db_object" where
  "constant_db v meth args kwargs w = (Inr v, w)"

definition select_one :: query where
  "select_one = \<lparr>q_name = ''pg'', q_method = ''query'', q_sql = ''SELECT 1'', q_params = None,
     q_args = [], q_kwargs = []\<rparr>"

lemma select_one_reads: "\<not> is_write_statement (q_sql select_one)"
  by (simp add: select_one_def is_write_statement_def py_upper_def upper_char_def write_prefixes_def
      strip_def lstrip_def rstrip_def py_isspace_def ascii_upper_def char_of_def bit_0 Let_def)

lemma constant_db_quiet: "quiet_db (constant_db v)"
  by (simp add: quiet_db_def quiet_def constant_db_def)

theorem db_record_replay_witness:
  "fst (run_all (map (query_prog False None (\<lambda>_ _ w. (Inr (), w)) (constant_db VNone)) [select_one])
     (session_world REPLAY None (files (snd (run_all
        (map (query_prog False None (\<lambda>_ _ w. (Inr (), w)) (constant_db (VTuple [VInt 1]))) [select_one])
        (session_world RECORD None (\<lambda>_. None) ())))) ())) = [Inr (VList [VInt 1])]"
proof -
  let ?e = "\<lambda>_ _ w. (Inr (), w)" and ?w = "session_world RECORD None (\<lambda>_. None) ()"
  let ?db = "constant_db (VTuple [VInt 1]) :: unit db_object"
  let ?rec = "run_all (map (query_prog False None ?e ?db) [select_one]) ?w"
  let ?v = "session_world REPLAY None (files (snd ?rec)) ()"
  let ?rep = "run_all (map (query_prog False None ?e (constant_db VNone)) [select_one]) ?v"
  have sep: "separated db_ckey db_stem (set (map (query_op False None) [select_one]))"
    by (simp add: separated_def)
  have empty: "files ?w (db_path [''stubs''] op n) = None" for op n by (simp add: session_world_ctx)
  have "list_all2 (\<lambda>(q, res) out. query_back [''stubs''] q res out) (zip [select_one] (fst ?rec)) (fst ?rep)"
    by (rule db_record_replay [OF session_world_ctx(1,2) constant_db_quiet empty sep surjective_pairing
          session_world_ctx(1) _ _ surjective_pairing, THEN conjunct1])
      (simp_all only: session_world_ctx)
  moreover have "fst ?rec = [Inr (VTuple [VInt 1])]"
  proof -
    obtain x w1 where x: "query_prog False None ?e ?db select_one ?w = (x, w1)" by fastforce
    have "x = Inr (VTuple [VInt 1])"
      by (rule db_record_step [OF session_world_ctx(1,2) constant_db_quiet x refl])
        (simp add: real_call_def constant_db_def)
    then show ?thesis by (simp add: x)
  qed
  ultimately show ?thesis
    using select_one_reads by (auto simp: list_all2_Cons1 query_back_def)
qed

text \<open>
  C20: replay blocks writes. In replay mode a statement the detection calls a write, in particular
  every statement that starts with one of the six write keywords, raises \<open>SimWriteBlockedError\<close>
  with the statement and the connection name; neither the database object nor a fixture is
  touched.
\<close>

theorem replay_blocks_writes:
  assumes "session_ctx REPLAY dir r w" "is_write_statement (q_sql q)"
  shows "\<exists>w'. query_prog has_avro sqlparse emit db q w =
      (Inl (SimWriteBlockedError (q_sql q) (q_name q)), w') \<and>
    files w' = files w \<and> app w' = app w"
proof -
  obtain out w' where "query_prog has_avro sqlparse emit db q w = (out, w')"
    "db_answer dir q (files w (db_path dir (query_op has_avro sqlparse q)
      (ordinals_at w r (db_ckey (query_op has_avro sqlparse q))))) out"
    "files w' = files w" "app w' = app w"
    by (rule db_replay_step [OF assms(1) refl])
  then show ?thesis using assms(2) by (auto simp: db_answer_def)
qed

theorem replay_blocks_writes_witness:
  "\<exists>w'. query_prog False None (\<lambda>_ _ w. (Inr (), w)) (constant_db VNone)
      (select_one\<lparr>q_sql := ''  '' @ ''Drop'' @ '' table t''\<rparr>) (session_world REPLAY None (\<lambda>_. None) ()) =
     (Inl (SimWriteBlockedError ''  Drop table t'' ''pg''), w')"
proof -
  have "is_write_statement (q_sql (select_one\<lparr>q_sql := ''  '' @ ''Drop'' @ '' table t''\<rparr>))"
    by (simp add: select_one_def is_write_statement_def py_upper_def upper_char_def write_prefixes_def
        strip_def lstrip_def rstrip_def py_isspace_def ascii_upper_def char_of_def bit_0 Let_def)
  from replay_blocks_writes [OF session_world_ctx(1) this, of False None "\<lambda>_ _ w. (Inr (), w)" "constant_db VNone"
      None "\<lambda>_. None" "()"]
  show ?thesis by (auto simp: select_one_def)
qed

text \<open>
  Recording a query is transparent. With a stub directory and no sink, a recorded query calls
  the database exactly once, with the statement, the parameters and the remaining arguments, and
  returns its rows or raises its exception; the application state is the one the call left.
\<close>

theorem db_recording_transparent:
  assumes "session_ctx RECORD dir r w" "sink (ctx_at w r) = None" "quiet_db db"
    and "query_prog has_avro sqlparse emit db q w = (res, w')"
  shows "\<exists>u. app u = app w \<and>
    res = fst (real_call db (q_method q) (q_sql q) (q_param_value q) (q_args q) (q_kwargs q) u) \<and>
    app w' = app (snd (real_call db (q_method q) (q_sql q) (q_param_value q) (q_args q) (q_kwargs q) u))"
  by (rule db_record_step [OF assms refl]) blast

theorem db_recording_transparent_witness:
  "fst (query_prog False None (\<lambda>_ _ w. (Inr (), w)) (constant_db (VInt 3)) select_one
     (session_world RECORD None (\<lambda>_. None) ())) = Inr (VInt 3)"
proof -
  show ?thesis
    using db_recording_transparent [OF session_world_ctx(1,2) constant_db_quiet surjective_pairing,
        of "\<lambda>_. None" "()" False None "\<lambda>_ _ w. (Inr (), w)" "VInt 3" select_one]
    by (auto simp: real_call_def constant_db_def)
qed

text \<open>
  Off mode yields the database object itself: a call on it is the call on the object with the
  caller's own arguments, and no ordinal, stub or fixture comes of it.
\<close>

theorem db_off_is_passthrough:
  assumes "get_context w = (r, w0)" "mode (ctx_at w0 r) = OFF"
  shows "query_prog has_avro sqlparse emit db q w =
    db (q_method q) (VStr (q_sql q) # (case q_params q of None \<Rightarrow> [] | Some v \<Rightarrow> [v]) @ q_args q) (q_kwargs q) w0"
  using assms
  by (simp add: query_prog_def with_db_def sim_db_setup_def is_active_def db_call_def case_prod_unfold Let_def)

theorem db_off_is_passthrough_witness:
  "fst (query_prog False None (\<lambda>_ _ w. (Inr (), w)) (constant_db (VInt 3)) select_one
     (session_world OFF None (\<lambda>_. None) ())) = Inr (VInt 3)"
proof -
  let ?w = "session_world OFF None (\<lambda>_. None) ()"
  have g: "get_context ?w = (0, ?w)" by (simp add: session_world_parts)
  show ?thesis
    by (simp add: db_off_is_passthrough [OF g session_world_parts(3)] constant_db_def)
qed

text \<open>
  The proxy shifts arguments behind an explicit \<open>None\<close>. A caller that passes \<open>None\<close> as the
  parameters and further positional arguments reaches the database without the \<open>None\<close> when the
  call goes through the proxy: the next argument takes the place of the parameters. In off mode
  the same call passes all of them.
\<close>

theorem proxy_drops_none_params:
  assumes "session_ctx RECORD dir r w" "sink (ctx_at w r) = None" "quiet_db db"
    and "q_params q = Some VNone"
    and "query_prog has_avro sqlparse emit db q w = (res, w')"
  shows "\<exists>u. app u = app w \<and> res = fst (db (q_method q) (VStr (q_sql q) # q_args q) (q_kwargs q) u)"
  by (rule db_record_step [OF assms(1-3,5) refl]) (auto simp: real_call_def assms(4))

theorem proxy_drops_none_params_witness:
  "fst (query_prog False None (\<lambda>_ _ w. (Inr (), w)) (\<lambda>m a k w. (Inr (VList a), w))
      (select_one\<lparr>q_params := Some VNone, q_args := [VInt 7]\<rparr>)
      (session_world RECORD None (\<lambda>_. None) ())) = Inr (VList [VStr ''SELECT 1'', VInt 7])"
proof -
  let ?q = "select_one\<lparr>q_params := Some VNone, q_args := [VInt 7]\<rparr>"
  have q: "quiet_db (\<lambda>m a k (w :: unit world). (Inr (VList a), w))"
    by (simp add: quiet_db_def quiet_def)
  have "q_params ?q = Some VNone" by simp
  from proxy_drops_none_params [OF session_world_ctx(1,2) q this surjective_pairing,
      of "\<lambda>_. None" "()" False None "\<lambda>_ _ w. (Inr (), w)"] show ?thesis
    by (auto simp: select_one_def)
qed

end
