(* ===== verification/Confined.thy ===== *)
theory Confined
  imports Trace_Props Db
begin

text \<open>
  What code that uses the SDK does to the simulation state while it records: nested traced calls,
  captured blocks and queries (sim_sdk/trace.py, capture.py, db.py in one context).

  \<open>confined\<close> bounds a computation: it leaves the context as traced code does, appends stubs that
  are JSON data, draws ordinals only of given counters and changes only given files. Each primitive
  is confined if what it contains is and its own counter and file are within the bounds; so a
  bound for a whole program is the union of those of its primitives, for any sink.
\<close>

subsection \<open>Confined computations\<close>

definition recording_in :: "nat \<Rightarrow> 'a world \<Rightarrow> bool" where
  "recording_in r w \<longleftrightarrow> valid_ref w r \<and> current w = Some r \<and> mode (ctx_at w r) = RECORD \<and> has_sink r w"

definition same_but :: "path set \<Rightarrow> (path \<Rightarrow> json option) \<Rightarrow> (path \<Rightarrow> json option) \<Rightarrow> bool" where
  "same_but A fs fs' \<longleftrightarrow> (\<forall>p. p \<notin> A \<longrightarrow> fs' p = fs p)"

definition ordinals_but :: "string set \<Rightarrow> (string \<Rightarrow> int) \<Rightarrow> (string \<Rightarrow> int) \<Rightarrow> bool" where
  "ordinals_but K cnt cnt' \<longleftrightarrow> (\<forall>k. k \<notin> K \<longrightarrow> cnt' k = cnt k)"

definition confined_step :: "nat \<Rightarrow> string set \<Rightarrow> path set \<Rightarrow> 'a world \<Rightarrow> 'a world \<Rightarrow> bool" where
  "confined_step r K A w w' \<longleftrightarrow>
     frame_ok r w w' \<and> adds_plain r w w' \<and> ordinals_but K (ordinals_at w r) (ordinals_at w' r) \<and>
     same_but A (files w) (files w')"

definition confined :: "nat \<Rightarrow> string set \<Rightarrow> path set \<Rightarrow> ('a, 'r) prog \<Rightarrow> bool" where
  "confined r K A m \<longleftrightarrow> (\<forall>w. recording_in r w \<longrightarrow> confined_step r K A w (snd (m w)))"

lemma confinedD: "confined r K A m \<Longrightarrow> recording_in r w \<Longrightarrow> m w = (x, w') \<Longrightarrow> confined_step r K A w w'"
  by (metis confined_def snd_conv)

lemma confinedI: "(\<And>w x w'. recording_in r w \<Longrightarrow> m w = (x, w') \<Longrightarrow> confined_step r K A w w') \<Longrightarrow> confined r K A m"
  by (simp add: confined_def) (metis prod.collapse)

lemma same_butD: "same_but A fs fs' \<Longrightarrow> p \<notin> A \<Longrightarrow> fs' p = fs p"
  by (simp add: same_but_def)

lemma same_but_refl [simp]: "same_but A fs fs"
  by (simp add: same_but_def)

lemma same_but_trans: "same_but A f g \<Longrightarrow> same_but A g h \<Longrightarrow> same_but A f h"
  by (simp add: same_but_def)

lemma same_but_upd [simp]: "p \<in> A \<Longrightarrow> same_but A fs (fs(p \<mapsto> doc))"
  by (auto simp: same_but_def)

lemma same_but_empty [simp]: "same_but {} fs fs' \<longleftrightarrow> fs' = fs"
  by (auto simp: same_but_def)

lemma ordinals_but_refl [simp]: "ordinals_but K cnt cnt"
  by (simp add: ordinals_but_def)

lemma ordinals_but_trans: "ordinals_but K f g \<Longrightarrow> ordinals_but K g h \<Longrightarrow> ordinals_but K f h"
  by (simp add: ordinals_but_def)

lemma ordinals_but_draw [simp]: "k \<in> K \<Longrightarrow> ordinals_but K cnt (cnt(k := n))"
  by (auto simp: ordinals_but_def)

lemma confined_step_trans:
  "confined_step r K A u v \<Longrightarrow> confined_step r K A v w \<Longrightarrow> confined_step r K A u w"
  unfolding confined_step_def
  by (metis frame_ok_trans adds_plain_trans ordinals_but_trans same_but_trans)

lemma confined_step_mono: "confined_step r K A w w' \<Longrightarrow> K \<subseteq> K' \<Longrightarrow> A \<subseteq> A' \<Longrightarrow> confined_step r K' A' w w'"
  by (auto simp: confined_step_def ordinals_but_def same_but_def)

lemma confined_mono: "confined r K A m \<Longrightarrow> K \<subseteq> K' \<Longrightarrow> A \<subseteq> A' \<Longrightarrow> confined r K' A' m"
  unfolding confined_def by (blast intro: confined_step_mono)

lemma confined_step_refl: "valid_ref w r \<Longrightarrow> confined_step r K A w w"
  by (simp add: confined_step_def frame_ok_refl adds_plain_refl)

lemma recording_inD:
  assumes "recording_in r w"
  shows "valid_ref w r" "current w = Some r" "is_recording (ctx_at w r)" "is_active (ctx_at w r)"
    "\<not> is_replaying (ctx_at w r)" "\<exists>s. sink (ctx_at w r) = Some s"
  using assms by (auto simp: recording_in_def mode_simps)

lemma recording_in_frame: "recording_in r w \<Longrightarrow> frame_ok r w w' \<Longrightarrow> recording_in r w'"
  by (simp add: recording_in_def frame_ok_def)

lemma recording_in_step: "recording_in r w \<Longrightarrow> confined_step r K A w w' \<Longrightarrow> recording_in r w'"
  by (simp add: confined_step_def recording_in_frame)

lemma same_state_step:
  "contexts w' = contexts w \<Longrightarrow> current w' = current w \<Longrightarrow> same_but A (files w) (files w') \<Longrightarrow> valid_ref w r \<Longrightarrow>
    confined_step r K A w w'"
  using same_contexts [of w' w r]
  by (simp add: confined_step_def frame_ok_def adds_plain_refl ordinals_at_def)

lemma confined_quiet: "quiet m \<Longrightarrow> confined r K A m"
proof (rule confinedI)
  fix w :: "'a world" and x w' assume "quiet m" "recording_in r w" "m w = (x, w')"
  then show "confined_step r K A w w'"
    using quietD [of m w x w'] recording_inD(1) [of r w] by (simp add: same_state_step)
qed

lemma quiet_ret [simp]: "quiet (ret x)"
  by (simp add: quiet_def ret_def)

lemma quiet_raise [simp]: "quiet (raise e)"
  by (simp add: quiet_def raise_def)

lemma confined_andthen:
  assumes "confined r K A m" "\<And>x. confined r K A (f x)"
  shows "confined r K A (andthen m f)"
proof (rule confinedI)
  fix w :: "'a world" and y w' assume w: "recording_in r w" and run: "andthen m f w = (y, w')"
  obtain x w1 where m: "m w = (x, w1)" by fastforce
  have one: "confined_step r K A w w1" by (rule confinedD [OF assms(1) w m])
  show "confined_step r K A w w'"
  proof (cases x)
    case (Inl e)
    then show ?thesis using one run by (simp add: andthen_def m)
  next
    case (Inr z)
    then have "f z w1 = (y, w')" using run by (simp add: andthen_def m)
    then show ?thesis
      using confined_step_trans [OF one confinedD [OF assms(2) recording_in_step [OF w one]]] by blast
  qed
qed

subsection \<open>Sinks\<close>

text \<open>
  A sink takes plain events without raising (\<open>taking\<close>); this is where it puts those of a name and
  a fingerprint.
\<close>

definition writes_in ::
  "(nat \<Rightarrow> fixture_event \<Rightarrow> ('a, unit) prog) \<Rightarrow> string \<Rightarrow> string \<Rightarrow> path set \<Rightarrow> bool" where
  "writes_in emit q fp A \<longleftrightarrow>
     (\<forall>s e w. ev_qualname e = q \<and> ev_input_fingerprint e = fp \<and> plain (to_dict e) \<longrightarrow>
        same_but A (files w) (files (snd (emit s e w))))"

definition own_paths :: "path \<Rightarrow> string \<Rightarrow> string \<Rightarrow> path set" where
  "own_paths dir q fp = {trace_path dir (q, fp) n | n. True}"

lemma own_pathsI [simp]: "trace_path dir (q, fp) n \<in> own_paths dir q fp"
  by (auto simp: own_paths_def)

lemma persist_writes_in:
  assumes "own_paths dir q fp \<subseteq> A"
  shows "writes_in (\<lambda>s. persist_event dir) q fp A"
proof -
  have "trace_path dir (q, fp) n \<in> A" for n using assms own_pathsI by blast
  then show ?thesis by (simp add: writes_in_def persist_plain trace_path_def)
qed

lemma emit_step:
  assumes "taking emit" "writes_in emit q fp A" "valid_ref w r"
    and "ev_qualname e = q" "ev_input_fingerprint e = fp" "plain (to_dict e)"
  shows "confined_step r K A w (snd (emit s e w)) \<and> fst (emit s e w) = Inr ()"
proof -
  obtain x w' where e: "emit s e w = (x, w')" by fastforce
  have k: "keeps_contexts (emit s e)" using assms(1) by (simp add: taking_def)
  have "same_but A (files w) (files (snd (emit s e w)))" using assms(2,4-6) by (simp add: writes_in_def)
  then show ?thesis
    using keeps_contextsD [OF k e] takingD [OF assms(1,6), of s w] assms(3) same_state_step [of w' w]
    by (simp add: e)
qed

subsection \<open>Nested calls\<close>

lemma entered_recording:
  assumes "recording_in r w"
  shows "recording_in r ((enter_trace r w)\<lparr>ticks := t\<rparr>)"
    "ordinals_at ((enter_trace r w)\<lparr>ticks := t\<rparr>) r = ordinals_at w r"
    "collected_stubs (ctx_at ((enter_trace r w)\<lparr>ticks := t\<rparr>) r) = collected_stubs (ctx_at w r)"
  using assms recording_inD(1) [OF assms] by (simp_all add: recording_in_def ordinals_at_def)

lemma recording_in_next: "recording_in r w \<Longrightarrow> recording_in r (snd (next_ordinal_at r fp w))"
  using recording_inD(1) by (fastforce simp: recording_in_def)

text \<open>One recorded call of a confined body, whatever the sink does with its event.\<close>

lemma confined_record_step:
  assumes w: "recording_in r w" and c: "sig_ok c" "confined r K A (call_body c)" and t: "taking emit"
    and run: "call_prog has_avro emit c w = (res, w')"
  obtains (unbound) e where "call_binding c = Inl e" "call_op has_avro c = None" "res = Inl e" "w' = w"
  | (bound) a q fp u w3 e we s inner where "call_binding c = Inr a" "call_op has_avro c = Some (q, fp)"
      "CHR ''/'' \<notin> set fp" "frame_ok r w w'" "adds_plain r w w'"
      "recording_in r u" "app u = app w" "files u = files w"
      "ordinals_at u r = (ordinals_at w r)(fp := ordinals_at w r fp + 1)"
      "call_body c u = (res, w3)" "confined_step r K A u w3" "ordinals_at w' r = ordinals_at w3 r"
      "event_with inner e q a fp (ordinals_at w r fp) res" "files we = files w3" "app we = app w3"
      "files w' = files (snd (emit s e we))" "app w' = app (snd (emit s e we))"
proof -
  obtain name f args kwargs where c_eq: "c = (name, f, args, kwargs)" by (cases c)
  have sig: "distinct (map param_name (signature f))" and bd: "confined r K A (body f args kwargs)"
    using c by (simp_all add: c_eq)
  note v = recording_inD [OF w]
  let ?q = "traced_name name f"
  show ?thesis
  proof (rule prepare_call_cases [OF sig, of args kwargs has_avro ?q r w], goal_cases unbound bound)
    case (unbound e)
    then have "res = Inl e" "w' = w" using run v by (simp_all add: c_eq sim_trace_recording)
    then show ?case using unbound by (intro that(1) [of e]) (simp_all add: c_eq)
  next
    case (bound a fp)
    let ?w1 = "snd (next_ordinal_at r fp w)" and ?n = "ordinals_at w r fp"
    let ?u = "(enter_trace r ?w1)\<lparr>ticks := Suc (ticks ?w1)\<rparr>"
    have rec: "record_call has_avro emit ?q r a fp ?n (body f args kwargs) ?w1 = (res, w')"
      using run v bound by (simp add: c_eq sim_trace_recording ordinals_at_def)
    have w1: "recording_in r ?w1" by (rule recording_in_next [OF w])
    obtain s where s: "sink (ctx_at ?w1 r) = Some s" using recording_inD(6) [OF w1] by blast
    obtain result w3 where m: "body f args kwargs ?u = (result, w3)" by fastforce
    have st: "confined_step r K A ?u w3"
      by (rule confinedD [OF bd entered_recording(1) [OF w1] m])
    then have ok: "frame_ok r ?u w3" and ad: "adds_plain r ?w1 w3"
      using entered_recording(3) [OF w1] by (simp_all add: confined_step_def adds_plain_def)
    obtain e inner and we :: "'a world" where
      e: "event_with inner e ?q a fp ?n result" "res = result" "files we = files w3" "app we = app w3"
      "files w' = files (snd (emit s e we))" "app w' = app (snd (emit s e we))"
      "frame_ok r ?w1 w'" "ordinals_at w' r = ordinals_at w3 r" "adds_plain r ?w1 w'"
      using record_call_runs [OF recording_inD(1,2) [OF w1] s ok m ad bound(2) t rec] by metis
    show ?case
    proof (rule that(2) [of a ?q fp ?u w3 inner e we s])
      show "CHR ''/'' \<notin> set fp" using bound(5) by (auto simp: list_all_iff is_hex_def is_digit_def)
      show "frame_ok r w w'" using frame_ok_trans [OF frame_ok_next_ordinal e(7)] v(1) by blast
      show "adds_plain r w w'" using e(9) v(1) by (simp add: adds_plain_def)
      show "ordinals_at ?u r = (ordinals_at w r)(fp := ?n + 1)"
        using v(1) by (simp add: entered_recording(2) [OF w1] del: fun_upd_apply)
    qed (use bound v(1) e m st entered_recording(1) [OF w1] in \<open>simp_all add: c_eq\<close>)
  qed
qed

text \<open>A nested call draws its own ordinal and writes its own fixture beside what its body does.\<close>

lemma confined_call:
  assumes "sig_ok c" "confined r K A (call_body c)" "taking emit"
    and own: "\<And>q fp. call_op has_avro c = Some (q, fp) \<Longrightarrow> fp \<in> K \<and> writes_in emit q fp A"
  shows "confined r K A (call_prog has_avro emit c)"
proof (rule confinedI)
  fix w :: "'a world" and res w' assume w: "recording_in r w" and run: "call_prog has_avro emit c w = (res, w')"
  show "confined_step r K A w w'"
  proof (rule confined_record_step [OF w assms(1-3) run], goal_cases unbound bound)
    case (unbound e)
    then show ?case using recording_inD(1) [OF w] by (simp add: confined_step_refl)
  next
    case (bound a q fp u w3 e we s inner)
    note o = own [OF bound(2)]
    have "same_but A (files we) (files w')"
      using o bound(13) unfolding bound(16) writes_in_def event_with_def by blast
    moreover have "same_but A (files w) (files we)"
      using bound(8,11,14) by (simp add: confined_step_def)
    moreover have "ordinals_but K (ordinals_at w r) (ordinals_at u r)" using o by (simp add: bound(9))
    moreover have "ordinals_but K (ordinals_at u r) (ordinals_at w' r)"
      using bound(11,12) by (simp add: confined_step_def)
    ultimately show ?case
      using bound(4,5) same_but_trans ordinals_but_trans unfolding confined_step_def by blast
  qed
qed

subsection \<open>Captures and queries\<close>

lemma next_ordinal_step: "valid_ref w r \<Longrightarrow> k \<in> K \<Longrightarrow> confined_step r K A w (snd (next_ordinal_at r k w))"
  by (simp add: confined_step_def frame_ok_next_ordinal adds_plain_refl)

lemma push_stub_step: "valid_ref w r \<Longrightarrow> plain s \<Longrightarrow> confined_step r K A w (push_stub r s w)"
  by (simp add: confined_step_def frame_ok_def adds_plain_def ordinals_at_def)

text \<open>Both hand an event to the sink after two readings.\<close>

lemma emit_later_step:
  assumes "taking emit" "writes_in emit q fp A" "valid_ref w r"
    and "contexts w1 = contexts w" "current w1 = current w" "files w1 = files w"
    and "ev_qualname e = q" "ev_input_fingerprint e = fp" "plain (to_dict e)"
  shows "confined_step r K A w (snd (emit s e w1)) \<and> fst (emit s e w1) = Inr ()"
proof -
  have "valid_ref w1 r" using assms(3) same_contexts [OF assms(4), of r] by simp
  from emit_step [OF assms(1,2) this assms(7-9), of K s] show ?thesis
    using confined_step_trans [OF same_state_step [OF assms(4,5)]] assms(3,6) by auto
qed

lemma capture_event_fields:
  "plain (to_dict (capture_event fid run date label n v))"
  "ev_qualname (capture_event fid run date label n v) = capture_name label"
  "ev_input_fingerprint (capture_event fid run date label n v) = []"
  by (rule to_dict_plain) (simp_all add: capture_event_def fixture_event_init_def make_serializable_plain_lemma)

lemma write_capture_step:
  assumes "valid_ref w r" "sink (ctx_at w r) = Some s" "taking emit" "writes_in emit (capture_name label) [] A"
  shows "confined_step r K A w (snd (write_capture emit label n v r w)) \<and>
    fst (write_capture emit label n v r w) = Inr ()"
proof -
  obtain fid date w1 where "write_capture emit label n v r w =
      emit s (capture_event fid (run_id (ctx_at w r)) date label n v) w1"
    "contexts w1 = contexts w" "current w1 = current w" "files w1 = files w"
    using assms(2) by (simp add: write_capture_def readings Let_def)
  then show ?thesis using emit_later_step [OF assms(3,4,1)] capture_event_fields by simp
qed

text \<open>
  A captured block draws the ordinal of its label, and its event has no fingerprint. Beginning and end
  are taken apart, for blocks that are suspended in between.
\<close>

abbreviation entered_capture :: "nat \<Rightarrow> string \<Rightarrow> int \<Rightarrow> sim_capture" where
  "entered_capture r label n \<equiv> \<lparr>cap_label = label, cap_entered = True, cap_ctx = Some r, cap_ordinal = n\<rparr>"

lemma capture_begins:
  assumes w: "recording_in r w" and own: "capture_name label \<in> K"
  obtains h u where
    "capture_setup (sim_capture_init label) w = (Inr (h, entered_capture r label (ordinals_at w r (capture_name label))), u)"
    "\<not> h_replaying h" "confined_step r K A w u" "app u = app w"
proof -
  note v = recording_inD [OF w]
  let ?n = "ordinals_at w r (capture_name label)" and ?u = "snd (next_ordinal_at r (capture_name label) w)"
  let ?h = "\<lparr>h_label = label, h_ordinal = ?n, h_ctx = r, h_result = VNone, h_result_set = False,
      h_replaying = False\<rparr>"
  have "capture_setup (sim_capture_init label) w = (Inr (?h, entered_capture r label ?n), ?u)"
    using v(1,2,4,5) by (simp add: capture_setup_active capture_handle_init_def is_replaying_def Let_def)
  then show ?thesis by (rule that) (simp_all add: next_ordinal_step [OF v(1) own])
qed

lemma capture_ends:
  assumes w: "recording_in r w" and own: "taking emit" "writes_in emit (capture_name label) [] A"
  shows "confined_step r K A w (snd (capture_teardown emit (entered_capture r label n) h w)) \<and>
    fst (capture_teardown emit (entered_capture r label n) h w) = Inr ()"
proof -
  let ?cap = "entered_capture r label n"
  define w1 where "w1 = (if h_result_set h then w else add_log (NoResultWarning label) w)"
  define w2 where "w2 = push_stub r (capture_data label n (h_result h)) w1"
  have s1: "confined_step r K A w w1"
    by (rule same_state_step) (simp_all add: w1_def recording_inD(1) [OF w])
  note w1 = recording_in_step [OF w s1]
  have s2: "confined_step r K A w1 w2"
    unfolding w2_def by (rule push_stub_step) (simp_all add: recording_inD(1) [OF w1])
  note w2 = recording_in_step [OF w1 s2]
  obtain s where s: "sink (ctx_at w2 r) = Some s" using recording_inD(6) [OF w2] by blast
  have "capture_teardown emit ?cap h w = write_capture emit label n (h_result h) r w2"
    using recording_inD(3,4) [OF w] by (simp add: capture_teardown_def w1_def w2_def Let_def)
  then show ?thesis
    using write_capture_step [OF recording_inD(1) [OF w2] s own, of K n "h_result h"]
      confined_step_trans [OF s1 confined_step_trans [OF s2]] by simp
qed

lemma recorded_capture:
  assumes block: "\<And>h. confined r K A (\<lambda>w. case block h w of (x, h', w') \<Rightarrow> (x, w'))"
    and own: "capture_name label \<in> K" "taking emit" "writes_in emit (capture_name label) [] A"
    and w: "recording_in r w" and run: "with_capture emit label block w = (y, w')"
  obtains h u h' w2 where "\<not> h_replaying h" "recording_in r u" "app u = app w" "block h u = (y, h', w2)"
    "confined_step r K A w w'"
proof -
  let ?cap = "entered_capture r label (ordinals_at w r (capture_name label))"
  obtain h u where entry: "capture_setup (sim_capture_init label) w = (Inr (h, ?cap), u)" "\<not> h_replaying h"
    and s1: "confined_step r K A w u" "app u = app w"
    by (rule capture_begins [OF w own(1), where A = A])
  note u = recording_in_step [OF w s1(1)]
  obtain x h' w2 where blk: "block h u = (x, h', w2)" using prod_cases3 by blast
  have s2: "confined_step r K A u w2" by (rule confinedD [OF block [of h] u, where x = x]) (simp add: blk)
  note exit = capture_ends [OF recording_in_step [OF u s2] own(2,3),
      where K = K and n = "ordinals_at w r (capture_name label)" and h = h']
  have "w' = snd (capture_teardown emit ?cap h' w2)" "y = x"
    using run exit by (auto simp: with_capture_def entry(1) blk split: prod.splits)
  then show ?thesis
    using exit confined_step_trans [OF s1(1) confined_step_trans [OF s2]] entry(2) u s1(2) blk
    by (intro that [of h u h' w2]) simp_all
qed

text \<open>Each end on its own, as a step between which other calls may run.\<close>

lemma confined_capture_setup:
  assumes "capture_name label \<in> K"
  shows "confined r K A (andthen (capture_setup (sim_capture_init label)) (\<lambda>_. ret VNone))"
proof (rule confinedI)
  fix w :: "'a world" and x w' assume w: "recording_in r w"
    and run: "andthen (capture_setup (sim_capture_init label)) (\<lambda>_. ret VNone) w = (x, w')"
  show "confined_step r K A w w'"
    by (rule capture_begins [OF w assms, where A = A]) (use run in \<open>simp add: andthen_def ret_def\<close>)
qed

lemma confined_capture_teardown:
  assumes "taking emit" "writes_in emit (capture_name label) [] A"
  shows "confined r K A (andthen (capture_teardown emit (entered_capture r label n) h) (\<lambda>_. ret VNone))"
proof (rule confinedI)
  fix w :: "'a world" and x w' assume w: "recording_in r w"
    and run: "andthen (capture_teardown emit (entered_capture r label n) h) (\<lambda>_. ret VNone) w = (x, w')"
  have "confined_step r K A w (snd (capture_teardown emit (entered_capture r label n) h w)) \<and>
      fst (capture_teardown emit (entered_capture r label n) h w) = Inr ()"
    by (rule capture_ends [OF w assms])
  then show "confined_step r K A w w'"
    using run by (simp add: andthen_def ret_def split: sum.splits prod.splits)
qed

lemma confined_capture:
  assumes "\<And>h. confined r K A (\<lambda>w. case block h w of (x, h', w') \<Rightarrow> (x, w'))"
    and "capture_name label \<in> K" "taking emit" "writes_in emit (capture_name label) [] A"
  shows "confined r K A (with_capture emit label block)"
  by (rule confinedI, rule recorded_capture [OF assms]) auto

lemma confined_captured_block:
  assumes "confined r K A dep"
  shows "confined r K A (\<lambda>w. case captured_block dep h w of (x, h', w') \<Rightarrow> (x, w'))"
proof -
  have "snd (case captured_block dep h w of (x, h', w') \<Rightarrow> (x, w')) = (if h_replaying h then w else snd (dep w))" for w
    by (simp add: captured_block_def split: prod.split sum.split)
  then show ?thesis
    using assms confined_step_refl recording_inD(1) unfolding confined_def by metis
qed

text \<open>A query draws the ordinal of its fingerprints; its event carries both, cut short.\<close>

lemma write_db_fixture_step:
  assumes "valid_ref w r" "sink (ctx_at w r) = Some x" "taking emit"
    and "writes_in emit (''db:'' @ name) (short_fps s p) A"
  obtains w' where "write_db_fixture emit name sql params s p n v r w = (Inr (), w')" "confined_step r K A w w'"
proof -
  obtain fid date w1 where w1: "write_db_fixture emit name sql params s p n v r w =
      emit x (db_event fid (run_id (ctx_at w r)) date name sql params s p n v) w1"
    "contexts w1 = contexts w" "current w1 = current w" "files w1 = files w"
    using assms(2) by (simp add: write_db_fixture_def readings Let_def)
  let ?e = "db_event fid (run_id (ctx_at w r)) date name sql params s p n v"
  have e: "ev_qualname ?e = ''db:'' @ name" "ev_input_fingerprint ?e = short_fps s p" "plain (to_dict ?e)"
    by (simp_all add: db_event_def fixture_event_init_def)
      (rule to_dict_plain; simp add: make_serializable_plain_lemma)
  from emit_later_step [OF assms(3,4,1) w1(2-4) e, of K x] show ?thesis
    by (intro that [of "snd (emit x ?e w1)"]) (simp_all add: w1(1) prod_eq_iff)
qed

definition query_bounds ::
  "bool \<Rightarrow> sql_parser option \<Rightarrow> (nat \<Rightarrow> fixture_event \<Rightarrow> ('a, unit) prog) \<Rightarrow> string set \<Rightarrow> path set \<Rightarrow> query \<Rightarrow> bool" where
  "query_bounds has_avro sqlparse emit K A q \<longleftrightarrow>
     (\<forall>s p. compute_query_fingerprint has_avro sqlparse (q_sql q) (q_param_value q) = Inr (s, p) \<longrightarrow>
        combined_fp (q_name q) s p \<in> K \<and> writes_in emit (''db:'' @ q_name q) (short_fps s p) A)"

lemma recorded_query:
  assumes "\<And>m a k. confined r K A (db m a k)" "taking emit" "query_bounds has_avro sqlparse emit K A q"
    and w: "recording_in r w" and run: "query_prog has_avro sqlparse emit db q w = (y, w')"
  obtains u w2 where "recording_in r u" "app u = app w"
    "real_call db (q_method q) (q_sql q) (q_param_value q) (q_args q) (q_kwargs q) u = (y, w2)"
    "confined_step r K A w w'"
proof -
  note v = recording_inD [OF w]
  obtain s p where fps: "compute_query_fingerprint has_avro sqlparse (q_sql q) (q_param_value q) = Inr (s, p)"
    by (rule compute_query_fingerprint_total)
  define k where "k = combined_fp (q_name q) s p"
  define n where "n = ordinals_at w r k"
  have own: "k \<in> K" "writes_in emit (''db:'' @ q_name q) (short_fps s p) A"
    using assms(3) fps by (simp_all add: query_bounds_def k_def)
  let ?w1 = "snd (next_ordinal_at r k w)"
  let ?real = "real_call db (q_method q) (q_sql q) (q_param_value q) (q_args q) (q_kwargs q)"
  have s1: "confined_step r K A w ?w1" by (rule next_ordinal_step [OF v(1) own(1)])
  note w1 = recording_in_step [OF w s1]
  have prog: "(y, w') =
      (let (res, pr, w2) = db_record_call emit db (q_method q) (q_sql q) (q_param_value q) s p n (q_name q) r
            (q_args q) (q_kwargs q) (db_proxy_init (q_name q) r) ?w1 in (res, w2))"
    using query_prog_active [OF v(2,4) fps refl refl] recording_inD(3,5) [OF w1] run
    by (simp add: k_def n_def)
  obtain x w2 where real: "?real ?w1 = (x, w2)" by fastforce
  have db: "confined r K A ?real" using assms(1) by (simp add: real_call_def confined_def)
  have s2: "confined_step r K A ?w1 w2" by (rule confinedD [OF db w1 real])
  note w2 = recording_in_step [OF w1 s2]
  have "y = x \<and> confined_step r K A w w'"
  proof (cases x)
    case (Inl e)
    then show ?thesis using confined_step_trans [OF s1 s2] prog by (simp add: db_record_call_def real)
  next
    case (Inr val)
    obtain z where z: "sink (ctx_at w2 r) = Some z" using recording_inD(6) [OF w2] by blast
    obtain w3 where w3: "write_db_fixture emit (q_name q) (q_sql q) (q_param_value q) s p n val r w2 = (Inr (), w3)"
      "confined_step r K A w2 w3"
      using write_db_fixture_step [OF recording_inD(1) [OF w2] z assms(2) own(2)] by metis
    let ?w4 = "push_stub r (db_stub (q_name q) (q_sql q) n (make_serializable val) ''record'') w3"
    have "confined_step r K A w3 ?w4"
      using recording_inD(1) [OF recording_in_step [OF w2 w3(2)]]
      by (intro push_stub_step) (simp_all add: db_stub_def make_serializable_plain_lemma)
    moreover have "y = x" "w' = ?w4" using prog by (simp_all add: db_record_call_def real Inr w3(1))
    ultimately show ?thesis using s1 s2 w3(2) confined_step_trans by blast
  qed
  then show ?thesis using w1 real by (intro that [of ?w1 w2]) simp_all
qed

lemma confined_query:
  assumes "\<And>m a k. confined r K A (db m a k)" "taking emit" "query_bounds has_avro sqlparse emit K A q"
  shows "confined r K A (query_prog has_avro sqlparse emit db q)"
  by (rule confinedI, rule recorded_query [OF assms]) auto

end
