(* ===== verification/Digests.thy ===== *)
theory Digests
  imports Trace
begin

text \<open>
  Two fingerprints computed by the kernel, canonical text and SHA-256 included: those of calls of
  functions \<open>tick\<close> and \<open>outer\<close> without arguments (sim_sdk/trace.py, \<open>_compute_fingerprint\<close>). They are the
  concrete inputs of the properties whose hypotheses compare fingerprints.
\<close>

lemma tick_fingerprint: "compute_fingerprint False ''tick'' (VDict []) =
  Inr ''a6d487d47c1bfa65645fe763e0587e488998c886d6297256c303ceb953e3e32e''"
proof -
  let ?m = "[123, 34, 97, 114, 103, 115, 34, 58, 123, 125, 44, 34,
      113, 117, 97, 108, 110, 97, 109, 101, 34, 58, 34, 116,
      105, 99, 107, 34, 125] :: 8 word list"
  have canon: "json_compact False (plain_json (norm_dicts (VDict [field ''qualname'' (VStr ''tick''),
      field ''args'' (VDict [])]))) = ''{\"args\":{},\"qualname\":\"tick\"}''"
    by (simp add: json_string_def escape_char_def)
  have bytes: "utf8_encode ''{\"args\":{},\"qualname\":\"tick\"}'' = ?m"
    by (simp add: utf8_encode_def utf8_char_def)
  have zeros: "(replicate 26 0 :: 8 word list) = [0, 0, 0, 0, 0, 0, 0, 0, 0, 0, 0, 0, 0, 0, 0, 0, 0, 0, 0, 0, 0, 0, 0, 0, 0, 0]"
    by code_simp
  have block: "words_of_bytes (sha_pad ?m) =
      [2065850738, 1735598650, 2071800866, 1903518060, 1851878757, 574235252, 1768123170, 2105540608,
      0, 0, 0, 0, 0, 0, 0, 232]"
    by (simp add: sha_pad_def zeros)
  have state: "sha_blocks sha_H0 [2065850738, 1735598650, 2071800866, 1903518060, 1851878757, 574235252, 1768123170, 2105540608,
      0, 0, 0, 0, 0, 0, 0, 232] =
      [2798946260, 2082208357, 1684006755, 3763895880, 2308491398, 3593040470, 3271806649, 1407443758]"
    by (simp add: sha_blocks.simps compress_def sha_H0_def sha_K_def round_defs)
  have "sha256_digest ?m = [166, 212, 135, 212, 124, 27, 250, 101, 100, 95, 231, 99,
      224, 88, 126, 72, 137, 152, 200, 134, 214, 41, 114, 86,
      195, 3, 206, 185, 83, 227, 227, 46]"
    unfolding sha256_digest_def block state by (simp add: word_bytes_def)
  then have "sha256_hexdigest (utf8_encode ''{\"args\":{},\"qualname\":\"tick\"}'') = ''a6d487d47c1bfa65645fe763e0587e488998c886d6297256c303ceb953e3e32e''"
    by (simp add: bytes sha256_hexdigest_def bytes_hex_def hex_byte_def hex_digit_def char_of_def bit_0)
  moreover have "plain (VDict [field ''qualname'' (VStr ''tick''), field ''args'' (VDict [])])" by simp
  ultimately show ?thesis
    unfolding compute_fingerprint_def by (simp only: fingerprint_plain canon)
qed

lemma outer_fingerprint: "compute_fingerprint False ''outer'' (VDict []) =
  Inr ''9162b79bcf708091222fc35070410ece090438d3f9737b6d7fa6e0bfaf0215f3''"
proof -
  let ?m = "[123, 34, 97, 114, 103, 115, 34, 58, 123, 125, 44, 34,
      113, 117, 97, 108, 110, 97, 109, 101, 34, 58, 34, 111,
      117, 116, 101, 114, 34, 125] :: 8 word list"
  have canon: "json_compact False (plain_json (norm_dicts (VDict [field ''qualname'' (VStr ''outer''),
      field ''args'' (VDict [])]))) = ''{\"args\":{},\"qualname\":\"outer\"}''"
    by (simp add: json_string_def escape_char_def)
  have bytes: "utf8_encode ''{\"args\":{},\"qualname\":\"outer\"}'' = ?m"
    by (simp add: utf8_encode_def utf8_char_def)
  have zeros: "(replicate 25 0 :: 8 word list) = [0, 0, 0, 0, 0, 0, 0, 0, 0, 0, 0, 0, 0, 0, 0, 0, 0, 0, 0, 0, 0, 0, 0, 0, 0]"
    by code_simp
  have block: "words_of_bytes (sha_pad ?m) =
      [2065850738, 1735598650, 2071800866, 1903518060, 1851878757, 574235247, 1970562418, 578650112,
      0, 0, 0, 0, 0, 0, 0, 240]"
    by (simp add: sha_pad_def zeros)
  have state: "sha_blocks sha_H0 [2065850738, 1735598650, 2071800866, 1903518060, 1851878757, 574235247, 1970562418, 578650112,
      0, 0, 0, 0, 0, 0, 0, 240] =
      [2439165851, 3480256657, 573555536, 1883311822, 151271635, 4185095021, 2141642943, 2936149491]"
    by (simp add: sha_blocks.simps compress_def sha_H0_def sha_K_def round_defs)
  have "sha256_digest ?m = [145, 98, 183, 155, 207, 112, 128, 145, 34, 47, 195, 80,
      112, 65, 14, 206, 9, 4, 56, 211, 249, 115, 123, 109,
      127, 166, 224, 191, 175, 2, 21, 243]"
    unfolding sha256_digest_def block state by (simp add: word_bytes_def)
  then have "sha256_hexdigest (utf8_encode ''{\"args\":{},\"qualname\":\"outer\"}'') = ''9162b79bcf708091222fc35070410ece090438d3f9737b6d7fa6e0bfaf0215f3''"
    by (simp add: bytes sha256_hexdigest_def bytes_hex_def hex_byte_def hex_digit_def char_of_def bit_0)
  moreover have "plain (VDict [field ''qualname'' (VStr ''outer''), field ''args'' (VDict [])])" by simp
  ultimately show ?thesis
    unfolding compute_fingerprint_def by (simp only: fingerprint_plain canon)
qed

end
