(* ===== verification/Trace_Nested.thy ===== *)
theory Trace_Nested
  imports Confined Digests
begin

text \<open>
  Recorded sessions of traced calls whose bodies use the SDK themselves (sim_sdk/trace.py, capture.py,
  db.py in one context).

  Recording a body draws the ordinals of what it contains and leaves its fixtures; replaying the
  call draws its own ordinal only, since the body does not run. \<open>confined\<close> (theory Confined) bounds what a
  body may draw and write. A session replays if the calls at its top level stay clear of those
  bounds, and goes wrong if they do not.
\<close>

subsection \<open>One call through a sink that writes fixture files\<close>

lemma nested_record_step:
  assumes w: "recording_in r w" and c: "sig_ok c" "confined r K A (call_body c)"
    and run: "call_prog has_avro (\<lambda>s. persist_event dir) c w = (res, w')"
  obtains (unbound) e where "call_binding c = Inl e" "call_op has_avro c = None" "res = Inl e" "w' = w"
  | (bound) a q fp doc u w3 where "call_binding c = Inr a" "call_op has_avro c = Some (q, fp)"
      "CHR ''/'' \<notin> set fp" "frame_ok r w w'"
      "ordinals_but K ((ordinals_at w r)(fp := ordinals_at w r fp + 1)) (ordinals_at w' r)"
      "same_but A ((files w)(trace_path dir (q, fp) (ordinals_at w r fp) \<mapsto> doc)) (files w')"
      "stored_output doc = (case res of Inr v \<Rightarrow> make_serializable v | Inl _ \<Rightarrow> VNone)"
      "recording_in r u" "app u = app w" "files u = files w"
      "ordinals_at u r = (ordinals_at w r)(fp := ordinals_at w r fp + 1)" "call_body c u = (res, w3)"
      "files w' = (files w3)(trace_path dir (q, fp) (ordinals_at w r fp) \<mapsto> doc)"
      "ordinals_at w' r = ordinals_at w3 r" "app w' = app w3"
proof -
  show ?thesis
  proof (rule confined_record_step [OF w c taking_persist run], goal_cases unbound bound)
    case (unbound e)
    then show ?case by (rule that(1))
  next
    case (bound a q fp u w3 e we s inner)
    let ?n = "ordinals_at w r fp" and ?doc = "plain_json (to_dict e)"
    have pl: "plain (to_dict e)" using bound(13) by (simp add: event_with_def)
    have files: "files w' = (files w3)(trace_path dir (q, fp) ?n \<mapsto> ?doc)"
      using bound(13,14,16) by (simp add: persist_plain [OF pl] trace_path_def event_with_def)
    show ?case
    proof (rule that(2) [of a q fp ?doc u w3])
      show "ordinals_but K ((ordinals_at w r)(fp := ?n + 1)) (ordinals_at w' r)"
        using bound(9,11,12) by (simp add: confined_step_def del: fun_upd_apply)
      have "same_but A (files w) (files w3)" using bound(8,11) by (simp add: confined_step_def)
      then show "same_but A ((files w)(trace_path dir (q, fp) ?n \<mapsto> ?doc)) (files w')"
        by (simp add: same_but_def files)
      show "stored_output ?doc = (case res of Inr v \<Rightarrow> make_serializable v | Inl _ \<Rightarrow> VNone)"
        using bound(13) by (simp add: stored_output_event [OF pl] event_with_def outcome_serialized)
      show "app w' = app w3" using bound(15,17) by (simp add: persist_plain [OF pl])
    qed (use bound files in simp_all)
  qed
qed

text \<open>A call of a quiet body is the special case of empty bounds.\<close>

lemma quiet_record_step:
  assumes w: "recording_in r w" and c: "quiet_call c"
    and run: "call_prog has_avro (\<lambda>s. persist_event dir) c w = (res, w')"
  obtains (unbound) e where "call_binding c = Inl e" "call_op has_avro c = None" "res = Inl e" "w' = w"
  | (bound) a q fp doc where "call_binding c = Inr a" "call_op has_avro c = Some (q, fp)"
      "CHR ''/'' \<notin> set fp" "recording_in r w'"
      "ordinals_at w' r = (ordinals_at w r)(fp := ordinals_at w r fp + 1)"
      "files w' = (files w)(trace_path dir (q, fp) (ordinals_at w r fp) \<mapsto> doc)"
      "stored_output doc = (case res of Inr v \<Rightarrow> make_serializable v | Inl _ \<Rightarrow> VNone)"
      "\<exists>u w3. app u = app w \<and> call_body c u = (res, w3) \<and> app w' = app w3"
proof -
  have "sig_ok c" "confined r {} {} (call_body c)"
    using c by (cases c; auto intro: confined_quiet)+
  from w this run show ?thesis
  proof (rule nested_record_step, goal_cases unbound bound)
    case (unbound e)
    then show ?case by (rule that(1))
  next
    case (bound a q fp doc u w3)
    then show ?case
      using recording_in_frame [OF w bound(4)]
      by (intro that(2) [of a q fp doc]) (auto simp: ordinals_but_def simp del: fun_upd_apply)
  qed
qed

text \<open>What a nested call through such a sink may draw and write.\<close>

lemma confined_persisted_call:
  assumes "quiet_call c" "call_op has_avro c = Some (q, fp)"
  shows "confined r {fp} (own_paths dir q fp) (call_prog has_avro (\<lambda>s. persist_event dir) c)"
proof (rule confined_call [OF quiet_sig_ok [OF assms(1)] _ taking_persist])
  show "confined r {fp} (own_paths dir q fp) (call_body c)"
    using assms(1) by (cases c) (auto intro: confined_quiet)
qed (use assms(2) persist_writes_in in auto)

lemma other_prefix_path:
  assumes "CHR ''/'' \<notin> set (snd op)" "CHR ''/'' \<notin> set fp" "take 16 (snd op) \<noteq> take 16 fp"
  shows "trace_path dir op n \<notin> own_paths dir q fp"
  using trace_store.path_determines [of op "(q, fp)" dir n] assms by (auto simp: own_paths_def)

subsection \<open>Sessions\<close>

definition clear_of :: "path \<Rightarrow> string set \<Rightarrow> path set \<Rightarrow> string \<times> string \<Rightarrow> bool" where
  "clear_of dir K A op \<longleftrightarrow> snd op \<notin> K \<and> (\<forall>n. trace_path dir op n \<notin> A)"

lemma call_op_binding: "call_op has_avro c = Some op \<Longrightarrow> \<exists>a. call_binding c = Inr a"
  by (cases c) (auto split: sum.splits)

lemma record_run_but:
  assumes "list_all (clear_of dir K A) (map fst xs)" "ordinals_but K cnt cnt'" "same_but A fs fs'"
  shows "same_but A (record_run snd (trace_path dir) xs cnt fs) (record_run snd (trace_path dir) xs cnt' fs')"
  using assms
proof (induction xs arbitrary: cnt cnt' fs fs')
  case (Cons x xs)
  obtain op d where x: "x = (op, d)" by fastforce
  have same: "cnt' (snd op) = cnt (snd op)"
    using Cons.prems(1,2) by (simp add: x clear_of_def ordinals_but_def)
  show ?case
    unfolding x record_run.simps same
  proof (rule Cons.IH)
    show "ordinals_but K (cnt(snd op := cnt (snd op) + 1)) (cnt'(snd op := cnt (snd op) + 1))"
      using Cons.prems(2) by (simp add: ordinals_but_def)
    show "same_but A (case d of None \<Rightarrow> fs | Some j \<Rightarrow> fs(trace_path dir op (cnt (snd op)) \<mapsto> j))
      (case d of None \<Rightarrow> fs' | Some j \<Rightarrow> fs'(trace_path dir op (cnt (snd op)) \<mapsto> j))"
      using Cons.prems(3) by (simp add: same_but_def split: option.split)
  qed (use Cons.prems(1) in simp)
qed simp

lemma replay_run_but:
  assumes "list_all (clear_of dir K A) ops" "same_but A fs fs'"
  shows "replay_run snd (trace_path dir) ops cnt fs' = replay_run snd (trace_path dir) ops cnt fs"
  using assms by (induction ops arbitrary: cnt) (simp_all add: clear_of_def same_butD del: split_paired_All)

definition confined_calls :: "nat \<Rightarrow> string set \<Rightarrow> path set \<Rightarrow> 'a call list \<Rightarrow> bool" where
  "confined_calls r K A cs \<longleftrightarrow> list_all (\<lambda>c. sig_ok c \<and> confined r K A (call_body c)) cs"

lemma nested_record_session:
  assumes "recording_in r w" "confined_calls r K A cs" "list_all (clear_of dir K A) (call_ops has_avro cs)"
    and "run_all (map (call_prog has_avro (\<lambda>s. persist_event dir)) cs) w = (results, w')"
  shows "\<exists>docs. length docs = length (call_ops has_avro cs) \<and> answers cs docs = map2 replayed cs results \<and>
    list_all (\<lambda>op. CHR ''/'' \<notin> set (snd op)) (call_ops has_avro cs) \<and>
    same_but A (record_run snd (trace_path dir) (zip (call_ops has_avro cs) (map Some docs))
      (ordinals_at w r) (files w)) (files w')"
  using assms
proof (induction cs arbitrary: w results)
  case Nil
  then show ?case by simp
next
  case (Cons c cs)
  let ?emit = "\<lambda>s. persist_event dir"
  obtain x w1 where x: "call_prog has_avro ?emit c w = (x, w1)" by fastforce
  obtain xs w2 where xs: "run_all (map (call_prog has_avro ?emit) cs) w1 = (xs, w2)" by fastforce
  have res: "results = x # xs" "w' = w2" using Cons.prems(4) by (simp_all add: x xs)
  have c: "sig_ok c" "confined r K A (call_body c)" "confined_calls r K A cs"
    using Cons.prems(2) by (simp_all add: confined_calls_def)
  show ?case
  proof (rule nested_record_step [OF Cons.prems(1) c(1,2) x], goal_cases unbound bound)
    case (unbound e)
    then show ?case
      using Cons.IH [of w xs] Cons.prems(1,3) c(3) xs by (auto simp: res replayed_def)
  next
    case (bound a q fp doc u w3)
    have ops: "call_ops has_avro (c # cs) = (q, fp) # call_ops has_avro cs" using bound(2) by simp
    have clear: "list_all (clear_of dir K A) (call_ops has_avro cs)" using Cons.prems(3) unfolding ops by simp
    obtain docs where docs: "length docs = length (call_ops has_avro cs)"
      "answers cs docs = map2 replayed cs xs"
      "list_all (\<lambda>op. CHR ''/'' \<notin> set (snd op)) (call_ops has_avro cs)"
      "same_but A (record_run snd (trace_path dir) (zip (call_ops has_avro cs) (map Some docs))
        (ordinals_at w1 r) (files w1)) (files w2)"
      using Cons.IH [OF recording_in_frame [OF Cons.prems(1) bound(4)] c(3) clear, of xs] xs by (auto simp: res)
    let ?zs = "zip (call_ops has_avro cs) (map Some docs)"
    have "map fst ?zs = call_ops has_avro cs" using docs(1) by simp
    then have "same_but A (record_run snd (trace_path dir) ?zs
        ((ordinals_at w r)(fp := ordinals_at w r fp + 1))
        ((files w)(trace_path dir (q, fp) (ordinals_at w r fp) \<mapsto> doc)))
      (record_run snd (trace_path dir) ?zs (ordinals_at w1 r) (files w1))"
      using clear by (intro record_run_but [OF _ bound(5,6)]) simp
    from same_but_trans [OF this docs(4)]
    have "same_but A (record_run snd (trace_path dir) (zip (call_ops has_avro (c # cs)) (map Some (doc # docs)))
        (ordinals_at w r) (files w)) (files w')"
      unfolding ops by (simp add: res del: fun_upd_apply)
    moreover have "answers (c # cs) (doc # docs) = map2 replayed (c # cs) results"
      using bound(1,7) docs(2) by (simp add: res replayed_def)
    ultimately show ?case
      using docs(1,3) bound(3) unfolding ops by (intro exI [of _ "doc # docs"]) simp
  qed
qed

text \<open>
  C2: sessions with nested calls replay. Record a session whose traced functions may call traced
  functions, capture and query in their bodies, with ordinals and fixtures confined to bounds the
  calls at the top level stay clear of, through a sink that writes each event to its fixture file.
  In another world with those files and the same ordinals, every call returns, without running
  anything, the serialised form of what it returned, or the same \<open>TypeError\<close>, or \<open>None\<close> if it raised.
\<close>

theorem nested_sessions_replay:
  assumes "recording_in r w" "confined_calls r K A cs" "list_all (clear_of dir K A) (call_ops has_avro cs)"
    and "no_prefix_clash has_avro cs"
    and "run_all (map (call_prog has_avro (\<lambda>s. persist_event dir)) cs) w = (results, w1)"
    and "session_ctx REPLAY dir s v" "files v = files w1" "ordinals_at v s = ordinals_at w r"
  shows "fst (run_all (map (call_prog has_avro emit) cs) v) = map2 replayed cs results"
proof -
  let ?ops = "call_ops has_avro cs"
  obtain docs where docs: "length docs = length ?ops" "answers cs docs = map2 replayed cs results"
    "list_all (\<lambda>op. CHR ''/'' \<notin> set (snd op)) ?ops"
    "same_but A (record_run snd (trace_path dir) (zip ?ops (map Some docs)) (ordinals_at w r) (files w)) (files w1)"
    using nested_record_session [OF assms(1-3,5)] by blast
  have "replay_run snd (trace_path dir) ?ops (ordinals_at w r) (files w1) = map Some docs"
    using replay_run_but [OF assms(3) docs(4)]
      trace_store.replay_of_full_record [of ?ops docs dir "ordinals_at w r" "files w"] docs(1,3) assms(4)
    by (simp add: no_prefix_clash_def)
  then have rep: "replay_run snd (trace_path dir) ?ops (ordinals_at v s) (files v) = map Some docs"
    by (simp add: assms(7,8))
  have "list_all sig_ok cs" using assms(2) by (simp add: confined_calls_def list_all_iff)
  from replay_session [OF assms(6) this rep] show ?thesis by (simp add: docs(2))
qed

text \<open>
  C32: without the bounds replay goes wrong. Record a traced call whose body calls another traced
  function and returns what it returns, and then that other function directly. In the replay the
  first call does not run its body, so the second draws the ordinal of the nested call and returns
  what the nested call returned, not what it returned itself.
\<close>

theorem nested_call_shifts_replay:
  assumes "recording_in r w" "sig_ok outer" "quiet_call c"
    and "call_body outer = call_prog has_avro (\<lambda>s. persist_event dir) c"
    and "call_op has_avro outer = Some (q', fp')" "call_op has_avro c = Some (q, fp)"
    and "take 16 fp' \<noteq> take 16 fp"
    and "run_all (map (call_prog has_avro (\<lambda>s. persist_event dir)) [outer, c]) w = ([x, y], w1)"
    and "session_ctx REPLAY dir s v" "files v = files w1" "ordinals_at v s = ordinals_at w r"
  shows "fst (run_all (map (call_prog has_avro emit) [outer, c]) v) = [replayed outer x, replayed c x]"
proof -
  let ?emit = "\<lambda>s. persist_event dir"
  let ?n' = "ordinals_at w r fp'" and ?n = "ordinals_at w r fp"
  let ?p' = "trace_path dir (q', fp') ?n'"
  obtain wo where x: "call_prog has_avro ?emit outer w = (x, wo)" and y: "call_prog has_avro ?emit c wo = (y, w1)"
    using assms(8) by (auto simp: Let_def split: prod.splits)
  have sig: "sig_ok c" by (rule quiet_sig_ok [OF assms(3)])
  note nested = confined_persisted_call [OF assms(3,6), of r dir, folded assms(4)]
  have other: "fp' \<noteq> fp" using assms(7) by auto
  have path_neq: "trace_path dir (q1, f1) m \<noteq> trace_path dir (q2, f2) m2"
    if "CHR ''/'' \<notin> set f1" "CHR ''/'' \<notin> set f2" "take 16 f1 \<noteq> take 16 f2 \<or> m \<noteq> m2" for q1 f1 m q2 f2 m2
    using trace_store.path_determines [of "(q1, f1)" "(q2, f2)" dir m m2] that by auto
  obtain doc u w3 where out: "CHR ''/'' \<notin> set fp'" "frame_ok r w wo"
    "stored_output doc = (case x of Inr v \<Rightarrow> make_serializable v | Inl _ \<Rightarrow> VNone)"
    "recording_in r u" "ordinals_at u r = (ordinals_at w r)(fp' := ?n' + 1)"
    "call_prog has_avro ?emit c u = (x, w3)" "files wo = (files w3)(?p' \<mapsto> doc)"
    "ordinals_at wo r = ordinals_at w3 r"
    by (rule nested_record_step [OF assms(1,2) nested x]) (simp_all add: assms(4,5) del: fun_upd_apply)
  have ord_u: "ordinals_at u r fp = ?n" using other by (simp add: out(5))
  obtain d1 where in1: "CHR ''/'' \<notin> set fp" "ordinals_at w3 r = (ordinals_at u r)(fp := ?n + 1)"
    "files w3 (trace_path dir (q, fp) ?n) = Some d1"
    "stored_output d1 = (case x of Inr v \<Rightarrow> make_serializable v | Inl _ \<Rightarrow> VNone)"
    by (rule quiet_record_step [OF out(4) assms(3) out(6)]) (simp_all add: assms(6) ord_u fun_upd_same del: fun_upd_apply)
  have "files wo ?p' = Some doc" "files wo (trace_path dir (q, fp) ?n) = Some d1"
    using in1(3) out(7) path_neq [OF in1(1) out(1)] assms(7) by auto
  moreover obtain d2 where "files w1 = (files wo)(trace_path dir (q, fp) (?n + 1) \<mapsto> d2)"
    using in1(2) out(8)
    by (rule_tac quiet_record_step [OF recording_in_frame [OF assms(1) out(2)] assms(3) y])
      (simp_all add: assms(6) fun_upd_same del: fun_upd_apply)
  ultimately have docs: "files v ?p' = Some doc" "files v (trace_path dir (q, fp) ?n) = Some d1"
    using path_neq [OF out(1) in1(1)] path_neq [OF in1(1) in1(1)] assms(7) by (auto simp: assms(10))
  have ord: "ordinals_at v s fp' = ?n'" "ordinals_at v s fp = ?n" by (simp_all add: assms(11))
  obtain v1 where v1: "call_prog has_avro emit outer v = (Inr (stored_output doc), v1)"
    "session_ctx REPLAY dir s v1" "files v1 = files v" "ordinals_at v1 s fp = ?n"
    by (rule replay_step [OF assms(9,2), of has_avro emit]) (use other docs(1) ord in \<open>auto simp: assms(5)\<close>)
  obtain v2 where "call_prog has_avro emit c v1 = (Inr (stored_output d1), v2)"
    by (rule replay_step [OF v1(2) sig, of has_avro emit]) (use docs(2) v1(3,4) in \<open>auto simp: assms(6)\<close>)
  then show ?thesis
    using v1(1) out(3) in1(4) call_op_binding [OF assms(5)] call_op_binding [OF assms(6)] by (auto simp: replayed_def)
qed

text \<open>A function that calls the counting function, and the two as calls in the fixture directory \<open>stubs\<close>.\<close>

abbreviation persist_stubs :: "nat \<Rightarrow> fixture_event \<Rightarrow> (int, unit) prog" where
  "persist_stubs \<equiv> (\<lambda>s. persist_event [''stubs''])"

abbreviation tick_call :: "int call" where
  "tick_call \<equiv> (None, tick_function, [], [])"

definition outer_function :: "int traced" where
  "outer_function = \<lparr>qualname = ''outer'', signature = [],
     body = (\<lambda>args kwargs. call_prog False persist_stubs tick_call)\<rparr>"

abbreviation outer_call :: "int call" where
  "outer_call \<equiv> (None, outer_function, [], [])"

abbreviation tick_fp :: string where
  "tick_fp \<equiv> ''a6d487d47c1bfa65645fe763e0587e488998c886d6297256c303ceb953e3e32e''"

abbreviation outer_fp :: string where
  "outer_fp \<equiv> ''9162b79bcf708091222fc35070410ece090438d3f9737b6d7fa6e0bfaf0215f3''"

lemma tick_outer_calls:
  "quiet_call tick_call" "sig_ok outer_call" "call_binding outer_call = Inr (VDict [])"
  "call_binding tick_call = Inr (VDict [])"
  "call_body outer_call = call_prog False persist_stubs tick_call"
  "call_op False tick_call = Some (''tick'', tick_fp)" "call_op False outer_call = Some (''outer'', outer_fp)"
  by (simp_all add: tick_function_def outer_function_def quiet_def bind_args_def traced_name_def
      tick_fingerprint outer_fingerprint)

abbreviation tick_paths :: "path set" where
  "tick_paths \<equiv> own_paths [''stubs''] ''tick'' tick_fp"

lemma outer_confined: "confined r {tick_fp} tick_paths (call_body outer_call)"
  unfolding tick_outer_calls(5) by (rule confined_persisted_call [OF tick_outer_calls(1,6)])

lemma outer_clear: "clear_of [''stubs''] {tick_fp} tick_paths (''outer'', outer_fp)"
  unfolding clear_of_def by (intro conjI allI other_prefix_path) simp_all

lemma tick_result:
  assumes "recording_in r w" "call_prog False persist_stubs tick_call w = (x, w')"
  shows "x = Inr (VInt (app w)) \<and> app w' = app w + 1"
  by (rule quiet_record_step [OF assms(1) tick_outer_calls(1) assms(2)])
    (auto simp: tick_function_def bind_args_def)

lemma outer_result:
  assumes "recording_in r w" "call_prog False persist_stubs outer_call w = (x, w')"
  shows "x = Inr (VInt (app w)) \<and> app w' = app w + 1 \<and> recording_in r w'"
proof (rule nested_record_step [OF assms(1) tick_outer_calls(2) outer_confined assms(2)], goal_cases unbound bound)
  case (unbound e)
  then show ?case by (simp only: tick_outer_calls) simp
next
  case (bound a q fp doc u w3)
  show ?case
    using tick_result [OF bound(8) bound(12) [unfolded tick_outer_calls(5)]] bound(9,15)
      recording_in_frame [OF assms(1) bound(4)] by simp
qed

lemma recording_in_world: "recording_in 0 (session_world RECORD (Some 0) fs x)"
  using session_world_ctx(1) [of RECORD "Some 0" fs x] by (simp add: recording_in_def session_ctx_def session_world_ctx)

theorem nested_sessions_replay_witness:
  "fst (run_all (map (call_prog False persist_stubs) [outer_call, outer_call])
     (session_world REPLAY None (files (snd (run_all (map (call_prog False persist_stubs) [outer_call, outer_call])
        (session_world RECORD (Some 0) (\<lambda>_. None) 5)))) 9)) = [Inr (VInt 5), Inr (VInt 6)]"
proof -
  let ?cs = "[outer_call, outer_call]"
  let ?w = "session_world RECORD (Some 0) (\<lambda>_. None) (5 :: int)"
  let ?run = "run_all (map (call_prog False persist_stubs) ?cs)"
  let ?v = "session_world REPLAY None (files (snd (?run ?w))) (9 :: int)"
  obtain x wo y w1 where x: "call_prog False persist_stubs outer_call ?w = (x, wo)"
    and y: "call_prog False persist_stubs outer_call wo = (y, w1)" by fastforce
  have one: "x = Inr (VInt 5) \<and> app wo = 6 \<and> recording_in 0 wo"
    using outer_result [OF recording_in_world x] by (simp add: session_world_ctx)
  then have "y = Inr (VInt 6)" using outer_result [OF conjunct2 [OF conjunct2 [OF one]] y] by simp
  with one have run: "fst (?run ?w) = [Inr (VInt 5), Inr (VInt 6)]" by (simp add: x y del: call_prog.simps)
  have cs: "confined_calls 0 {tick_fp} tick_paths ?cs"
    using outer_confined tick_outer_calls(2) by (simp only: confined_calls_def list.pred_inject)
  have ops: "call_ops False ?cs = [(''outer'', outer_fp), (''outer'', outer_fp)]"
    by (simp only: call_ops_simps tick_outer_calls(7) option.case)
  have clear: "list_all (clear_of [''stubs''] {tick_fp} tick_paths) (call_ops False ?cs)"
    unfolding ops using outer_clear by simp
  have clash: "no_prefix_clash False ?cs" unfolding no_prefix_clash_def ops by (simp add: separated_def)
  have "fst (?run ?v) = map2 replayed ?cs (fst (?run ?w))"
    by (rule nested_sessions_replay [OF recording_in_world cs clear clash surjective_pairing session_world_ctx(1)])
      (simp_all add: session_world_ctx)
  then show ?thesis unfolding run by (simp add: replayed_def outer_function_def bind_args_def)
qed

theorem nested_call_shifts_replay_witness:
  "\<exists>w1. run_all (map (call_prog False persist_stubs) [outer_call, tick_call])
      (session_world RECORD (Some 0) (\<lambda>_. None) 5) = ([Inr (VInt 5), Inr (VInt 6)], w1) \<and>
    fst (run_all (map (call_prog False persist_stubs) [outer_call, tick_call])
      (session_world REPLAY None (files w1) 9)) = [Inr (VInt 5), Inr (VInt 5)]"
proof -
  let ?w = "session_world RECORD (Some 0) (\<lambda>_. None) (5 :: int)"
  let ?run = "run_all (map (call_prog False persist_stubs) [outer_call, tick_call])"
  obtain x wo y w1 where x: "call_prog False persist_stubs outer_call ?w = (x, wo)"
    and y: "call_prog False persist_stubs tick_call wo = (y, w1)" by fastforce
  have one: "x = Inr (VInt 5) \<and> app wo = 6 \<and> recording_in 0 wo"
    using outer_result [OF recording_in_world x] by (simp add: session_world_ctx)
  then have two: "y = Inr (VInt 6)" using tick_result [OF conjunct2 [OF conjunct2 [OF one]] y] by simp
  have run: "?run ?w = ([x, y], w1)" by (simp add: x y del: call_prog.simps)
  have "fst (?run (session_world REPLAY None (files w1) 9)) = [replayed outer_call x, replayed tick_call x]"
    by (rule nested_call_shifts_replay [OF recording_in_world tick_outer_calls(2,1,5,7,6) _ run session_world_ctx(1)])
      (simp_all add: session_world_ctx)
  then show ?thesis
    using run one two by (simp add: replayed_def outer_function_def tick_function_def bind_args_def)
qed

end
