(* ===== verification/Envelope.thy ===== *)
theory Envelope
  imports Canonical Fixture
begin

text \<open>
  The wire format of the record agent (sim_sdk/sink/envelope.py) and the HTTP client
  (sim_sdk/sink/agent_client.py).

  The agent is a parameter: a function of the endpoint, the bytes posted and a state \<open>'s\<close> of its
  own. \<open>http_reading\<close> is what \<open>urlopen\<close> does with one request: the status is an error, the agent
  cannot be reached (\<open>URLError\<close>, \<open>OSError\<close> and so every timeout), another exception is raised, or
  a body comes back, as text or as bytes that are not UTF-8. Log lines go to a list.
\<close>

subsection \<open>Envelopes\<close>

record event_envelope =
  env_schema_version :: int
  env_fixture_id :: string
  env_session_id :: string
  env_event_type :: string
  env_timestamp_ms :: int
  env_payload :: pyval
  env_service :: string
  env_trace :: string

definition envelope_to_wire :: "event_envelope \<Rightarrow> pyval" where
  "envelope_to_wire e = VDict
     [field ''SchemaVersion'' (VInt (env_schema_version e)),
      field ''FixtureID'' (VStr (env_fixture_id e)),
      field ''SessionID'' (VStr (env_session_id e)),
      field ''EventType'' (VStr (env_event_type e)),
      field ''TimestampMs'' (VInt (env_timestamp_ms e)),
      field ''Payload'' (env_payload e),
      field ''Service'' (VStr (env_service e)),
      field ''Trace'' (VStr (env_trace e))]"

definition SCHEMA_VERSION :: int where
  "SCHEMA_VERSION = 1"

text \<open>\<open>now_us\<close> is \<open>time.time()\<close> in microseconds.\<close>

definition fixture_to_envelope :: "int \<Rightarrow> string \<Rightarrow> string \<Rightarrow> fixture_event \<Rightarrow> event_envelope" where
  "fixture_to_envelope now_us service session_id event =
     \<lparr>env_schema_version = SCHEMA_VERSION,
      env_fixture_id = ev_fixture_id event,
      env_session_id = (if session_id \<noteq> [] then session_id else ev_run_id event),
      env_event_type = ev_event_type event,
      env_timestamp_ms = now_us div 1000,
      env_payload = to_dict event,
      env_service = service,
      env_trace = ev_qualname event\<rparr>"

subsection \<open>\<open>BatchRequest\<close> and \<open>BatchResponse\<close>\<close>

definition batch_to_wire :: "event_envelope list \<Rightarrow> pyval" where
  "batch_to_wire envelopes = VDict [field ''Events'' (VList (map envelope_to_wire envelopes))]"

definition batch_serialize :: "event_envelope list \<Rightarrow> py_exn + 8 word list" where
  "batch_serialize envelopes =
     ebind (encode DefaultStr False (batch_to_wire envelopes)) (\<lambda>j. Inr (utf8_encode (json_compact True j)))"

record batch_response =
  rs_accepted :: pyval
  rs_dropped :: pyval
  rs_dropped_by_reason :: pyval
  rs_invalid :: pyval

text \<open>\<open>bool(v)\<close>; an object of another class is true unless it defines otherwise.\<close>

fun truthy :: "pyval \<Rightarrow> bool" where
  "truthy VNone = False"
| "truthy (VBool b) = b"
| "truthy (VInt i) = (i \<noteq> 0)"
| "truthy (VFloat r) = (r \<notin> set [''0.0'', ''-0.0''])"
| "truthy (VStr s) = (s \<noteq> [])"
| "truthy (VBytes bs) = (bs \<noteq> [])"
| "truthy (VList xs) = (xs \<noteq> [])"
| "truthy (VTuple xs) = (xs \<noteq> [])"
| "truthy (VSet xs) = (xs \<noteq> [])"
| "truthy (VDict kvs) = (kvs \<noteq> [])"
| "truthy (VObj _ _ _ _ _ _ _ _ _) = True"

text \<open>\<open>d.get(key, default)\<close> on the items of a dictionary.\<close>

definition get_default :: "(pykey \<times> pyval) list \<Rightarrow> string \<Rightarrow> pyval \<Rightarrow> pyval" where
  "get_default kvs k d = (case dict_get kvs (KStr k) of None \<Rightarrow> d | Some v \<Rightarrow> v)"

fun response_from_wire :: "pyval \<Rightarrow> py_exn + batch_response" where
  "response_from_wire (VDict kvs) = Inr
     \<lparr>rs_accepted = get_default kvs ''Accepted'' (VInt 0),
      rs_dropped = get_default kvs ''Dropped'' (VInt 0),
      rs_dropped_by_reason =
        (let d = get_default kvs ''DroppedByReason'' VNone in if truthy d then d else VDict []),
      rs_invalid = get_default kvs ''Invalid'' (VInt 0)\<rparr>"
| "response_from_wire _ = Inl (AttributeErr ''get'')"

subsection \<open>\<open>AgentHttpClient\<close>\<close>

datatype http_reading =
    HttpAnswer "string option"
  | HttpStatus nat string
  | HttpUnreachable string
  | HttpRaises py_exn

type_synonym 's agent = "string \<Rightarrow> 8 word list \<Rightarrow> 's \<Rightarrow> http_reading \<times> 's"

definition endpoint :: "string \<Rightarrow> string" where
  "endpoint agent_url = rev (dropWhile (\<lambda>c. c = CHR ''/'') (rev agent_url)) @ ''/v1/events''"

definition read_response :: "string option \<Rightarrow> py_exn + batch_response" where
  "read_response body =
     (case body of
        None \<Rightarrow> Inl (ValueErr ''utf-8'')
      | Some text \<Rightarrow>
          (case parse_json text of
             None \<Rightarrow> Inl (ValueErr ''json'')
           | Some doc \<Rightarrow> response_from_wire (py_of_json doc)))"

definition post_batch ::
  "'s agent \<Rightarrow> string \<Rightarrow> event_envelope list \<Rightarrow> 's \<Rightarrow> (py_exn + batch_response) \<times> string list \<times> 's" where
  "post_batch agent url envelopes s =
     (case batch_serialize envelopes of
        Inl err \<Rightarrow> (Inl err, [], s)
      | Inr payload \<Rightarrow>
          (case agent url payload s of
             (HttpAnswer body, s1) \<Rightarrow> (read_response body, [], s1)
           | (HttpStatus code msg, s1) \<Rightarrow>
               (Inl (HTTPErr code msg),
                [''Agent returned HTTP '' @ dec_nat code @ '' for POST '' @ url], s1)
           | (HttpUnreachable reason, s1) \<Rightarrow>
               (Inl (AgentUnavailableError (''Agent unreachable at '' @ url @ '': '' @ reason)), [], s1)
           | (HttpRaises err, s1) \<Rightarrow> (Inl err, [], s1)))"

subsection \<open>The text of a batch\<close>

lemma envelope_wire_plain: "plain (env_payload e) \<Longrightarrow> plain (envelope_to_wire e)"
  by (simp add: envelope_to_wire_def)

lemma envelope_wire_floats: "floats_ok (env_payload e) \<Longrightarrow> floats_ok (envelope_to_wire e)"
  by (simp add: envelope_to_wire_def)

lemma batch_wire_plain: "list_all (\<lambda>e. plain (env_payload e)) es \<Longrightarrow> plain (batch_to_wire es)"
  by (auto simp: batch_to_wire_def list_all_iff envelope_wire_plain)

lemma batch_wire_floats: "list_all (\<lambda>e. floats_ok (env_payload e)) es \<Longrightarrow> floats_ok (batch_to_wire es)"
  by (auto simp: batch_to_wire_def list_all_iff envelope_wire_floats)

lemma batch_serialize_plain:
  "list_all (\<lambda>e. plain (env_payload e)) es \<Longrightarrow>
    batch_serialize es = Inr (utf8_encode (json_compact True (plain_json (batch_to_wire es))))"
  by (simp add: batch_serialize_def encode_plain batch_wire_plain)

text \<open>What a receiver reads out of a body: decode, parse, take the list of events.\<close>

definition body_events :: "8 word list \<Rightarrow> pyval list \<Rightarrow> bool" where
  "body_events payload events \<longleftrightarrow>
     (\<exists>text doc. payload = utf8_encode text \<and> parse_json text = Some doc \<and>
        py_of_json doc = VDict [field ''Events'' (VList events)])"

lemma body_events_batch:
  assumes "list_all (\<lambda>e. plain (env_payload e) \<and> floats_ok (env_payload e)) es"
  shows "body_events (utf8_encode (json_compact True (plain_json (batch_to_wire es))))
    (map envelope_to_wire es)"
proof -
  have "plain (batch_to_wire es)" "floats_ok (batch_to_wire es)"
    using assms by (auto intro: batch_wire_plain batch_wire_floats simp: list_all_iff)
  then have "parse_json (json_compact True (plain_json (batch_to_wire es))) = Some (plain_json (batch_to_wire es))"
    "py_of_json (plain_json (batch_to_wire es)) = batch_to_wire es"
    by (simp_all add: parse_compact wf_plain_json py_of_plain_json)
  then show ?thesis unfolding body_events_def by (metis batch_to_wire_def)
qed

lemma body_events_unique: "body_events p xs \<Longrightarrow> body_events p ys \<Longrightarrow> xs = ys"
  by (auto simp: body_events_def utf8_encode_inj)

subsection \<open>Properties\<close>



end
