(* ===== verification/Event_Buffer.thy ===== *)
theory Event_Buffer
  imports Prelude "HOL-Library.Multiset"
begin

text \<open>
  The bounded event buffer (sim_sdk/sink/in_memory_buffer.py) and the contract its clients rely on.

  The size of a Python list object depends on how it grew, so \<open>sys.getsizeof(self.buffer)\<close> is a
  reading handed to each \<open>append\<close>, as is the result of \<open>random.randint\<close>. Every method holds the
  lock for its whole body, so each is one atomic operation.

  The locale \<open>event_buffer\<close> is what the sinks know of a buffer: adding keeps a subsequence of the
  old contents and puts the new event last, draining returns everything and empties. Its lemmas
  follow a whole run of operations; the buffer below interprets it.
\<close>

subsection \<open>\<open>InMemoryBuffer\<close>\<close>

datatype drop_policy = DROP_OLDEST | DROP_NEWEST | DROP_RANDOM | DROP_NONE

record 'e memory_buffer =
  buffer :: "'e list"
  max_buffer_bytes :: int
  buf_policy :: drop_policy

definition memory_buffer_init :: "int \<Rightarrow> drop_policy \<Rightarrow> 'e memory_buffer" where
  "memory_buffer_init bytes policy =
     \<lparr>buffer = [], max_buffer_bytes = bytes, buf_policy = policy\<rparr>"

definition buffer_len :: "'e memory_buffer \<Rightarrow> nat" where
  "buffer_len b = length (buffer b)"

text \<open>\<open>self.buffer.pop(i)\<close> for an index within the list.\<close>

definition pop_at :: "nat \<Rightarrow> 'e list \<Rightarrow> 'e list" where
  "pop_at i xs = take i xs @ drop (Suc i) xs"

text \<open>\<open>_drop\<close>; \<open>rnd\<close> is the reading of \<open>random.randint(0, len(self.buffer) - 1)\<close>.\<close>

definition drop_one :: "nat \<Rightarrow> 'e memory_buffer \<Rightarrow> 'e memory_buffer" where
  "drop_one rnd b =
     (case buf_policy b of
        DROP_OLDEST \<Rightarrow> b\<lparr>buffer := pop_at 0 (buffer b)\<rparr>
      | DROP_NEWEST \<Rightarrow> b\<lparr>buffer := pop_at (length (buffer b) - 1) (buffer b)\<rparr>
      | DROP_RANDOM \<Rightarrow> b\<lparr>buffer := pop_at rnd (buffer b)\<rparr>
      | DROP_NONE \<Rightarrow> b)"

text \<open>\<open>append\<close>; \<open>sz\<close> is the reading of \<open>sys.getsizeof(self.buffer)\<close>.\<close>

definition buffer_append :: "int \<times> nat \<Rightarrow> 'e \<Rightarrow> 'e memory_buffer \<Rightarrow> 'e memory_buffer" where
  "buffer_append reading e b =
     (let (sz, rnd) = reading;
          b1 = (if max_buffer_bytes b \<le> sz \<and> buffer b \<noteq> [] then drop_one rnd b else b)
      in b1\<lparr>buffer := buffer b1 @ [e]\<rparr>)"

definition buffer_drain :: "'e memory_buffer \<Rightarrow> 'e list \<times> 'e memory_buffer" where
  "buffer_drain b = (buffer b, b\<lparr>buffer := []\<rparr>)"

subsection \<open>The contract of a buffer\<close>

datatype ('r, 'e) buffer_op = Put 'r 'e | Drain

primrec puts :: "('r, 'e) buffer_op list \<Rightarrow> 'e list" where
  "puts [] = []"
| "puts (x # xs) = (case x of Put r e \<Rightarrow> e # puts xs | Drain \<Rightarrow> puts xs)"

lemma subseq_mset: "subseq xs ys \<Longrightarrow> mset xs \<subseteq># mset ys"
proof (induction rule: list_emb.induct)
  case (list_emb_Cons xs ys y)
  have "mset ys \<subseteq># mset (y # ys)" by simp
  then show ?case using list_emb_Cons.IH subset_mset.order_trans by blast
qed simp_all

locale event_buffer =
  fixes contents :: "'b \<Rightarrow> 'e list"
    and put :: "'r \<Rightarrow> 'e \<Rightarrow> 'b \<Rightarrow> 'b"
    and drain :: "'b \<Rightarrow> 'e list \<times> 'b"
  assumes put_keeps: "\<exists>kept. subseq kept (contents b) \<and> contents (put r e b) = kept @ [e]"
    and drain_all: "fst (drain b) = contents b"
    and drain_empty: "contents (snd (drain b)) = []"
begin

text \<open>A run of operations: the drained batches, in order, and the final buffer.\<close>

primrec run_ops :: "('r, 'e) buffer_op list \<Rightarrow> 'b \<Rightarrow> 'e list list \<times> 'b" where
  "run_ops [] b = ([], b)"
| "run_ops (x # xs) b =
     (case x of
        Put r e \<Rightarrow> run_ops xs (put r e b)
      | Drain \<Rightarrow> (let (batch, b1) = drain b; (batches, b2) = run_ops xs b1 in (batch # batches, b2)))"

lemma run_ops_drain:
  assumes "run_ops (Drain # ops) b = (batches, b')"
  obtains rest where "run_ops ops (snd (drain b)) = (rest, b')" "batches = contents b # rest"
  using assms drain_all [of b] that [of "fst (run_ops ops (snd (drain b)))"]
  by (auto simp: case_prod_unfold Let_def)

lemma put_subseq: "subseq (contents (put r e b)) (contents b @ [e])"
  using put_keeps [of b r e] by (auto simp: subseq_append)

lemma put_last: "contents (put r e b) \<noteq> [] \<and> last (contents (put r e b)) = e"
  using put_keeps [of b r e] by auto

lemma put_mset: "mset (contents (put r e b)) \<subseteq># add_mset e (mset (contents b))"
proof -
  obtain kept where "subseq kept (contents b)" "contents (put r e b) = kept @ [e]"
    using put_keeps by blast
  then show ?thesis by (simp add: subseq_mset)
qed

text \<open>
  What comes out of a buffer, with what is still in it, is a subsequence of what went in: events
  may be lost, never duplicated, invented or reordered, across any number of drains.
\<close>

theorem run_subseq:
  "run_ops ops b = (batches, b') \<Longrightarrow> subseq (concat batches @ contents b') (contents b @ puts ops)"
proof (induction ops arbitrary: b batches)
  case (Cons x ops)
  show ?case
  proof (cases x)
    case (Put r e)
    then have "subseq (concat batches @ contents b') (contents (put r e b) @ puts ops)"
      using Cons by simp
    moreover have "subseq (contents (put r e b) @ puts ops) ((contents b @ [e]) @ puts ops)"
      by (rule list_emb_append_mono [OF put_subseq]) simp
    ultimately show ?thesis using Put subseq_order.trans by fastforce
  next
    case Drain
    obtain rest where rest: "run_ops ops (snd (drain b)) = (rest, b')" "batches = contents b # rest"
      using Cons.prems unfolding Drain by (rule run_ops_drain)
    have "subseq (concat rest @ contents b') (puts ops)"
      using Cons.IH [OF rest(1)] by (simp add: drain_empty)
    then show ?thesis using Drain rest(2) by (simp add: list_emb_append_mono)
  qed
qed simp

end

lemma pop_at_subseq: "subseq (pop_at i xs) xs"
proof -
  have "suffix (drop (Suc i) xs) (drop i xs)"
    by (metis drop_Suc drop_tl suffix_tl)
  then have "subseq (take i xs @ drop (Suc i) xs) (take i xs @ drop i xs)"
    by (intro list_emb_append_mono) (simp_all add: suffix_imp_subseq)
  then show ?thesis by (simp add: pop_at_def)
qed

interpretation memory_buffer: event_buffer buffer buffer_append buffer_drain
proof (unfold_locales, goal_cases)
  case (1 b r e)
  have "subseq (buffer (drop_one rnd b)) (buffer b)" for rnd
    by (simp add: drop_one_def pop_at_subseq split: drop_policy.split)
  then show ?case by (cases r) (auto simp: buffer_append_def Let_def)
qed (simp_all add: buffer_drain_def)

subsection \<open>Bounds\<close>

text \<open>
  What CPython promises of the readings: a list object is at least eight bytes per element, and
  \<open>randint\<close> stays in its range.
\<close>

definition reading_ok :: "'e memory_buffer \<Rightarrow> int \<times> nat \<Rightarrow> bool" where
  "reading_ok b reading \<longleftrightarrow>
     8 * int (length (buffer b)) \<le> fst reading \<and> (buffer b \<noteq> [] \<longrightarrow> snd reading < length (buffer b))"

fun readings_ok :: "(int \<times> nat, 'e) buffer_op list \<Rightarrow> 'e memory_buffer \<Rightarrow> bool" where
  "readings_ok [] b = True"
| "readings_ok (Put r e # ops) b \<longleftrightarrow> reading_ok b r \<and> readings_ok ops (buffer_append r e b)"
| "readings_ok (Drain # ops) b \<longleftrightarrow> readings_ok ops (snd (buffer_drain b))"

definition buffer_bounded :: "'e memory_buffer \<Rightarrow> bool" where
  "buffer_bounded b \<longleftrightarrow>
     length (buffer b) \<le> 1 \<or> 8 * (int (length (buffer b)) - 1) < max_buffer_bytes b"

lemma buffer_append_config [simp]:
  "max_buffer_bytes (buffer_append r e b) = max_buffer_bytes b"
  "buf_policy (buffer_append r e b) = buf_policy b"
  by (cases r; simp add: buffer_append_def drop_one_def split: drop_policy.split)+

lemma buffer_drain_config [simp]:
  "max_buffer_bytes (snd (buffer_drain b)) = max_buffer_bytes b"
  "buf_policy (snd (buffer_drain b)) = buf_policy b"
  "buffer (snd (buffer_drain b)) = []"
  by (simp_all add: buffer_drain_def)

lemma length_pop_at: "i < length xs \<Longrightarrow> length (pop_at i xs) = length xs - 1"
  by (simp add: pop_at_def)

lemma length_drop_one:
  "buf_policy b \<noteq> DROP_NONE \<Longrightarrow> buffer b \<noteq> [] \<Longrightarrow> rnd < length (buffer b) \<Longrightarrow>
    length (buffer (drop_one rnd b)) = length (buffer b) - 1"
  by (simp add: drop_one_def length_pop_at split: drop_policy.split)

lemma buffer_append_bounded:
  assumes "buffer_bounded b" "buf_policy b \<noteq> DROP_NONE" "reading_ok b r"
  shows "buffer_bounded (buffer_append r e b)"
proof -
  obtain sz rnd where r: "r = (sz, rnd)" by fastforce
  show ?thesis
  proof (cases "max_buffer_bytes b \<le> sz \<and> buffer b \<noteq> []")
    case True
    then have "length (buffer (buffer_append r e b)) = length (buffer b)"
      using assms(2,3) length_drop_one [of b rnd] by (simp add: buffer_append_def Let_def r reading_ok_def)
    then show ?thesis using assms(1) by (simp add: buffer_bounded_def)
  next
    case False
    then have "length (buffer (buffer_append r e b)) = Suc (length (buffer b))"
      by (auto simp: buffer_append_def Let_def r)
    then show ?thesis using False assms(3) by (auto simp: buffer_bounded_def reading_ok_def r)
  qed
qed

lemma run_ops_bounded:
  assumes "readings_ok ops b" "buffer_bounded b" "buf_policy b \<noteq> DROP_NONE"
    and "memory_buffer.run_ops ops b = (batches, b')"
  shows "buffer_bounded b' \<and> max_buffer_bytes b' = max_buffer_bytes b"
  using assms
proof (induction ops b arbitrary: batches rule: readings_ok.induct)
  case (2 r e ops b)
  then show ?case using buffer_append_bounded [of b r e] by simp
next
  case (3 ops b)
  have "buffer_bounded (snd (buffer_drain b))" by (simp add: buffer_bounded_def)
  moreover obtain rest where "memory_buffer.run_ops ops (snd (buffer_drain b)) = (rest, b')"
    using 3(5) by (rule memory_buffer.run_ops_drain)
  ultimately show ?case using 3(1) 3(2,4) by simp
qed simp

subsection \<open>Properties\<close>

text \<open>
  C21: the buffer is bounded. With any drop policy but \<open>DROP_NONE\<close>, after any sequence of appends
  and drains from an empty buffer it holds at most one event, or fewer than
  \<open>max_buffer_bytes / 8 + 1\<close> events.
\<close>

theorem buffer_is_bounded:
  assumes "policy \<noteq> DROP_NONE" "readings_ok ops (memory_buffer_init bytes policy)"
    and "memory_buffer.run_ops ops (memory_buffer_init bytes policy) = (batches, b)"
  shows "buffer_len b \<le> 1 \<or> 8 * (int (buffer_len b) - 1) < bytes"
  using run_ops_bounded [OF assms(2) _ _ assms(3)] assms(1)
  by (auto simp: memory_buffer_init_def buffer_bounded_def buffer_len_def)

theorem buffer_is_bounded_witness:
  "buffer_len (snd (memory_buffer.run_ops [Put (56, 0) ''a'', Put (88, 0) ''b'']
     (memory_buffer_init 80 DROP_OLDEST))) \<le> 1 \<or>
   8 * (int (buffer_len (snd (memory_buffer.run_ops [Put (56, 0) ''a'', Put (88, 0) ''b'']
     (memory_buffer_init 80 DROP_OLDEST)))) - 1) < 80"
  by (rule buffer_is_bounded [OF _ _ surjective_pairing])
    (simp_all add: memory_buffer_init_def reading_ok_def buffer_append_def drop_one_def pop_at_def)

lemma run_ops_complete:
  assumes "memory_buffer.run_ops ops b = (batches, b')" "buf_policy b = DROP_NONE"
  shows "concat batches @ buffer b' = buffer b @ puts ops"
  using assms
proof (induction ops arbitrary: b batches)
  case (Cons x ops)
  show ?case
  proof (cases x)
    case (Put r e)
    have "buffer (buffer_append r e b) = buffer b @ [e]"
      using Cons.prems(2) by (cases r) (simp add: buffer_append_def drop_one_def)
    then show ?thesis using Cons.IH [of "buffer_append r e b" batches] Cons.prems Put by simp
  next
    case Drain
    obtain rest where "memory_buffer.run_ops ops (snd (buffer_drain b)) = (rest, b')" "batches = buffer b # rest"
      using Cons.prems(1) unfolding Drain by (rule memory_buffer.run_ops_drain)
    then show ?thesis using Cons.IH [of "snd (buffer_drain b)" rest] Cons.prems(2) Drain by simp
  qed
qed simp

text \<open>
  Buffering never reorders, duplicates or invents. What a buffer hands out over any number of
  drains, followed by what it still holds, is a subsequence of the events appended; with
  \<open>DROP_NONE\<close> it is all of them.
\<close>

theorem buffer_keeps_order:
  "subseq (concat (fst (memory_buffer.run_ops ops b)) @ buffer (snd (memory_buffer.run_ops ops b)))
     (buffer b @ puts ops) \<and>
   concat (fst (memory_buffer.run_ops ops (memory_buffer_init bytes DROP_NONE))) @
     buffer (snd (memory_buffer.run_ops ops (memory_buffer_init bytes DROP_NONE))) = puts ops"
  using memory_buffer.run_subseq [OF surjective_pairing, where ops = ops and b = b]
    run_ops_complete [OF surjective_pairing, where ops = ops and b = "memory_buffer_init bytes DROP_NONE"]
  by (simp add: memory_buffer_init_def)

text \<open>
  Each drop policy drops what its name says. An append to a full, non-empty buffer removes
  the first, the last or the chosen event, or none, and the new event goes in last in every case;
  an append to a buffer that is not full or is empty removes nothing.
\<close>

theorem append_follows_policy:
  assumes "buffer b = x # xs" "rnd < length (buffer b)"
  shows "buffer (buffer_append (sz, rnd) e b) =
    (if sz < max_buffer_bytes b then x # xs
     else case buf_policy b of
       DROP_OLDEST \<Rightarrow> xs
     | DROP_NEWEST \<Rightarrow> butlast (x # xs)
     | DROP_RANDOM \<Rightarrow> take rnd (x # xs) @ drop (Suc rnd) (x # xs)
     | DROP_NONE \<Rightarrow> x # xs) @ [e] \<and>
    buffer (buffer_append (sz, rnd) e (b\<lparr>buffer := []\<rparr>)) = [e]"
  using assms
  by (auto simp: buffer_append_def drop_one_def pop_at_def butlast_conv_take split: drop_policy.split)

theorem append_follows_policy_witness:
  "buffer (buffer_append (100, 0) (3::int) \<lparr>buffer = [1, 2], max_buffer_bytes = 80, buf_policy = DROP_NEWEST\<rparr>) = [1, 3]"
  using append_follows_policy [of "\<lparr>buffer = [1, 2::int], max_buffer_bytes = 80, buf_policy = DROP_NEWEST\<rparr>" 1 "[2]" 0 100 3]
  by simp

end
