(* ===== verification/Sender.thy ===== *)
theory Sender
  imports Envelope Event_Buffer
begin

text \<open>
  Sending what the buffer hands out (sim_sdk/sink/sender_metrics.py and the sending half of
  sim_sdk/sink/sender_worker.py): the counters, one chunk with its retries, one drained batch.

  Each metrics method holds its lock, so it is one step. The clocks are a stream of readings, in
  microseconds, of which every \<open>time.time()\<close> and \<open>time.monotonic()\<close> takes the next. The counts an
  agent answers are integers or no numbers at all: a count with a fraction is outside the model. The dash of
  the log lines, outside Latin-1, is written as a hyphen.
\<close>

subsection \<open>\<open>SenderMetrics\<close>\<close>

record sender_metrics =
  m_buffered :: int
  m_sent :: int
  m_dropped :: int
  m_failures :: int
  m_batches :: int
  m_agent_unavailable :: int

definition sender_metrics_init :: sender_metrics where
  "sender_metrics_init =
     \<lparr>m_buffered = 0, m_sent = 0, m_dropped = 0, m_failures = 0, m_batches = 0, m_agent_unavailable = 0\<rparr>"

definition record_buffer :: "int \<Rightarrow> sender_metrics \<Rightarrow> sender_metrics" where
  "record_buffer n m = m\<lparr>m_buffered := m_buffered m + n\<rparr>"

text \<open>\<open>counter += v\<close>: booleans are integers, anything else is a \<open>TypeError\<close>.\<close>

fun as_count :: "pyval \<Rightarrow> int option" where
  "as_count (VInt i) = Some i"
| "as_count (VBool b) = Some (if b then 1 else 0)"
| "as_count _ = None"

definition record_send :: "pyval \<Rightarrow> pyval \<Rightarrow> sender_metrics \<Rightarrow> (py_exn + unit) \<times> sender_metrics" where
  "record_send accepted dropped m =
     (case as_count accepted of
        None \<Rightarrow> (Inl (TypeErr ''unsupported operand''), m)
      | Some a \<Rightarrow>
          (let m1 = m\<lparr>m_sent := m_sent m + a\<rparr> in
           case as_count dropped of
             None \<Rightarrow> (Inl (TypeErr ''unsupported operand''), m1)
           | Some d \<Rightarrow> (Inr (), m1\<lparr>m_dropped := m_dropped m1 + d, m_batches := m_batches m1 + 1\<rparr>)))"

definition record_drop :: "int \<Rightarrow> sender_metrics \<Rightarrow> sender_metrics" where
  "record_drop n m = m\<lparr>m_dropped := m_dropped m + n\<rparr>"

definition record_failure :: "sender_metrics \<Rightarrow> sender_metrics" where
  "record_failure m = m\<lparr>m_failures := m_failures m + 1\<rparr>"

definition record_unavailable :: "sender_metrics \<Rightarrow> sender_metrics" where
  "record_unavailable m =
     m\<lparr>m_agent_unavailable := m_agent_unavailable m + 1, m_failures := m_failures m + 1\<rparr>"

definition metrics_snapshot :: "sender_metrics \<Rightarrow> (string \<times> int) list" where
  "metrics_snapshot m =
     [(''buffered'', m_buffered m), (''sent'', m_sent m), (''dropped'', m_dropped m),
      (''failures'', m_failures m), (''batches'', m_batches m),
      (''agent_unavailable'', m_agent_unavailable m)]"

text \<open>The events a counter has settled: accepted, or dropped by the agent or by the worker.\<close>

definition settled :: "sender_metrics \<Rightarrow> int" where
  "settled m = m_sent m + m_dropped m"

subsection \<open>The state of a sender and its configuration\<close>

record sender_config =
  cfg_url :: string
  cfg_service :: string
  cfg_batch :: int
  cfg_retries :: int

record 's sender_state =
  sd_metrics :: sender_metrics
  sd_last_warn :: int
  sd_log :: "string list"
  sd_clock :: "nat \<Rightarrow> int"
  sd_ticks :: nat
  sd_agent :: 's

definition read_clock :: "'s sender_state \<Rightarrow> int \<times> 's sender_state" where
  "read_clock st = (sd_clock st (sd_ticks st), st\<lparr>sd_ticks := sd_ticks st + 1\<rparr>)"

definition log_warning :: "string \<Rightarrow> 's sender_state \<Rightarrow> 's sender_state" where
  "log_warning line st = st\<lparr>sd_log := sd_log st @ [line]\<rparr>"

definition WARN_INTERVAL :: int where
  "WARN_INTERVAL = 60 * 1000000"

definition rate_limited_warn :: "string \<Rightarrow> 's sender_state \<Rightarrow> 's sender_state" where
  "rate_limited_warn line st =
     (let (now, st1) = read_clock st in
      if WARN_INTERVAL \<le> now - sd_last_warn st1
      then (log_warning line st1)\<lparr>sd_last_warn := now\<rparr> else st1)"

subsection \<open>\<open>_send_chunk\<close>\<close>

primrec make_envelopes ::
  "string \<Rightarrow> fixture_event list \<Rightarrow> 's sender_state \<Rightarrow> event_envelope list \<times> 's sender_state" where
  "make_envelopes service [] st = ([], st)"
| "make_envelopes service (e # es) st =
     (let (now, st1) = read_clock st; (envs, st2) = make_envelopes service es st1
      in (fixture_to_envelope now service [] e # envs, st2))"

text \<open>The body of the \<open>try\<close>: post, then count what the agent says.\<close>

definition try_send ::
  "'s agent \<Rightarrow> string \<Rightarrow> event_envelope list \<Rightarrow> 's sender_state \<Rightarrow> (py_exn + unit) \<times> 's sender_state" where
  "try_send agent url envelopes st =
     (let (res, lines, s1) = post_batch agent url envelopes (sd_agent st);
          st1 = st\<lparr>sd_agent := s1, sd_log := sd_log st @ lines\<rparr>
      in case res of
           Inl err \<Rightarrow> (Inl err, st1)
         | Inr resp \<Rightarrow>
             (let (res1, m) = record_send (rs_accepted resp) (rs_dropped resp) (sd_metrics st1)
              in (res1, st1\<lparr>sd_metrics := m\<rparr>)))"

fun is_unavailable :: "py_exn \<Rightarrow> bool" where
  "is_unavailable (AgentUnavailableError m) = True"
| "is_unavailable _ = False"

definition give_up :: "py_exn \<Rightarrow> int \<Rightarrow> int \<Rightarrow> 's sender_state \<Rightarrow> 's sender_state" where
  "give_up err retries n st =
     (if is_unavailable err then
        rate_limited_warn (''Agent unavailable - dropped '' @ dec_int n @ '' events'')
          (st\<lparr>sd_metrics := record_drop n (record_unavailable (sd_metrics st))\<rparr>)
      else
        log_warning (''Send failed after '' @ dec_int (1 + retries) @ '' attempts - dropped ''
            @ dec_int n @ '' events'')
          (st\<lparr>sd_metrics := record_drop n (record_failure (sd_metrics st))\<rparr>))"

text \<open>The loop over \<open>range(1 + max_retries)\<close>; falling off its end does nothing.\<close>

primrec send_attempts ::
  "'s agent \<Rightarrow> string \<Rightarrow> int \<Rightarrow> int \<Rightarrow> event_envelope list \<Rightarrow> int list \<Rightarrow> 's sender_state \<Rightarrow>
    (py_exn + unit) \<times> 's sender_state" where
  "send_attempts agent url retries n envelopes [] st = (Inr (), st)"
| "send_attempts agent url retries n envelopes (attempt # rest) st =
     (case try_send agent url envelopes st of
        (Inr _, st1) \<Rightarrow> (Inr (), st1)
      | (Inl err, st1) \<Rightarrow>
          (if \<not> is_Exception err then (Inl err, st1)
           else if attempt < retries then send_attempts agent url retries n envelopes rest st1
           else (Inr (), give_up err retries n st1)))"

definition send_chunk ::
  "'s agent \<Rightarrow> sender_config \<Rightarrow> fixture_event list \<Rightarrow> 's sender_state \<Rightarrow> (py_exn + unit) \<times> 's sender_state" where
  "send_chunk agent cfg events st =
     (let (envelopes, st1) = make_envelopes (cfg_service cfg) events st
      in send_attempts agent (cfg_url cfg) (cfg_retries cfg) (int (length events)) envelopes
           [0..cfg_retries cfg] st1)"

subsection \<open>\<open>_drain_and_send\<close>\<close>

text \<open>
  The chunks \<open>batch[i : i + n]\<close> for \<open>i\<close> in \<open>range(0, len(batch), n)\<close>: none for a negative step,
  \<open>ValueError\<close> for a zero one.
\<close>

function chunks :: "nat \<Rightarrow> 'e list \<Rightarrow> 'e list list" where
  "chunks n xs = (if n = 0 \<or> xs = [] then [] else take n xs # chunks n (drop n xs))"
  by pat_completeness auto
termination
  by (relation "measure (\<lambda>(n, xs). length xs)") auto

declare chunks.simps [simp del]

definition batch_chunks :: "int \<Rightarrow> 'e list \<Rightarrow> py_exn + 'e list list" where
  "batch_chunks n batch =
     (if n = 0 then Inl (ValueErr ''range() arg 3 must not be zero'')
      else if n < 0 then Inr []
      else Inr (chunks (nat n) batch))"

primrec send_chunks ::
  "'s agent \<Rightarrow> sender_config \<Rightarrow> fixture_event list list \<Rightarrow> 's sender_state \<Rightarrow>
    (py_exn + unit) \<times> 's sender_state" where
  "send_chunks agent cfg [] st = (Inr (), st)"
| "send_chunks agent cfg (c # cs) st =
     (case send_chunk agent cfg c st of
        (Inl err, st1) \<Rightarrow> (Inl err, st1)
      | (Inr _, st1) \<Rightarrow> send_chunks agent cfg cs st1)"

definition send_batch ::
  "'s agent \<Rightarrow> sender_config \<Rightarrow> fixture_event list \<Rightarrow> 's sender_state \<Rightarrow> (py_exn + unit) \<times> 's sender_state" where
  "send_batch agent cfg batch st =
     (if batch = [] then (Inr (), st)
      else case batch_chunks (cfg_batch cfg) batch of
             Inl err \<Rightarrow> (Inl err, st)
           | Inr cs \<Rightarrow> send_chunks agent cfg cs st)"

definition drain_and_send ::
  "'s agent \<Rightarrow> sender_config \<Rightarrow> fixture_event memory_buffer \<Rightarrow> 's sender_state \<Rightarrow>
    (py_exn + unit) \<times> fixture_event memory_buffer \<times> 's sender_state" where
  "drain_and_send agent cfg b st =
     (let (batch, b1) = buffer_drain b; (res, st1) = send_batch agent cfg batch st in (res, b1, st1))"

subsection \<open>What a chunk does to the counters\<close>

text \<open>An event whose input, output and stubs are JSON data, as recording produces them.\<close>

definition json_event :: "fixture_event \<Rightarrow> bool" where
  "json_event e \<longleftrightarrow> plain (to_dict e) \<and> floats_ok (to_dict e)"

text \<open>
  The agent's side of the contract, as its \<open>IngestBatch\<close> (agent/internal/ingest) has it: in an
  answer the accepted and the dropped events add up to those posted. And requests only raise
  exceptions that derive from \<open>Exception\<close>.
\<close>

definition counting_agent :: "'s agent \<Rightarrow> bool" where
  "counting_agent agent \<longleftrightarrow>
     (\<forall>url payload s events. body_events payload events \<longrightarrow>
        (case fst (agent url payload s) of
           HttpAnswer body \<Rightarrow>
             (case read_response body of
                Inl err \<Rightarrow> True
              | Inr resp \<Rightarrow> (case (as_count (rs_accepted resp), as_count (rs_dropped resp)) of
                   (Some a, Some d) \<Rightarrow> a + d = int (length events)
                 | _ \<Rightarrow> False))
         | HttpRaises err \<Rightarrow> is_Exception err
         | _ \<Rightarrow> True))"

lemma counting_agentD:
  assumes "counting_agent agent" "body_events payload events" "length events = n"
  shows "case fst (agent url payload s) of
      HttpAnswer body \<Rightarrow>
        (case read_response body of
           Inl err \<Rightarrow> True
         | Inr resp \<Rightarrow> (case (as_count (rs_accepted resp), as_count (rs_dropped resp)) of
              (Some a, Some d) \<Rightarrow> a + d = int n
            | _ \<Rightarrow> False))
    | HttpRaises err \<Rightarrow> is_Exception err
    | _ \<Rightarrow> True"
  using assms(1,2) unfolding counting_agent_def assms(3) [symmetric] by blast

lemma make_envelopes_payloads:
  "map env_payload (fst (make_envelopes service es st)) = map to_dict es"
  by (induction es arbitrary: st) (auto simp: case_prod_unfold Let_def fixture_to_envelope_def)

lemma make_envelopes_state:
  "sd_metrics (snd (make_envelopes service es st)) = sd_metrics st"
  "sd_agent (snd (make_envelopes service es st)) = sd_agent st"
  "sd_log (snd (make_envelopes service es st)) = sd_log st"
  by (induction es arbitrary: st) (auto simp: case_prod_unfold Let_def read_clock_def)

lemma read_response_Exception: "read_response body = Inl err \<Longrightarrow> is_Exception err"
  by (auto simp: read_response_def elim: response_from_wire.elims split: option.splits)

definition json_envelopes :: "event_envelope list \<Rightarrow> bool" where
  "json_envelopes envs \<longleftrightarrow> list_all (\<lambda>e. plain (env_payload e) \<and> floats_ok (env_payload e)) envs"

lemma json_envelopes_make:
  "list_all json_event es \<Longrightarrow> json_envelopes (fst (make_envelopes service es st))"
  by (induction es arbitrary: st)
    (auto simp: json_envelopes_def json_event_def case_prod_unfold Let_def fixture_to_envelope_def)

lemma length_make_envelopes [simp]: "length (fst (make_envelopes service es st)) = length es"
  by (metis make_envelopes_payloads length_map)

lemma batch_serialize_json:
  "json_envelopes envs \<Longrightarrow>
    batch_serialize envs = Inr (utf8_encode (json_compact True (plain_json (batch_to_wire envs))))"
  by (rule batch_serialize_plain) (auto simp: json_envelopes_def list_all_iff)

text \<open>One attempt of a counting agent: counted in full, or not at all.\<close>

lemma try_send_counts:
  assumes "counting_agent agent" "json_envelopes envs" "try_send agent url envs st = (res, st1)"
  shows "case res of
      Inr _ \<Rightarrow> settled (sd_metrics st1) = settled (sd_metrics st) + int (length envs) \<and>
        m_batches (sd_metrics st1) = m_batches (sd_metrics st) + 1 \<and>
        m_failures (sd_metrics st1) = m_failures (sd_metrics st) \<and>
        m_buffered (sd_metrics st1) = m_buffered (sd_metrics st)
    | Inl err \<Rightarrow> is_Exception err \<and> sd_metrics st1 = sd_metrics st"
proof -
  let ?p = "utf8_encode (json_compact True (plain_json (batch_to_wire envs)))"
  have "body_events ?p (map envelope_to_wire envs)"
    using assms(2) unfolding json_envelopes_def by (rule body_events_batch)
  then have agent: "case fst (agent url ?p (sd_agent st)) of
      HttpAnswer body \<Rightarrow>
        (case read_response body of
           Inl err \<Rightarrow> True
         | Inr resp \<Rightarrow> (case (as_count (rs_accepted resp), as_count (rs_dropped resp)) of
              (Some a, Some d) \<Rightarrow> a + d = int (length envs)
            | _ \<Rightarrow> False))
    | HttpRaises err \<Rightarrow> is_Exception err
    | _ \<Rightarrow> True"
    by (rule counting_agentD [OF assms(1)]) simp
  obtain answer s1 where a: "agent url ?p (sd_agent st) = (answer, s1)" by fastforce
  show ?thesis
    using assms(3) agent read_response_Exception
    by (auto simp: try_send_def post_batch_def batch_serialize_json [OF assms(2)] a Let_def
        record_send_def settled_def split: http_reading.splits sum.splits option.splits)
qed

lemma give_up_counts:
  "settled (sd_metrics (give_up err retries n st)) = settled (sd_metrics st) + n"
  "m_buffered (sd_metrics (give_up err retries n st)) = m_buffered (sd_metrics st)"
  "m_failures (sd_metrics (give_up err retries n st)) = m_failures (sd_metrics st) + 1"
  "m_batches (sd_metrics (give_up err retries n st)) = m_batches (sd_metrics st)"
  by (simp_all add: give_up_def rate_limited_warn_def log_warning_def read_clock_def record_drop_def
      record_unavailable_def record_failure_def settled_def Let_def)

text \<open>A step that settled \<open>n\<close> events and raised nothing.\<close>

definition counted :: "int \<Rightarrow> 's sender_state \<Rightarrow> (py_exn + unit) \<times> 's sender_state \<Rightarrow> bool" where
  "counted n st r \<longleftrightarrow> fst r = Inr () \<and>
     settled (sd_metrics (snd r)) = settled (sd_metrics st) + n \<and>
     m_buffered (sd_metrics (snd r)) = m_buffered (sd_metrics st)"

lemma send_attempts_counts:
  assumes "counting_agent agent" "json_envelopes envs" "0 \<le> i" "i \<le> retries"
  shows "counted (int (length envs)) st
    (send_attempts agent url retries (int (length envs)) envs [i..retries] st)"
  using assms(3,4)
proof (induction "nat (retries - i)" arbitrary: i st)
  case 0
  then have "[i..retries] = [i]" "i = retries" by simp_all
  then show ?case
    using try_send_counts [OF assms(1,2), of url st]
    by (auto simp: counted_def give_up_counts split: sum.splits prod.splits)
next
  case (Suc k)
  then have l: "[i..retries] = i # [i + 1..retries]" "i < retries" by (simp_all add: upto.simps)
  have "counted (int (length envs)) st1
      (send_attempts agent url retries (int (length envs)) envs [i + 1..retries] st1)" for st1
    using Suc by (intro Suc.hyps(1)) auto
  then show ?case
    using try_send_counts [OF assms(1,2), of url st]
    by (auto simp: counted_def l split: sum.splits prod.splits)
qed

lemma send_chunk_counts:
  assumes "counting_agent agent" "list_all json_event es" "0 \<le> cfg_retries cfg"
  shows "counted (int (length es)) st (send_chunk agent cfg es st)"
proof -
  obtain envs st1 where m: "make_envelopes (cfg_service cfg) es st = (envs, st1)" by fastforce
  have "json_envelopes envs" "length envs = length es" "sd_metrics st1 = sd_metrics st"
    using json_envelopes_make [OF assms(2)] length_make_envelopes make_envelopes_state(1) m
    by (metis fst_conv snd_conv)+
  then show ?thesis
    using send_attempts_counts [OF assms(1) _ order_refl assms(3), of envs st1 "cfg_url cfg"]
    by (simp add: send_chunk_def m counted_def)
qed

lemma counted_trans:
  "counted m st r \<Longrightarrow> counted n (snd r) r' \<Longrightarrow> counted (m + n) st r'"
  by (simp add: counted_def)

lemma send_chunks_counts:
  assumes "counting_agent agent" "list_all (list_all json_event) cs" "0 \<le> cfg_retries cfg"
  shows "counted (int (length (concat cs))) st (send_chunks agent cfg cs st)"
  using assms(2)
proof (induction cs arbitrary: st)
  case (Cons c cs)
  obtain res st1 where s: "send_chunk agent cfg c st = (res, st1)" by fastforce
  have c: "counted (int (length c)) st (res, st1)"
    using send_chunk_counts [OF assms(1) _ assms(3), of c st] Cons.prems s by simp
  moreover have "counted (int (length (concat cs))) st1 (send_chunks agent cfg cs st1)"
    using Cons by simp
  ultimately show ?case
    using counted_trans [OF c] by (auto simp: s counted_def)
qed (simp add: counted_def)

lemma concat_chunks: "n \<noteq> 0 \<Longrightarrow> concat (chunks n xs) = xs"
  by (induction n xs rule: chunks.induct) (subst chunks.simps, simp)

lemma chunks_elements: "n \<noteq> 0 \<Longrightarrow> list_all P xs \<Longrightarrow> list_all (list_all P) (chunks n xs)"
proof -
  assume "n \<noteq> 0" "list_all P xs"
  then have "list_all P (concat (chunks n xs))" by (simp add: concat_chunks)
  then show ?thesis by (auto simp: list_all_iff)
qed

lemma chunks_sizes: "c \<in> set (chunks n xs) \<Longrightarrow> c \<noteq> [] \<and> length c \<le> n"
proof (induction n xs rule: chunks.induct)
  case (1 n xs)
  then show ?case by (subst (asm) (2) chunks.simps) (auto split: if_splits)
qed

lemma send_batch_counts:
  assumes "counting_agent agent" "list_all json_event batch" "0 \<le> cfg_retries cfg" "1 \<le> cfg_batch cfg"
  shows "counted (int (length batch)) st (send_batch agent cfg batch st)"
proof (cases "batch = []")
  case False
  have n: "nat (cfg_batch cfg) \<noteq> 0" using assms(4) by simp
  show ?thesis
    using send_chunks_counts [OF assms(1) chunks_elements [OF n assms(2)] assms(3), of st] False assms(4)
    by (simp add: send_batch_def batch_chunks_def concat_chunks [OF n])
qed (simp add: send_batch_def counted_def)

subsection \<open>An agent that accepts everything\<close>

definition accepting :: "8 word list list agent \<Rightarrow> bool" where
  "accepting agent \<longleftrightarrow>
     (\<forall>url payload events s. body_events payload events \<longrightarrow>
        snd (agent url payload s) = s @ [payload] \<and>
        (case fst (agent url payload s) of
           HttpAnswer body \<Rightarrow>
             (case read_response body of
                Inl err \<Rightarrow> False
              | Inr resp \<Rightarrow> as_count (rs_accepted resp) = Some (int (length events)) \<and>
                  as_count (rs_dropped resp) = Some 0)
         | _ \<Rightarrow> False))"

lemma acceptingD:
  assumes "accepting agent" "body_events payload events"
  obtains body resp where "agent url payload s = (HttpAnswer body, s @ [payload])"
    "read_response body = Inr resp" "as_count (rs_accepted resp) = Some (int (length events))"
    "as_count (rs_dropped resp) = Some 0"
proof -
  have "snd (agent url payload s) = s @ [payload] \<and>
        (case fst (agent url payload s) of
           HttpAnswer body \<Rightarrow>
             (case read_response body of
                Inl err \<Rightarrow> False
              | Inr resp \<Rightarrow> as_count (rs_accepted resp) = Some (int (length events)) \<and>
                  as_count (rs_dropped resp) = Some 0)
         | _ \<Rightarrow> False)"
    using assms unfolding accepting_def by blast
  then show thesis
    using that by (cases "agent url payload s") (auto split: http_reading.splits sum.splits)
qed

text \<open>Such an agent, in full: it decodes the body, keeps it, and answers the number of its events.\<close>

fun utf8_decode :: "8 word list \<Rightarrow> string" where
  "utf8_decode [] = []"
| "utf8_decode [b] = [char_of (unat b)]"
| "utf8_decode (b # c # r) =
     (if unat b < 128 then char_of (unat b) # utf8_decode (c # r)
      else char_of ((unat b - 192) * 64 + (unat c - 128)) # utf8_decode r)"

lemma utf8_decode_cons: "unat b < 128 \<Longrightarrow> utf8_decode (b # bs) = char_of (unat b) # utf8_decode bs"
  by (cases bs) auto

lemma utf8_decode_encode: "utf8_decode (utf8_encode s) = s"
proof (induction s)
  case (Cons c s)
  have less: "code_point c < 256" by (rule code_point_less)
  have w: "unat (word_of_nat n :: 8 word) = n" if "n < 256" for n
    using that by (simp add: unsigned_of_nat take_bit_eq_mod)
  have "n div 64 < 4" if "n < 256" for n :: nat using that by auto
  from this [OF less] have bounds: "192 + code_point c div 64 < 256" "128 + code_point c mod 64 < 256"
    by simp_all
  show ?case
  proof (cases "code_point c < 128")
    case True
    then have "utf8_encode (c # s) = word_of_nat (code_point c) # utf8_encode s"
      by (simp add: utf8_encode_def utf8_char_def)
    then show ?thesis using True w [OF less] Cons by (simp add: utf8_decode_cons)
  next
    case False
    then have "utf8_encode (c # s) =
        word_of_nat (192 + code_point c div 64) # word_of_nat (128 + code_point c mod 64) # utf8_encode s"
      by (simp add: utf8_encode_def utf8_char_def Let_def del: of_nat_add of_nat_numeral)
    moreover have "(192 + code_point c div 64 - 192) * 64 + (128 + code_point c mod 64 - 128) = code_point c"
      by simp
    ultimately show ?thesis
      using w [OF bounds(1)] w [OF bounds(2)] Cons by (simp del: of_nat_add of_nat_numeral)
  qed
qed (simp add: utf8_encode_def)

definition accepting_agent :: "8 word list list agent" where
  "accepting_agent url payload s =
     (case map_option py_of_json (parse_json (utf8_decode payload)) of
        Some (VDict [(k, VList events)]) \<Rightarrow>
          HttpAnswer (Some (json_compact True
            (JObj [(''Accepted'', JInt (int (length events))), (''Dropped'', JInt 0)])))
      | _ \<Rightarrow> HttpStatus 400 ''Bad Request'', s @ [payload])"

lemma read_counts:
  "read_response (Some (json_compact True (JObj [(''Accepted'', JInt a), (''Dropped'', JInt d)]))) =
     Inr \<lparr>rs_accepted = VInt a, rs_dropped = VInt d, rs_dropped_by_reason = VDict [], rs_invalid = VInt 0\<rparr>"
  by (simp add: read_response_def parse_compact get_default_def del: json_compact.simps)

lemma accepting_agent_accepts: "accepting accepting_agent"
  by (auto simp: accepting_def accepting_agent_def body_events_def utf8_decode_encode read_counts
      simp del: json_compact.simps)

lemma accepting_counts: "accepting agent \<Longrightarrow> counting_agent agent"
  unfolding counting_agent_def
proof (intro allI impI, goal_cases)
  case (1 url payload s events)
  from acceptingD [OF this, of url s] obtain body resp where
    "agent url payload s = (HttpAnswer body, s @ [payload])" "read_response body = Inr resp"
    "as_count (rs_accepted resp) = Some (int (length events))" "as_count (rs_dropped resp) = Some 0"
    by metis
  then show ?case by simp
qed

subsection \<open>What is posted to it\<close>

lemma send_attempts_accepting:
  assumes "accepting agent" "json_envelopes envs" "0 \<le> retries"
  obtains payload st1 where "send_attempts agent url retries n envs [0..retries] st = (Inr (), st1)"
    "sd_agent st1 = sd_agent st @ [payload]" "body_events payload (map envelope_to_wire envs)"
    "m_sent (sd_metrics st1) = m_sent (sd_metrics st) + int (length envs)"
    "m_dropped (sd_metrics st1) = m_dropped (sd_metrics st)"
proof -
  let ?p = "utf8_encode (json_compact True (plain_json (batch_to_wire envs)))"
  have p: "body_events ?p (map envelope_to_wire envs)"
    using assms(2) unfolding json_envelopes_def by (rule body_events_batch)
  obtain body resp where a: "agent url ?p (sd_agent st) = (HttpAnswer body, sd_agent st @ [?p])"
    "read_response body = Inr resp" "as_count (rs_accepted resp) = Some (int (length envs))"
    "as_count (rs_dropped resp) = Some 0"
    using acceptingD [OF assms(1) p, of url "sd_agent st"] by auto
  have "[0..retries] = 0 # [1..retries]" using assms(3) by (simp add: upto.simps)
  moreover obtain st1 where "try_send agent url envs st = (Inr (), st1)"
    "sd_agent st1 = sd_agent st @ [?p]"
    "m_sent (sd_metrics st1) = m_sent (sd_metrics st) + int (length envs)"
    "m_dropped (sd_metrics st1) = m_dropped (sd_metrics st)"
    by (simp add: try_send_def post_batch_def batch_serialize_json [OF assms(2)] a record_send_def Let_def)
  ultimately show thesis using that [of st1 ?p] p by simp
qed

text \<open>
  \<open>delivered es st st'\<close>: between the two states bodies were posted, of which the payloads of all
  events are those of \<open>es\<close>, in order, and each was counted as sent.
\<close>

definition delivered ::
  "int \<Rightarrow> fixture_event list \<Rightarrow> 8 word list list sender_state \<Rightarrow> 8 word list list sender_state \<Rightarrow> bool" where
  "delivered n es st st' \<longleftrightarrow>
     (\<exists>bodies groups. sd_agent st' = sd_agent st @ bodies \<and> list_all2 body_events bodies groups \<and>
        list_all (\<lambda>g. int (length g) \<le> n) groups \<and>
        map (get_field ''Payload'') (concat groups) = map to_dict es \<and>
        m_sent (sd_metrics st') = m_sent (sd_metrics st) + int (length es) \<and>
        m_dropped (sd_metrics st') = m_dropped (sd_metrics st))"

lemma payload_field: "get_field ''Payload'' (envelope_to_wire e) = env_payload e"
  by (simp add: get_field_def envelope_to_wire_def)

lemma send_chunk_accepting:
  assumes "accepting agent" "list_all json_event es" "0 \<le> cfg_retries cfg" "int (length es) \<le> n"
    and "send_chunk agent cfg es st = (res, st')"
  shows "res = Inr () \<and> delivered n es st st'"
proof -
  obtain envs st1 where m: "make_envelopes (cfg_service cfg) es st = (envs, st1)" by fastforce
  have e: "json_envelopes envs" "length envs = length es" "sd_metrics st1 = sd_metrics st"
    "sd_agent st1 = sd_agent st" "map env_payload envs = map to_dict es"
    using json_envelopes_make [OF assms(2)] length_make_envelopes make_envelopes_state m
      make_envelopes_payloads by (metis fst_conv snd_conv)+
  obtain payload st2 where
    "send_attempts agent (cfg_url cfg) (cfg_retries cfg) (int (length es)) envs [0..cfg_retries cfg] st1 = (Inr (), st2)"
    "sd_agent st2 = sd_agent st1 @ [payload]" "body_events payload (map envelope_to_wire envs)"
    "m_sent (sd_metrics st2) = m_sent (sd_metrics st1) + int (length envs)"
    "m_dropped (sd_metrics st2) = m_dropped (sd_metrics st1)"
    using send_attempts_accepting [OF assms(1) e(1) assms(3)] by metis
  moreover from this have "res = Inr ()" "st' = st2" using assms(5) by (simp_all add: send_chunk_def m)
  moreover have "map (get_field ''Payload'') (map envelope_to_wire envs) = map to_dict es"
    using e(5) by (simp add: payload_field comp_def)
  ultimately show ?thesis
    unfolding delivered_def using e assms(4)
    by (intro conjI exI [of _ "[payload]"] exI [of _ "[map envelope_to_wire envs]"]) simp_all
qed

lemma delivered_append:
  assumes "delivered n es st st1" "delivered n es' st1 st2"
  shows "delivered n (es @ es') st st2"
proof -
  obtain bodies groups where "sd_agent st1 = sd_agent st @ bodies" "list_all2 body_events bodies groups"
    "list_all (\<lambda>g. int (length g) \<le> n) groups" "map (get_field ''Payload'') (concat groups) = map to_dict es"
    using assms(1) unfolding delivered_def by blast
  moreover obtain bodies' groups' where "sd_agent st2 = sd_agent st1 @ bodies'"
    "list_all2 body_events bodies' groups'" "list_all (\<lambda>g. int (length g) \<le> n) groups'"
    "map (get_field ''Payload'') (concat groups') = map to_dict es'"
    using assms(2) unfolding delivered_def by blast
  ultimately show ?thesis
    using assms unfolding delivered_def
    by (intro exI [of _ "bodies @ bodies'"] exI [of _ "groups @ groups'"])
      (auto intro: list_all2_appendI)
qed

lemma send_chunks_accepting:
  assumes "accepting agent" "list_all (list_all json_event) cs" "0 \<le> cfg_retries cfg"
    and "list_all (\<lambda>c. int (length c) \<le> n) cs" "send_chunks agent cfg cs st = (res, st')"
  shows "res = Inr () \<and> delivered n (concat cs) st st'"
  using assms(2,4,5)
proof (induction cs arbitrary: st)
  case (Cons c cs)
  obtain res1 st1 where s: "send_chunk agent cfg c st = (res1, st1)" by fastforce
  have "res1 = Inr () \<and> delivered n c st st1"
    using send_chunk_accepting [OF assms(1) _ assms(3) _ s, of n] Cons.prems by simp
  then show ?case using Cons.IH [of st1] Cons.prems s delivered_append by auto
qed (auto simp: delivered_def intro: exI [of _ "[]"])

subsection \<open>How many requests a chunk makes\<close>

text \<open>An agent with a counter of the requests it got.\<close>

definition numbered :: "'s agent \<Rightarrow> (nat \<times> 's) agent" where
  "numbered agent url payload s = (case agent url payload (snd s) of (answer, s1) \<Rightarrow> (answer, fst s + 1, s1))"

abbreviation requests :: "(nat \<times> 's) sender_state \<Rightarrow> nat" where
  "requests st \<equiv> fst (sd_agent st)"

lemma try_send_requests:
  "requests (snd (try_send (numbered agent) url envs st)) \<le> requests st + 1"
  by (auto simp: try_send_def post_batch_def numbered_def Let_def case_prod_unfold
      split: sum.splits http_reading.splits)

lemma give_up_agent [simp]: "sd_agent (give_up err retries n st) = sd_agent st"
  by (simp add: give_up_def rate_limited_warn_def log_warning_def read_clock_def Let_def)

lemma send_attempts_requests:
  "requests (snd (send_attempts (numbered agent) url retries n envs attempts st))
    \<le> requests st + length attempts"
proof (induction attempts arbitrary: st)
  case (Cons a attempts)
  obtain res st1 where t: "try_send (numbered agent) url envs st = (res, st1)" by fastforce
  have "requests st1 \<le> requests st + 1" using try_send_requests [of agent url envs st] t by simp
  then show ?case using Cons [of st1] by (auto simp: t split: sum.splits)
qed simp

text \<open>An agent that cannot be reached.\<close>

definition unreachable :: "'s agent \<Rightarrow> bool" where
  "unreachable agent \<longleftrightarrow> (\<forall>url payload s. \<exists>reason. fst (agent url payload s) = HttpUnreachable reason)"

lemma try_send_unreachable:
  assumes "unreachable agent" "json_envelopes envs"
  obtains m st1 where "try_send (numbered agent) url envs st = (Inl (AgentUnavailableError m), st1)"
    "requests st1 = requests st + 1" "sd_metrics st1 = sd_metrics st"
proof -
  let ?p = "utf8_encode (json_compact True (plain_json (batch_to_wire envs)))"
  obtain reason s1 where "agent url ?p (snd (sd_agent st)) = (HttpUnreachable reason, s1)"
    using assms(1) unfolding unreachable_def by (metis surjective_pairing)
  then show thesis
    using that by (simp add: try_send_def post_batch_def batch_serialize_json [OF assms(2)] numbered_def Let_def)
qed

lemma send_attempts_unreachable:
  assumes "unreachable agent" "json_envelopes envs" "0 \<le> i" "i \<le> retries"
    and "send_attempts (numbered agent) url retries n envs [i..retries] st = (res, st1)"
  shows "res = Inr () \<and> int (requests st1) = int (requests st) + retries - i + 1 \<and>
    sd_metrics st1 = record_drop n (record_unavailable (sd_metrics st))"
  using assms(3-)
proof (induction "nat (retries - i)" arbitrary: i st)
  case 0
  then have l: "[i..retries] = [i]" "i = retries" by simp_all
  obtain m st2 where "try_send (numbered agent) url envs st = (Inl (AgentUnavailableError m), st2)"
    "requests st2 = requests st + 1" "sd_metrics st2 = sd_metrics st"
    using try_send_unreachable [OF assms(1,2)] by metis
  then show ?case
    using 0(4) l by (auto simp: give_up_def rate_limited_warn_def log_warning_def read_clock_def Let_def)
next
  case (Suc k)
  then have l: "[i..retries] = i # [i + 1..retries]" "i < retries" by (simp_all add: upto.simps)
  obtain m st2 where t: "try_send (numbered agent) url envs st = (Inl (AgentUnavailableError m), st2)"
    "requests st2 = requests st + 1" "sd_metrics st2 = sd_metrics st"
    using try_send_unreachable [OF assms(1,2)] by metis
  have "send_attempts (numbered agent) url retries n envs [i + 1..retries] st2 = (res, st1)"
    using Suc.prems(3) l t(1) by simp
  then have "res = Inr () \<and> int (requests st1) = int (requests st2) + retries - (i + 1) + 1 \<and>
      sd_metrics st1 = record_drop n (record_unavailable (sd_metrics st2))"
    using Suc by (intro Suc.hyps(1)) auto
  then show ?case using t by simp
qed

subsection \<open>Properties\<close>

definition sender_init :: "(nat \<Rightarrow> int) \<Rightarrow> 's \<Rightarrow> 's sender_state" where
  "sender_init clk agent_state =
     \<lparr>sd_metrics = sender_metrics_init, sd_last_warn = 0, sd_log = [], sd_clock = clk, sd_ticks = 0,
      sd_agent = agent_state\<rparr>"

text \<open>
  C22: every drained event is settled, once. With an agent whose counts add up, a batch size of at
  least one and a number of retries that is not negative, draining the buffer and sending what it
  held raises nothing whatever requests fail, empties the buffer, and adds exactly the number of
  events it held to the events sent or dropped.
\<close>

theorem every_event_is_settled:
  assumes "counting_agent agent" "list_all json_event (buffer b)" "0 \<le> cfg_retries cfg" "1 \<le> cfg_batch cfg"
    and "drain_and_send agent cfg b st = (res, b1, st1)"
  shows "res = Inr () \<and> buffer b1 = [] \<and>
    settled (sd_metrics st1) = settled (sd_metrics st) + int (buffer_len b) \<and>
    m_buffered (sd_metrics st1) = m_buffered (sd_metrics st)"
  using send_batch_counts [OF assms(1-4), of st] assms(5)
  by (auto simp: drain_and_send_def buffer_drain_def buffer_len_def counted_def split: prod.splits)

lemma json_event_init: "json_event (fixture_event_init fid q run date)"
proof -
  have "float_text ''0.0''" by (simp add: float_text_def number_defs)
  then show ?thesis by (simp add: json_event_def to_dict_def fixture_event_init_def)
qed

theorem every_event_is_settled_witness:
  "settled (sd_metrics (snd (snd (drain_and_send accepting_agent
     \<lparr>cfg_url = endpoint ''http://localhost:9700/'', cfg_service = ''web'', cfg_batch = 1, cfg_retries = 1\<rparr>
     \<lparr>buffer = replicate 2 (fixture_event_init ''1'' ''f'' ''r'' ''now''), max_buffer_bytes = 1000,
      buf_policy = DROP_OLDEST\<rparr> (sender_init (\<lambda>n. int n) []))))) = 2"
proof -
  define cfg where "cfg =
    \<lparr>cfg_url = endpoint ''http://localhost:9700/'', cfg_service = ''web'', cfg_batch = 1, cfg_retries = 1\<rparr>"
  define b where "b = \<lparr>buffer = replicate 2 (fixture_event_init ''1'' ''f'' ''r'' ''now''),
    max_buffer_bytes = 1000, buf_policy = DROP_OLDEST\<rparr>"
  obtain res b1 st1 where d: "drain_and_send accepting_agent cfg b (sender_init (\<lambda>n. int n) []) = (res, b1, st1)"
    using prod_cases3 by blast
  have "settled (sd_metrics st1) = settled sender_metrics_init + int (buffer_len b)"
    using every_event_is_settled [OF accepting_counts [OF accepting_agent_accepts] _ _ _ d]
    by (simp add: b_def cfg_def json_event_init numeral_2_eq_2 sender_init_def)
  then have "settled (sd_metrics st1) = 2"
    by (simp add: b_def buffer_len_def settled_def sender_metrics_init_def)
  then show ?thesis using d unfolding cfg_def b_def by simp
qed

lemma drain_and_send_accepting:
  assumes "accepting agent" "list_all json_event (buffer b)" "0 \<le> cfg_retries cfg" "1 \<le> cfg_batch cfg"
    and "drain_and_send agent cfg b st = (res, b1, st1)"
  shows "res = Inr () \<and> delivered (cfg_batch cfg) (buffer b) st st1"
proof -
  have n: "nat (cfg_batch cfg) \<noteq> 0" using assms(4) by simp
  have "list_all (\<lambda>c. int (length c) \<le> cfg_batch cfg) (chunks (nat (cfg_batch cfg)) (buffer b))"
    using chunks_sizes [of _ "nat (cfg_batch cfg)" "buffer b"] assms(4) by (force simp: list_all_iff)
  note chunk = send_chunks_accepting [OF assms(1) chunks_elements [OF n assms(2)] assms(3) this]
  show ?thesis
  proof (cases "buffer b = []")
    case True
    then show ?thesis
      using assms(5) by (auto simp: drain_and_send_def buffer_drain_def send_batch_def delivered_def
          intro: exI [of _ "[]"])
  next
    case False
    then have "send_chunks agent cfg (chunks (nat (cfg_batch cfg)) (buffer b)) st = (res, st1)"
      using assms(4,5)
      by (auto simp: drain_and_send_def buffer_drain_def send_batch_def batch_chunks_def split: prod.splits)
    from chunk [OF this] show ?thesis by (simp add: concat_chunks [OF n])
  qed
qed

text \<open>
  C15: an agent that accepts everything gets everything. Of a drained batch it receives bodies of at
  most the batch size, which read back as groups of envelopes whose payloads, all together and in
  order, are the buffered events; each event is counted as sent and none as dropped.
\<close>

theorem accepting_agent_gets_all:
  assumes "accepting agent" "list_all json_event (buffer b)" "0 \<le> cfg_retries cfg" "1 \<le> cfg_batch cfg"
    and "drain_and_send agent cfg b st = (res, b1, st1)"
  shows "res = Inr () \<and>
    (\<exists>bodies groups. sd_agent st1 = sd_agent st @ bodies \<and> list_all2 body_events bodies groups \<and>
       list_all (\<lambda>g. int (length g) \<le> cfg_batch cfg) groups \<and>
       map (get_field ''Payload'') (concat groups) = map to_dict (buffer b)) \<and>
    m_sent (sd_metrics st1) = m_sent (sd_metrics st) + int (buffer_len b) \<and>
    m_dropped (sd_metrics st1) = m_dropped (sd_metrics st)"
  using drain_and_send_accepting [OF assms] by (auto simp: delivered_def buffer_len_def)

theorem accepting_agent_gets_all_witness:
  "m_sent (sd_metrics (snd (snd (drain_and_send accepting_agent
     \<lparr>cfg_url = endpoint ''http://localhost:9700/'', cfg_service = ''web'', cfg_batch = 2, cfg_retries = 0\<rparr>
     \<lparr>buffer = replicate 3 (fixture_event_init ''1'' ''f'' ''r'' ''now''), max_buffer_bytes = 1000,
      buf_policy = DROP_OLDEST\<rparr> (sender_init (\<lambda>n. int n) []))))) = 3"
proof -
  define cfg where "cfg =
    \<lparr>cfg_url = endpoint ''http://localhost:9700/'', cfg_service = ''web'', cfg_batch = 2, cfg_retries = 0\<rparr>"
  define b where "b = \<lparr>buffer = replicate 3 (fixture_event_init ''1'' ''f'' ''r'' ''now''),
    max_buffer_bytes = 1000, buf_policy = DROP_OLDEST\<rparr>"
  obtain res b1 st1 where d: "drain_and_send accepting_agent cfg b (sender_init (\<lambda>n. int n) []) = (res, b1, st1)"
    using prod_cases3 by blast
  have "m_sent (sd_metrics st1) = m_sent sender_metrics_init + int (buffer_len b)"
    using accepting_agent_gets_all [OF accepting_agent_accepts _ _ _ d]
    by (simp add: b_def cfg_def json_event_init numeral_3_eq_3 sender_init_def)
  then have "m_sent (sd_metrics st1) = 3"
    by (simp add: b_def buffer_len_def sender_metrics_init_def)
  then show ?thesis using d unfolding cfg_def b_def by simp
qed

text \<open>
  C38: retrying is bounded, and an outage drops the chunk. A chunk makes at most
  \<open>1 + max_retries\<close> requests, none if that is negative, and then nothing is counted either. While
  the agent cannot be reached it makes exactly that many, raises nothing, counts one failure, one
  time unavailable and each of its events as dropped.
\<close>

theorem outage_drops_chunk:
  assumes "unreachable agent" "list_all json_event es"
    and "send_chunk (numbered agent) cfg es st = (res, st1)"
  shows "res = Inr () \<and> requests st1 = requests st + nat (1 + cfg_retries cfg) \<and>
    sd_metrics st1 =
      (if cfg_retries cfg < 0 then sd_metrics st
       else record_drop (int (length es)) (record_unavailable (sd_metrics st))) \<and>
    requests (snd (send_chunk (numbered other) cfg es st)) \<le> requests st + nat (1 + cfg_retries cfg)"
proof -
  obtain envs st2 where m: "make_envelopes (cfg_service cfg) es st = (envs, st2)" by fastforce
  have e: "json_envelopes envs" "sd_metrics st2 = sd_metrics st" "sd_agent st2 = sd_agent st"
    using json_envelopes_make [OF assms(2)] make_envelopes_state m by (metis fst_conv snd_conv)+
  have s: "send_attempts (numbered agent) (cfg_url cfg) (cfg_retries cfg) (int (length es)) envs
      [0..cfg_retries cfg] st2 = (res, st1)"
    using assms(3) by (simp add: send_chunk_def m)
  have "requests (snd (send_chunk (numbered other) cfg es st)) \<le> requests st2 + nat (1 + cfg_retries cfg)"
    using send_attempts_requests [of other "cfg_url cfg" "cfg_retries cfg" _ envs "[0..cfg_retries cfg]" st2]
    by (simp add: send_chunk_def m add.commute)
  moreover have "res = Inr () \<and> requests st1 = requests st2 + nat (1 + cfg_retries cfg) \<and>
      sd_metrics st1 = (if cfg_retries cfg < 0 then sd_metrics st2
        else record_drop (int (length es)) (record_unavailable (sd_metrics st2)))"
    using s send_attempts_unreachable [OF assms(1) e(1) order_refl _ s]
    by (cases "cfg_retries cfg < 0") auto
  ultimately show ?thesis using e by simp
qed

theorem outage_drops_chunk_witness:
  "requests (snd (send_chunk (numbered (\<lambda>url p s. (HttpUnreachable ''refused'', s)))
     \<lparr>cfg_url = ''/v1/events'', cfg_service = [], cfg_batch = 100, cfg_retries = 1\<rparr>
     [fixture_event_init ''1'' ''f'' ''r'' ''now''] (sender_init (\<lambda>n. 0) (0, ())))) = 2"
proof -
  have "unreachable (\<lambda>url p s :: unit. (HttpUnreachable ''refused'', s))" by (simp add: unreachable_def)
  from outage_drops_chunk [OF this _ surjective_pairing, of "[fixture_event_init ''1'' ''f'' ''r'' ''now'']"
      "\<lparr>cfg_url = ''/v1/events'', cfg_service = [], cfg_batch = 100, cfg_retries = 1\<rparr>"
      "sender_init (\<lambda>n. 0) (0, ())"]
  show ?thesis by (simp add: json_event_init sender_init_def)
qed

end
