(* ===== verification/Runs.thy ===== *)
theory Runs
  imports Main
begin

text \<open>
  Runs of a labelled step relation, for the concurrent part of the SDK: sequences of actions of
  several threads, in any interleaving the relation allows.

  The locale \<open>ranked_steps\<close> is the contract of a thread that makes progress: a condition every step
  keeps, and a rank that the thread's own steps lower and no other step raises. It bounds the
  number of the thread's steps in any run. \<open>kept_by\<close> is the contract of an invariant, and \<open>simulated_by\<close>
  that of an abstract step relation the concrete one implements, action by action.
\<close>

inductive run :: "('l \<Rightarrow> 's \<Rightarrow> 's \<Rightarrow> bool) \<Rightarrow> 's \<Rightarrow> 'l list \<Rightarrow> 's \<Rightarrow> bool" for step where
  run_Nil: "run step s [] s"
| run_Cons: "step l s t \<Longrightarrow> run step t ls u \<Longrightarrow> run step s (l # ls) u"

inductive_cases run_ConsE: "run step s (l # ls) u"
inductive_simps run_Nil_iff [simp]: "run step s [] u"
inductive_simps run_Cons_iff: "run step s (l # ls) u"

lemma run_append: "run step s ls t \<Longrightarrow> run step t ms u \<Longrightarrow> run step s (ls @ ms) u"
  by (induction rule: run.induct) (auto intro: run.intros)

lemma run_append_iff: "run step s (ls @ ms) u \<longleftrightarrow> (\<exists>t. run step s ls t \<and> run step t ms u)"
  by (induction ls arbitrary: s) (auto simp: run_Cons_iff)

lemma run_snoc_iff: "run step s (ls @ [l]) u \<longleftrightarrow> (\<exists>t. run step s ls t \<and> step l t u)"
  by (auto simp: run_append_iff run_Cons_iff)

locale kept_by =
  fixes step :: "'l \<Rightarrow> 's \<Rightarrow> 's \<Rightarrow> bool"
    and ok :: "'l \<Rightarrow> bool"
    and inv :: "'s \<Rightarrow> bool"
  assumes inv_step: "inv s \<Longrightarrow> ok l \<Longrightarrow> step l s t \<Longrightarrow> inv t"
begin

lemma inv_run: "run step s ls t \<Longrightarrow> list_all ok ls \<Longrightarrow> inv s \<Longrightarrow> inv t"
  by (induction rule: run.induct) (auto intro: inv_step)

end

locale ranked_steps = kept_by step ok inv
  for step :: "'l \<Rightarrow> 's \<Rightarrow> 's \<Rightarrow> bool" and ok :: "'l \<Rightarrow> bool" and inv :: "'s \<Rightarrow> bool" +
  fixes mine :: "'l \<Rightarrow> bool"
    and rank :: "'s \<Rightarrow> nat"
  assumes rank_falls: "inv s \<Longrightarrow> ok l \<Longrightarrow> step l s t \<Longrightarrow> mine l \<Longrightarrow> rank t < rank s"
    and rank_keeps: "inv s \<Longrightarrow> ok l \<Longrightarrow> step l s t \<Longrightarrow> \<not> mine l \<Longrightarrow> rank t \<le> rank s"
begin

lemma run_bounded:
  "run step s ls t \<Longrightarrow> list_all ok ls \<Longrightarrow> inv s \<Longrightarrow> length (filter mine ls) + rank t \<le> rank s"
proof (induction rule: run.induct)
  case (run_Cons l s t ls u)
  then have "length (filter mine ls) + rank u \<le> rank t" using inv_step by auto
  moreover have "rank t < rank s" if "mine l" using run_Cons that rank_falls by auto
  moreover have "rank t \<le> rank s" if "\<not> mine l" using run_Cons that rank_keeps by auto
  ultimately show ?case by (cases "mine l") auto
qed simp

end

locale simulated_by = kept_by step ok inv
  for step :: "'l \<Rightarrow> 's \<Rightarrow> 's \<Rightarrow> bool" and ok :: "'l \<Rightarrow> bool" and inv :: "'s \<Rightarrow> bool" +
  fixes spec :: "'l \<Rightarrow> 'a \<Rightarrow> 'a \<Rightarrow> bool"
    and abs_state :: "'s \<Rightarrow> 'a"
  assumes step_simulated: "inv s \<Longrightarrow> ok l \<Longrightarrow> step l s t \<Longrightarrow> spec l (abs_state s) (abs_state t)"
begin

lemma run_simulated:
  "run step s ls t \<Longrightarrow> list_all ok ls \<Longrightarrow> inv s \<Longrightarrow> run spec (abs_state s) ls (abs_state t)"
  by (induction rule: run.induct) (auto intro: run.intros step_simulated inv_step)

end

end
