(* ===== verification/Worker.thy ===== *)
theory Worker
  imports Sender Runs
begin

text \<open>
  The agent sink and its sender thread (sim_sdk/sink/agent_sink.py, sim_sdk/sink/sender_worker.py)
  as a step relation.

  The threads share the buffer, the counters, the two \<open>threading.Event\<close>s and the list of flush
  waiters. A step is what one thread does between two points where another may run: one buffer or
  metrics call (each holds its lock), one \<open>set\<close>, \<open>clear\<close> or \<open>is_set\<close>, the locked part of a
  flush. Application threads that have reached the same point of \<open>emit\<close>, \<open>flush_sync\<close> or \<open>stop\<close>
  have the same rest of the call to do, so the state counts them per point. Sending a drained batch
  is one step: of what it touches, other threads only change \<open>m_buffered\<close>, which it leaves alone
  (theory Fine_Sending sends it piece by piece).

  \<open>_wake.wait\<close> and \<open>join\<close> take a timeout, so each may return at any time.
\<close>

subsection \<open>State\<close>

text \<open>
  Where a sender thread is in \<open>_run\<close>; the flag tells the final drain from those of the loop. A
  thread ends at \<open>Finished\<close>, or at \<open>Died\<close> with an exception nothing catches.
\<close>

datatype worker_pc =
    Top
  | Waiting
  | Clearing
  | Draining bool
  | Sending bool "fixture_event list"
  | Signalling bool
  | Finished
  | Died py_exn

fun is_alive :: "worker_pc \<Rightarrow> bool" where
  "is_alive Finished = False"
| "is_alive (Died err) = False"
| "is_alive _ = True"

fun in_flight :: "worker_pc \<Rightarrow> fixture_event list" where
  "in_flight (Sending final batch) = batch"
| "in_flight _ = []"

text \<open>
  A waiter of \<open>flush_sync\<close> is a number; \<open>sk_done\<close> holds those whose event is set. \<open>sk_handle\<close> is
  \<open>self._thread\<close>, an index into the threads ever started.
\<close>

record 's sink_state =
  sk_buffer :: "fixture_event memory_buffer"
  sk_sender :: "'s sender_state"
  sk_wake :: bool
  sk_stop :: bool
  sk_waiters :: "nat list"
  sk_done :: "nat list"
  sk_next :: nat
  sk_threads :: "worker_pc list"
  sk_handle :: "nat option"
  sk_at_count :: nat
  sk_at_check :: nat
  sk_at_wake :: nat
  sk_at_stop :: nat
  sk_at_join :: nat

subsection \<open>\<open>SenderWorker\<close>: what the application calls\<close>

definition worker_alive :: "'s sink_state \<Rightarrow> bool" where
  "worker_alive s =
     (case sk_handle s of None \<Rightarrow> False | Some i \<Rightarrow> is_alive (sk_threads s ! i))"

definition worker_start :: "'s sink_state \<Rightarrow> 's sink_state" where
  "worker_start s =
     (if worker_alive s then s
      else s\<lparr>sk_stop := False, sk_threads := sk_threads s @ [Top], sk_handle := Some (length (sk_threads s))\<rparr>)"

definition worker_notify :: "'s sink_state \<Rightarrow> 's sink_state" where
  "worker_notify s = s\<lparr>sk_wake := True\<rparr>"

text \<open>\<open>flush_sync\<close>: register under the lock, wake the worker, wait until done or timeout.\<close>

definition flush_register :: "'s sink_state \<Rightarrow> 's sink_state" where
  "flush_register s = s\<lparr>sk_waiters := sk_waiters s @ [sk_next s], sk_next := sk_next s + 1,
     sk_at_wake := sk_at_wake s + 1\<rparr>"

definition flush_wake :: "'s sink_state \<Rightarrow> 's sink_state" where
  "flush_wake s = (worker_notify s)\<lparr>sk_at_wake := sk_at_wake s - 1\<rparr>"

definition flush_returns_true :: "nat \<Rightarrow> 's sink_state \<Rightarrow> bool" where
  "flush_returns_true w s \<longleftrightarrow> w \<in> set (sk_done s)"

text \<open>\<open>stop\<close>: set both events, then join with a timeout and forget the thread.\<close>

definition stop_set :: "'s sink_state \<Rightarrow> 's sink_state" where
  "stop_set s = s\<lparr>sk_stop := True, sk_at_stop := sk_at_stop s + 1\<rparr>"

definition stop_wake :: "'s sink_state \<Rightarrow> 's sink_state" where
  "stop_wake s = (worker_notify s)\<lparr>sk_at_stop := sk_at_stop s - 1, sk_at_join := sk_at_join s + 1\<rparr>"

definition stop_join :: "'s sink_state \<Rightarrow> 's sink_state" where
  "stop_join s = s\<lparr>sk_handle := None, sk_at_join := sk_at_join s - 1\<rparr>"

subsection \<open>\<open>SenderWorker._run\<close>\<close>

definition signal_flush_waiters :: "'s sink_state \<Rightarrow> 's sink_state" where
  "signal_flush_waiters s = s\<lparr>sk_done := sk_done s @ sk_waiters s, sk_waiters := []\<rparr>"

inductive worker_step ::
  "'s agent \<Rightarrow> sender_config \<Rightarrow> worker_pc \<Rightarrow> 's sink_state \<Rightarrow> worker_pc \<Rightarrow> 's sink_state \<Rightarrow> bool"
  for agent cfg where
  loop_test: "worker_step agent cfg Top s (if sk_stop s then Draining True else Waiting) s"
| wait_returns: "worker_step agent cfg Waiting s Clearing s"
| clear: "worker_step agent cfg Clearing s (Draining False) (s\<lparr>sk_wake := False\<rparr>)"
| drain: "buffer_drain (sk_buffer s) = (batch, b) \<Longrightarrow>
    worker_step agent cfg (Draining final) s (Sending final batch) (s\<lparr>sk_buffer := b\<rparr>)"
| send: "send_batch agent cfg batch (sk_sender s) = (Inr u, sd) \<Longrightarrow>
    worker_step agent cfg (Sending final batch) s (Signalling final) (s\<lparr>sk_sender := sd\<rparr>)"
| send_raises: "send_batch agent cfg batch (sk_sender s) = (Inl err, sd) \<Longrightarrow>
    worker_step agent cfg (Sending final batch) s (Died err) (s\<lparr>sk_sender := sd\<rparr>)"
| signal: "worker_step agent cfg (Signalling final) s (if final then Finished else Top)
    (signal_flush_waiters s)"

inductive_cases worker_step_cases: "worker_step agent cfg pc s pc' s'"
inductive_simps worker_step_simps:
  "worker_step agent cfg Top s pc' s'"
  "worker_step agent cfg Waiting s pc' s'"
  "worker_step agent cfg Clearing s pc' s'"
  "worker_step agent cfg (Draining final) s pc' s'"
  "worker_step agent cfg (Sending final batch) s pc' s'"
  "worker_step agent cfg (Signalling final) s pc' s'"
  "worker_step agent cfg Finished s pc' s'"
  "worker_step agent cfg (Died err) s pc' s'"

subsection \<open>\<open>AgentSink\<close>\<close>

definition agent_sink_init ::
  "int \<Rightarrow> drop_policy \<Rightarrow> (nat \<Rightarrow> int) \<Rightarrow> 's \<Rightarrow> 's sink_state" where
  "agent_sink_init bytes policy clk agent_state =
     worker_start
       \<lparr>sk_buffer = memory_buffer_init bytes policy, sk_sender = sender_init clk agent_state,
        sk_wake = False, sk_stop = False, sk_waiters = [], sk_done = [], sk_next = 0,
        sk_threads = [], sk_handle = None, sk_at_count = 0, sk_at_check = 0, sk_at_wake = 0, sk_at_stop = 0,
        sk_at_join = 0\<rparr>"

definition map_metrics :: "(sender_metrics \<Rightarrow> sender_metrics) \<Rightarrow> 's sink_state \<Rightarrow> 's sink_state" where
  "map_metrics f s = s\<lparr>sk_sender := (sk_sender s)\<lparr>sd_metrics := f (sd_metrics (sk_sender s))\<rparr>\<rparr>"

text \<open>\<open>emit\<close>: append, count, compare the length and notify; three points where others may run.\<close>

definition emit_append :: "int \<times> nat \<Rightarrow> fixture_event \<Rightarrow> 's sink_state \<Rightarrow> 's sink_state" where
  "emit_append reading e s =
     s\<lparr>sk_buffer := buffer_append reading e (sk_buffer s), sk_at_count := sk_at_count s + 1\<rparr>"

definition emit_count :: "'s sink_state \<Rightarrow> 's sink_state" where
  "emit_count s =
     (map_metrics (record_buffer 1) s)\<lparr>sk_at_count := sk_at_count s - 1, sk_at_check := sk_at_check s + 1\<rparr>"

definition emit_check :: "sender_config \<Rightarrow> 's sink_state \<Rightarrow> 's sink_state" where
  "emit_check cfg s =
     (if cfg_batch cfg \<le> int (buffer_len (sk_buffer s)) then worker_notify s else s)
       \<lparr>sk_at_check := sk_at_check s - 1\<rparr>"

text \<open>The three in a row: \<open>emit\<close> as a call that nothing interrupts.\<close>

definition agent_emit :: "sender_config \<Rightarrow> int \<times> nat \<Rightarrow> fixture_event \<Rightarrow> 's sink_state \<Rightarrow> 's sink_state" where
  "agent_emit cfg reading e s = emit_check cfg (emit_count (emit_append reading e s))"

subsection \<open>All threads\<close>

datatype action =
    EmitAppend "int \<times> nat" fixture_event
  | EmitCount
  | EmitCheck
  | FlushRegister
  | FlushWake
  | StopSet
  | StopWake
  | StopJoin
  | Start
  | Work nat

inductive sink_step ::
  "'s agent \<Rightarrow> sender_config \<Rightarrow> action \<Rightarrow> 's sink_state \<Rightarrow> 's sink_state \<Rightarrow> bool" for agent cfg where
  app_append: "sink_step agent cfg (EmitAppend reading e) s (emit_append reading e s)"
| app_count: "0 < sk_at_count s \<Longrightarrow> sink_step agent cfg EmitCount s (emit_count s)"
| app_check: "0 < sk_at_check s \<Longrightarrow> sink_step agent cfg EmitCheck s (emit_check cfg s)"
| app_register: "sink_step agent cfg FlushRegister s (flush_register s)"
| app_wake: "0 < sk_at_wake s \<Longrightarrow> sink_step agent cfg FlushWake s (flush_wake s)"
| app_stop: "sink_step agent cfg StopSet s (stop_set s)"
| app_stop_wake: "0 < sk_at_stop s \<Longrightarrow> sink_step agent cfg StopWake s (stop_wake s)"
| app_join: "0 < sk_at_join s \<Longrightarrow> sink_step agent cfg StopJoin s (stop_join s)"
| app_start: "sink_step agent cfg Start s (worker_start s)"
| work: "i < length (sk_threads s) \<Longrightarrow> worker_step agent cfg (sk_threads s ! i) s pc s1 \<Longrightarrow>
    sink_step agent cfg (Work i) s (s1\<lparr>sk_threads := (sk_threads s)[i := pc]\<rparr>)"

inductive_cases sink_step_cases: "sink_step agent cfg a s t"
inductive_cases sink_step_WorkE: "sink_step agent cfg (Work i) s t"

lemmas sink_run = run.intros [where step = "sink_step agent cfg" for agent cfg]

lemmas sink_op_defs =
  emit_append_def emit_count_def emit_check_def flush_register_def flush_wake_def stop_set_def
  stop_wake_def stop_join_def worker_start_def worker_notify_def map_metrics_def record_buffer_def
  signal_flush_waiters_def

subsection \<open>The accounts\<close>

definition held :: "'s sink_state \<Rightarrow> nat" where
  "held s = sum_list (map (\<lambda>pc. length (in_flight pc)) (sk_threads s)) + buffer_len (sk_buffer s)"

definition entered :: "'s sink_state \<Rightarrow> int" where
  "entered s = m_buffered (sd_metrics (sk_sender s)) + int (sk_at_count s)"

definition sink_inv :: "'s sink_state \<Rightarrow> bool" where
  "sink_inv s \<longleftrightarrow>
     list_all json_event (buffer (sk_buffer s)) \<and>
     list_all (\<lambda>pc. list_all json_event (in_flight pc) \<and> (\<forall>err. pc \<noteq> Died err)) (sk_threads s) \<and>
     settled (sd_metrics (sk_sender s)) + int (held s) \<le> entered s \<and>
     (buf_policy (sk_buffer s) = DROP_NONE \<longrightarrow>
        settled (sd_metrics (sk_sender s)) + int (held s) = entered s)"

text \<open>The conditions on the surroundings: what the agent counts, the settings, the events.\<close>

fun json_action :: "action \<Rightarrow> bool" where
  "json_action (EmitAppend reading e) = json_event e"
| "json_action _ = True"

definition sound_action :: "'s agent \<Rightarrow> sender_config \<Rightarrow> action \<Rightarrow> bool" where
  "sound_action agent cfg a \<longleftrightarrow>
     counting_agent agent \<and> 0 \<le> cfg_retries cfg \<and> 1 \<le> cfg_batch cfg \<and> json_action a"

lemma worker_step_frame:
  "worker_step agent cfg pc s pc' s1 \<Longrightarrow>
    sk_threads s1 = sk_threads s \<and> sk_stop s1 = sk_stop s \<and> sk_next s1 = sk_next s \<and>
    sk_at_count s1 = sk_at_count s \<and> buf_policy (sk_buffer s1) = buf_policy (sk_buffer s)"
  by (induction rule: worker_step.induct) (auto simp: buffer_drain_def signal_flush_waiters_def)

lemma worker_step_accounts:
  assumes "worker_step agent cfg pc s pc' s1" "sound_action agent cfg a"
    and "list_all json_event (in_flight pc)" "list_all json_event (buffer (sk_buffer s))"
  shows "settled (sd_metrics (sk_sender s1)) + int (length (in_flight pc')) + int (buffer_len (sk_buffer s1)) =
      settled (sd_metrics (sk_sender s)) + int (length (in_flight pc)) + int (buffer_len (sk_buffer s)) \<and>
    m_buffered (sd_metrics (sk_sender s1)) = m_buffered (sd_metrics (sk_sender s)) \<and>
    list_all json_event (in_flight pc') \<and> list_all json_event (buffer (sk_buffer s1)) \<and>
    (\<forall>err. pc' \<noteq> Died err)"
proof -
  have sends: "counted (int (length batch)) (sk_sender s) (send_batch agent cfg batch (sk_sender s))"
    if "list_all json_event batch" for batch
    using that assms(2) by (auto simp: sound_action_def intro: send_batch_counts)
  show ?thesis
    using assms(1,3,4)
  proof cases
    case (drain batch b final)
    then show ?thesis using assms(3,4) by (auto simp: buffer_drain_def buffer_len_def)
  next
    case (send batch u sd final)
    then show ?thesis using sends [of batch] assms(3,4) by (simp add: counted_def)
  next
    case (send_raises batch err sd final)
    then show ?thesis using sends [of batch] assms(3,4) by (simp add: counted_def)
  qed (simp_all add: signal_flush_waiters_def)
qed

lemma held_update:
  assumes "i < length ts"
  shows "sum_list (map (\<lambda>pc. length (in_flight pc)) (ts[i := pc])) + length (in_flight (ts ! i)) =
    sum_list (map (\<lambda>pc. length (in_flight pc)) ts) + length (in_flight pc)"
proof -
  have "length (in_flight (ts ! i)) \<le> sum_list (map (\<lambda>pc. length (in_flight pc)) ts)"
    using assms by (simp add: member_le_sum_list)
  then show ?thesis using assms by (simp add: map_update sum_list_update)
qed

lemma append_length:
  "length (buffer (buffer_append r e b)) \<le> Suc (length (buffer b)) \<and>
   (buf_policy b = DROP_NONE \<longrightarrow> length (buffer (buffer_append r e b)) = Suc (length (buffer b)))"
proof
  show "length (buffer (buffer_append r e b)) \<le> Suc (length (buffer b))"
    using list_emb_length [OF memory_buffer.put_subseq [of r e b]] by simp
  show "buf_policy b = DROP_NONE \<longrightarrow> length (buffer (buffer_append r e b)) = Suc (length (buffer b))"
    by (cases r) (simp add: buffer_append_def drop_one_def)
qed

lemma append_json:
  assumes "list_all json_event (buffer b)" "json_event e"
  shows "list_all json_event (buffer (buffer_append r e b))"
  using list_emb_set [OF memory_buffer.put_subseq [of r e b]] assms by (fastforce simp: list_all_iff)

lemma sink_inv_step:
  assumes "sink_inv s" "sound_action agent cfg a" "sink_step agent cfg a s t"
  shows "sink_inv t"
  using assms(3)
proof cases
  case (app_append reading e)
  then show ?thesis
    using assms(1,2) append_length [of reading e "sk_buffer s"]
    by (auto simp: sink_inv_def emit_append_def held_def entered_def buffer_len_def sound_action_def append_json)
next
  case (work i pc s1)
  let ?ts = "sk_threads s"
  note frame = worker_step_frame [OF work(4)]
  have at: "list_all json_event (in_flight (?ts ! i))" "list_all json_event (buffer (sk_buffer s))"
    using assms(1) work(3) by (auto simp: sink_inv_def list_all_length)
  note acc = worker_step_accounts [OF work(4) assms(2) at]
  have "list_all (\<lambda>pc. list_all json_event (in_flight pc) \<and> (\<forall>err. pc \<noteq> Died err)) (?ts[i := pc])"
    using assms(1) acc set_update_subset_insert [of ?ts i pc] by (fastforce simp: sink_inv_def list_all_iff)
  moreover have "settled (sd_metrics (sk_sender t)) + int (held t) =
      settled (sd_metrics (sk_sender s)) + int (held s)"
    using acc held_update [OF work(3), of pc] by (simp add: work(2) held_def)
  ultimately show ?thesis
    using assms(1) acc frame by (simp add: sink_inv_def work(2) entered_def)
qed (use assms(1) in \<open>auto simp: sink_inv_def sink_op_defs held_def entered_def settled_def\<close>)

interpretation sink_accounts: kept_by "sink_step agent cfg" "sound_action agent cfg" sink_inv for agent cfg
  by unfold_locales (rule sink_inv_step)

lemma sink_inv_init: "sink_inv (agent_sink_init bytes policy clk s0)"
  by (simp add: sink_inv_def agent_sink_init_def worker_start_def worker_alive_def held_def entered_def
      memory_buffer_init_def sender_init_def sender_metrics_init_def settled_def buffer_len_def)

subsection \<open>The final drain\<close>

fun past_final :: "worker_pc \<Rightarrow> bool" where
  "past_final (Sending final batch) = final"
| "past_final (Signalling final) = final"
| "past_final Finished = True"
| "past_final _ = False"

fun not_append :: "action \<Rightarrow> bool" where
  "not_append (EmitAppend reading e) = False"
| "not_append _ = True"

definition drained_inv :: "nat \<Rightarrow> 's sink_state \<Rightarrow> bool" where
  "drained_inv i s \<longleftrightarrow> i < length (sk_threads s) \<and>
     (past_final (sk_threads s ! i) \<longrightarrow> buffer (sk_buffer s) = [])"

lemma drained_inv_step:
  assumes "drained_inv i s" "not_append a" "sink_step agent cfg a s t"
  shows "drained_inv i t"
  using assms(3)
proof cases
  case (work j pc s1)
  have "past_final pc \<longrightarrow> buffer (sk_buffer s1) = [] \<or> past_final (sk_threads s ! j) \<and> sk_buffer s1 = sk_buffer s"
    using work(4) by cases (auto simp: buffer_drain_def signal_flush_waiters_def)
  moreover have "buffer (sk_buffer s) = [] \<longrightarrow> buffer (sk_buffer s1) = []"
    using work(4) by cases (auto simp: buffer_drain_def signal_flush_waiters_def)
  ultimately show ?thesis
    using assms(1) work(3) worker_step_frame [OF work(4)]
    by (cases "j = i") (auto simp: drained_inv_def work(2))
qed (use assms(1,2) in \<open>auto simp: drained_inv_def sink_op_defs nth_append\<close>)

interpretation final_drain: kept_by "sink_step agent cfg" not_append "drained_inv i" for agent cfg i
  by unfold_locales (rule drained_inv_step)

subsection \<open>Stopping\<close>

text \<open>The rank of a thread once \<open>_stop\<close> is set: how many steps it has left.\<close>

fun stop_rank :: "worker_pc \<Rightarrow> nat" where
  "stop_rank Waiting = 9"
| "stop_rank Clearing = 8"
| "stop_rank (Draining final) = (if final then 3 else 7)"
| "stop_rank (Sending final batch) = (if final then 2 else 6)"
| "stop_rank (Signalling final) = (if final then 1 else 5)"
| "stop_rank Top = 4"
| "stop_rank Finished = 0"
| "stop_rank (Died err) = 0"

definition thread_rank :: "(worker_pc \<Rightarrow> nat) \<Rightarrow> nat \<Rightarrow> 's sink_state \<Rightarrow> nat" where
  "thread_rank rank i s = rank (sk_threads s ! i)"

definition stopping :: "nat \<Rightarrow> 's sink_state \<Rightarrow> bool" where
  "stopping i s \<longleftrightarrow> sk_stop s \<and> i < length (sk_threads s)"

definition is_work :: "nat \<Rightarrow> action \<Rightarrow> bool" where
  "is_work i a \<longleftrightarrow> a = Work i"

text \<open>Every step but a thread's own leaves where the thread is.\<close>

lemma sink_step_other:
  assumes "sink_step agent cfg a s t" "a \<noteq> Work i" "i < length (sk_threads s)"
  shows "i < length (sk_threads t) \<and> sk_threads t ! i = sk_threads s ! i"
  using assms by cases (auto simp: sink_op_defs nth_append dest: worker_step_frame)

lemma sink_step_threads:
  assumes "sink_step agent cfg a s t" "i < length (sk_threads s)"
  shows "i < length (sk_threads t)"
  using assms sink_step_other [OF assms(1), of i] by (cases "a = Work i") (auto elim: sink_step_WorkE)

lemma stopping_step:
  "stopping i s \<Longrightarrow> a \<noteq> Start \<Longrightarrow> sink_step agent cfg a s t \<Longrightarrow> stopping i t"
proof -
  assume st: "stopping i s" "a \<noteq> Start" and step: "sink_step agent cfg a s t"
  have "sk_stop t"
    using step st by cases (auto simp: stopping_def sink_op_defs dest: worker_step_frame)
  then show "stopping i t" using st sink_step_threads [OF step] by (simp add: stopping_def)
qed

lemma stop_rank_falls:
  assumes "stopping i s" "sink_step agent cfg (Work i) s t"
  shows "thread_rank stop_rank i t < thread_rank stop_rank i s"
  using assms(2)
proof cases
  case (work pc s1)
  have "stop_rank pc < stop_rank (sk_threads s ! i)"
    using work(3) assms(1) by cases (auto simp: stopping_def)
  then show ?thesis using work by (simp add: thread_rank_def)
qed

interpretation stopping_thread:
  ranked_steps "sink_step agent cfg" "\<lambda>a. a \<noteq> Start" "stopping i" "is_work i" "thread_rank stop_rank i"
  for agent cfg i
proof (unfold_locales, goal_cases)
  case (1 s l t)
  then show ?case by (rule stopping_step)
next
  case (2 s l t)
  then show ?case by (simp add: is_work_def stop_rank_falls)
next
  case (3 s l t)
  then show ?case using sink_step_other [of agent cfg l s t i]
    by (simp add: is_work_def thread_rank_def stopping_def)
qed

lemma alive_thread_steps:
  assumes "i < length (sk_threads s)" "is_alive (sk_threads s ! i)"
  shows "\<exists>t. sink_step agent cfg (Work i) s t"
proof -
  have "\<exists>pc s1. worker_step agent cfg (sk_threads s ! i) s pc s1"
  proof (cases "sk_threads s ! i")
    case (Sending final batch)
    then show ?thesis
      by (cases "send_batch agent cfg batch (sk_sender s)"; cases "fst (send_batch agent cfg batch (sk_sender s))")
        (auto simp: worker_step_simps)
  qed (use assms(2) in \<open>auto simp: worker_step_simps buffer_drain_def\<close>)
  then show ?thesis using assms(1) by (blast intro: work)
qed

subsection \<open>Flushing\<close>

definition waiters_inv :: "'s sink_state \<Rightarrow> bool" where
  "waiters_inv s \<longleftrightarrow> (\<forall>w. w < sk_next s \<longleftrightarrow> w \<in> set (sk_waiters s) \<or> w \<in> set (sk_done s))"

lemma waiters_inv_step: "waiters_inv s \<Longrightarrow> sink_step agent cfg a s t \<Longrightarrow> waiters_inv t"
proof -
  assume inv: "waiters_inv s" and step: "sink_step agent cfg a s t"
  show "waiters_inv t"
    using step
  proof cases
    case (work i pc s1)
    show ?thesis using work(4)
      by cases (use inv work(2) in \<open>simp_all add: waiters_inv_def signal_flush_waiters_def disj_commute\<close>)
  next
    case app_register
    then show ?thesis using inv by (simp add: waiters_inv_def flush_register_def less_Suc_eq) blast
  qed (use inv in \<open>simp_all add: waiters_inv_def sink_op_defs\<close>)
qed

text \<open>A thread that has not signalled since waiter \<open>w\<close> registered: the steps left until it does.\<close>

fun flush_rank :: "worker_pc \<Rightarrow> nat" where
  "flush_rank Top = 6"
| "flush_rank Waiting = 5"
| "flush_rank Clearing = 4"
| "flush_rank (Draining final) = 3"
| "flush_rank (Sending final batch) = 2"
| "flush_rank _ = 1"

definition waiting_step ::
  "'s agent \<Rightarrow> sender_config \<Rightarrow> nat \<Rightarrow> action \<Rightarrow> 's sink_state \<Rightarrow> 's sink_state \<Rightarrow> bool" where
  "waiting_step agent cfg w a s t \<longleftrightarrow> sink_step agent cfg a s t \<and> w \<in> set (sk_waiters t)"

definition has_thread :: "nat \<Rightarrow> 's sink_state \<Rightarrow> bool" where
  "has_thread i s \<longleftrightarrow> i < length (sk_threads s)"

lemma flush_rank_falls:
  assumes "waiting_step agent cfg w (Work i) s t"
  shows "thread_rank flush_rank i t < thread_rank flush_rank i s"
proof -
  have step: "sink_step agent cfg (Work i) s t" and w: "w \<in> set (sk_waiters t)"
    using assms by (simp_all add: waiting_step_def)
  from step show ?thesis
  proof cases
    case (work pc s1)
    have "flush_rank pc < flush_rank (sk_threads s ! i)"
      using work(3) by cases (use w work(1) in \<open>auto simp: signal_flush_waiters_def\<close>)
    then show ?thesis using work by (simp add: thread_rank_def)
  qed
qed

interpretation flushing_thread:
  ranked_steps "waiting_step agent cfg w" "\<lambda>a. True" "has_thread i" "is_work i" "thread_rank flush_rank i"
  for agent cfg w i
proof (unfold_locales, goal_cases)
  case (1 s l t)
  then show ?case using sink_step_threads by (auto simp: has_thread_def waiting_step_def)
next
  case (2 s l t)
  then show ?case by (simp add: is_work_def flush_rank_falls)
next
  case (3 s l t)
  then show ?case using sink_step_other [of agent cfg l s t i]
    by (simp add: is_work_def thread_rank_def has_thread_def waiting_step_def)
qed

lemma waiters_only_leave:
  assumes "sink_step agent cfg a s t" "w \<in> set (sk_waiters t)" "w < sk_next s"
  shows "w \<in> set (sk_waiters s) \<and> sk_next s \<le> sk_next t"
  using assms(1)
proof cases
  case (work i pc s1)
  show ?thesis using work(4) by cases (use assms(2) work(2) in \<open>auto simp: signal_flush_waiters_def\<close>)
qed (use assms(2,3) in \<open>auto simp: sink_op_defs split: if_splits\<close>)

lemma still_waiting_run:
  "run (sink_step agent cfg) s ls t \<Longrightarrow> w < sk_next s \<Longrightarrow> w \<in> set (sk_waiters t) \<Longrightarrow>
    run (waiting_step agent cfg w) s ls t \<and> w \<in> set (sk_waiters s)"
proof (induction rule: run.induct)
  case (run_Cons l s t ls u)
  have "sk_next s \<le> sk_next t"
    using run_Cons.hyps(1) by cases (auto simp: sink_op_defs dest: worker_step_frame)
  then have "run (waiting_step agent cfg w) t ls u" "w \<in> set (sk_waiters t)"
    using run_Cons by simp_all
  moreover have "waiting_step agent cfg w l s t"
    using run_Cons.hyps(1) \<open>w \<in> set (sk_waiters t)\<close> by (simp add: waiting_step_def)
  ultimately show ?case
    using waiters_only_leave [OF run_Cons.hyps(1)] run_Cons.prems(1) by (blast intro: run.run_Cons)
qed (auto intro: run.run_Nil)

lemma policy_step: "sink_step agent cfg a s t \<Longrightarrow> buf_policy (sk_buffer t) = buf_policy (sk_buffer s)"
  by (induction rule: sink_step.induct) (auto simp: sink_op_defs dest: worker_step_frame)

interpretation sink_policy:
  kept_by "sink_step agent cfg" "\<lambda>a. True" "\<lambda>s. buf_policy (sk_buffer s) = policy" for agent cfg policy
  by unfold_locales (simp add: policy_step)

interpretation sink_waiters: kept_by "sink_step agent cfg" "\<lambda>a. True" waiters_inv for agent cfg
  by unfold_locales (rule waiters_inv_step)

lemma init_simps:
  "buf_policy (sk_buffer (agent_sink_init bytes policy clk s0)) = policy"
  "waiters_inv (agent_sink_init bytes policy clk s0)"
  "sk_threads (agent_sink_init bytes policy clk s0) = [Top]"
  "buffer (sk_buffer (agent_sink_init bytes policy clk s0)) = []"
  by (simp_all add: agent_sink_init_def worker_start_def worker_alive_def memory_buffer_init_def waiters_inv_def)

lemma list_all_True: "list_all (\<lambda>a. True) xs"
  by (simp add: list_all_iff)

subsection \<open>Properties\<close>

text \<open>
  C9: the counters account for every event. With an agent whose counts add up and sound settings,
  after any interleaving of emitting, flushing, stopping, starting and the sender threads, the
  events counted as sent or dropped, those a sender thread has in its hands and those still
  buffered are at most those that entered, and exactly those if the buffer never drops; so what
  the difference counts is what the buffer dropped, which appears in no counter. No sender thread
  has died.
\<close>

theorem counters_account:
  assumes "run (sink_step agent cfg) (agent_sink_init bytes policy clk s0) ls s"
    and "list_all (sound_action agent cfg) ls"
  shows "settled (sd_metrics (sk_sender s)) + int (held s)
      \<le> m_buffered (sd_metrics (sk_sender s)) + int (sk_at_count s) \<and>
    (policy = DROP_NONE \<longrightarrow> settled (sd_metrics (sk_sender s)) + int (held s)
      = m_buffered (sd_metrics (sk_sender s)) + int (sk_at_count s)) \<and>
    list_all (\<lambda>pc. \<forall>err. pc \<noteq> Died err) (sk_threads s)"
proof -
  have "sink_inv s" by (rule sink_accounts.inv_run [OF assms sink_inv_init])
  moreover have "buf_policy (sk_buffer s) = policy"
    by (rule sink_policy.inv_run [OF assms(1) list_all_True]) (rule init_simps)
  ultimately show ?thesis by (auto simp: sink_inv_def entered_def list_all_iff)
qed

abbreviation some_sink :: "8 word list list sink_state" where
  "some_sink \<equiv> agent_sink_init 1000 DROP_NONE (\<lambda>n. int n) []"

abbreviation "some_event \<equiv> fixture_event_init ''1'' ''f'' ''r'' ''now''"

definition some_cfg :: sender_config where
  "some_cfg = \<lparr>cfg_url = endpoint ''http://localhost:9700'', cfg_service = ''web'', cfg_batch = 2, cfg_retries = 1\<rparr>"

lemma sound_some: "json_action a \<Longrightarrow> sound_action accepting_agent some_cfg a"
  by (simp add: sound_action_def some_cfg_def accepting_counts accepting_agent_accepts)

theorem counters_account_witness:
  "m_buffered (sd_metrics (sk_sender
     (emit_count (emit_append (56, 0) some_event some_sink)))) = 1 \<and>
   held (emit_count (emit_append (56, 0) some_event some_sink)) = 1"
proof -
  let ?init0 = "some_sink"
  let ?s = "emit_count (emit_append (56, 0) some_event ?init0)"
  have r: "run (sink_step accepting_agent some_cfg) ?init0 [EmitAppend (56, 0) some_event, EmitCount] ?s"
    by (rule sink_run(2) [OF app_append sink_run(2) [OF app_count sink_run(1)]]) (simp add: emit_append_def)
  have m: "m_buffered (sd_metrics (sk_sender ?s)) = 1" "settled (sd_metrics (sk_sender ?s)) = 0"
    "sk_at_count ?s = 0"
    by (simp_all add: sink_op_defs agent_sink_init_def worker_alive_def sender_init_def sender_metrics_init_def settled_def)
  have ok: "list_all (sound_action accepting_agent some_cfg) [EmitAppend (56, 0) some_event, EmitCount]"
    by (simp add: sound_some json_event_init)
  from m have "held ?s = 1"
    using counters_account [OF r ok] by simp
  with m(1) show ?thesis by blast
qed


text \<open>The steps of an only thread, and its final steps from the test of \<open>_stop\<close> on.\<close>

lemma work0:
  assumes "worker_step agent cfg pc s pc' s1" "sk_threads s = [pc]"
  shows "sink_step agent cfg (Work 0) s (s1\<lparr>sk_threads := [pc']\<rparr>)"
  using work [of 0 s agent cfg pc' s1] assms by simp

lemma final_steps:
  assumes "list_all json_event (buffer (sk_buffer s))" "sk_threads s = [Top]" "sk_stop s"
    and "sound_action agent cfg Start"
  shows "\<exists>t. run (sink_step agent cfg) s (replicate 4 (Work 0)) t \<and> sk_threads t = [Finished] \<and>
    m_buffered (sd_metrics (sk_sender t)) = m_buffered (sd_metrics (sk_sender s)) \<and>
    sk_at_count t = sk_at_count s"
proof -
  let ?batch = "buffer (sk_buffer s)"
  obtain sd where sd: "send_batch agent cfg ?batch (sk_sender s) = (Inr (), sd)"
    "m_buffered (sd_metrics sd) = m_buffered (sd_metrics (sk_sender s))"
    using send_batch_counts [OF _ assms(1), of agent cfg "sk_sender s"] assms(4)
    by (cases "send_batch agent cfg ?batch (sk_sender s)") (auto simp: counted_def sound_action_def)
  define s1 where "s1 = s\<lparr>sk_threads := [Draining True]\<rparr>"
  define s2 where "s2 = s1\<lparr>sk_buffer := snd (buffer_drain (sk_buffer s)), sk_threads := [Sending True ?batch]\<rparr>"
  define s3 where "s3 = s2\<lparr>sk_sender := sd, sk_threads := [Signalling True]\<rparr>"
  define s4 where "s4 = (signal_flush_waiters s3)\<lparr>sk_threads := [Finished]\<rparr>"
  have "sink_step agent cfg (Work 0) s s1"
    using work0 [OF loop_test assms(2)] assms(3) by (simp add: s1_def)
  moreover have "sink_step agent cfg (Work 0) s1 s2"
    unfolding s2_def by (rule work0 [OF drain]) (simp_all add: s1_def buffer_drain_def)
  moreover have "sink_step agent cfg (Work 0) s2 s3"
    unfolding s3_def by (rule work0 [OF send]) (simp_all add: s1_def s2_def sd)
  moreover have "sink_step agent cfg (Work 0) s3 s4"
    unfolding s4_def using work0 [OF signal, of s3 True] by (simp add: s3_def)
  ultimately have "run (sink_step agent cfg) s (replicate 4 (Work 0)) s4"
    by (auto simp: numeral_eq_Suc run_Cons_iff)
  moreover have "sk_threads s4 = [Finished]" "sk_sender s4 = sd" "sk_at_count s4 = sk_at_count s"
    by (simp_all add: s4_def s3_def s2_def s1_def signal_flush_waiters_def)
  ultimately show ?thesis using sd(2) by auto
qed


text \<open>
  C27: stopping ends the sender thread. Once \<open>_stop\<close> is set, and unless \<open>start\<close> is called again, a
  sender thread takes at most nine more steps in any interleaving, and while it is alive it can
  take its next one, whatever the other threads do.
\<close>

theorem stop_terminates:
  assumes "run (sink_step agent cfg) s ls t" "sk_stop s" "i < length (sk_threads s)"
    and "list_all (\<lambda>a. a \<noteq> Start) ls"
  shows "length (filter (is_work i) ls) \<le> 9 \<and>
    (is_alive (sk_threads t ! i) \<longrightarrow> (\<exists>u. sink_step agent cfg (Work i) t u))"
proof -
  have st: "stopping i s" using assms(2,3) by (simp add: stopping_def)
  have "stopping i t" by (rule stopping_thread.inv_run [OF assms(1,4) st])
  moreover have "thread_rank stop_rank i s \<le> 9"
    by (cases "sk_threads s ! i") (simp_all add: thread_rank_def)
  ultimately show ?thesis
    using stopping_thread.run_bounded [OF assms(1,4) st] alive_thread_steps
    by (auto simp: stopping_def)
qed

theorem stop_terminates_witness:
  "\<exists>u. sink_step accepting_agent some_cfg (Work 0)
     (stop_wake (stop_set some_sink)) u"
proof -
  let ?s = "stop_set some_sink"
  have r: "run (sink_step accepting_agent some_cfg) ?s [StopWake] (stop_wake ?s)"
    by (rule sink_run(2) [OF app_stop_wake sink_run(1)]) (simp add: stop_set_def)
  have s: "sk_stop ?s" "0 < length (sk_threads ?s)" "sk_threads (stop_wake ?s) = [Top]"
    by (simp_all add: sink_op_defs agent_sink_init_def worker_alive_def)
  have "list_all (\<lambda>a. a \<noteq> Start) [StopWake]" by simp
  from stop_terminates [OF r s(1,2) this] s(3) show ?thesis by simp
qed


text \<open>A loop around with an empty buffer, one step at a time.\<close>

lemma idle_steps:
  assumes "sk_threads s = [Top]" "\<not> sk_stop s" "buffer (sk_buffer s) = []"
  obtains t where "run (sink_step agent cfg) s (replicate 4 (Work 0)) t"
    "t = s\<lparr>sk_wake := False, sk_threads := [Sending False []]\<rparr>"
proof -
  define s1 where "s1 = s\<lparr>sk_threads := [Waiting]\<rparr>"
  define s2 where "s2 = s1\<lparr>sk_threads := [Clearing]\<rparr>"
  define s3 where "s3 = s2\<lparr>sk_wake := False, sk_threads := [Draining False]\<rparr>"
  define s4 where "s4 = s3\<lparr>sk_threads := [Sending False []]\<rparr>"
  have "sink_step agent cfg (Work 0) s s1"
    using work0 [OF loop_test assms(1)] assms(2) by (simp add: s1_def)
  moreover have "sink_step agent cfg (Work 0) s1 s2"
    unfolding s2_def by (rule work0 [OF wait_returns]) (simp add: s1_def)
  moreover have "sink_step agent cfg (Work 0) s2 s3"
    using work0 [OF clear, of s2] by (simp add: s2_def s3_def)
  moreover have "sink_step agent cfg (Work 0) s3 s4"
  proof -
    have "buffer_drain (sk_buffer s3) = ([], sk_buffer s3)"
      using assms(3) by (simp add: buffer_drain_def s3_def s2_def s1_def)
    from work0 [OF drain [OF this], of False agent cfg] show ?thesis by (simp add: s3_def s4_def)
  qed
  ultimately have "run (sink_step agent cfg) s (replicate 4 (Work 0)) s4"
    by (auto simp: numeral_eq_Suc run_Cons_iff)
  moreover have "s4 = s\<lparr>sk_wake := False, sk_threads := [Sending False []]\<rparr>"
    by (simp add: s4_def s3_def s2_def s1_def)
  ultimately show thesis by (rule that)
qed

text \<open>
  A flush may return with the event still buffered. There is a run of the sink from its
  construction in which an event is emitted, then \<open>flush_sync\<close> is called and returns true, while
  the event is still in the buffer and no request was made: a sender thread that had already
  drained signals the waiter that registered after.
\<close>

theorem flush_returns_early:
  "\<exists>ls t. run (sink_step agent cfg) (agent_sink_init bytes policy clk s0)
      (ls @ [EmitAppend (56, 0) e, EmitCount, EmitCheck, FlushRegister, FlushWake, Work 0, Work 0]) t \<and>
    flush_returns_true 0 t \<and> buffer (sk_buffer t) = [e] \<and> sd_agent (sk_sender t) = s0"
proof -
  let ?init = "agent_sink_init bytes policy clk s0"
  have init: "\<not> sk_stop ?init" "sk_next ?init = 0" "sk_waiters ?init = []" "sd_agent (sk_sender ?init) = s0"
    by (simp_all add: agent_sink_init_def worker_start_def worker_alive_def sender_init_def)
  obtain s where s: "run (sink_step agent cfg) ?init (replicate 4 (Work 0)) s"
    "s = ?init\<lparr>sk_wake := False, sk_threads := [Sending False []]\<rparr>"
    using idle_steps [OF init_simps(3) init(1) init_simps(4)] by metis
  define s1 where "s1 = emit_append (56, 0) e s"
  define s2 where "s2 = flush_wake (flush_register (emit_check cfg (emit_count s1)))"
  have threads: "sk_threads s2 = [Sending False []]" by (simp add: s2_def s1_def s(2) sink_op_defs)
  have s2: "sk_waiters s2 = [0]" "buffer (sk_buffer s2) = [e]" "sd_agent (sk_sender s2) = s0"
    using init init_simps(4) [of bytes policy clk s0]
    by (simp_all add: s2_def s1_def s(2) sink_op_defs buffer_append_def)
  have r1: "run (sink_step agent cfg) s [EmitAppend (56, 0) e, EmitCount, EmitCheck, FlushRegister, FlushWake] s2"
    unfolding s2_def s1_def
    by (rule sink_run(2) [OF app_append sink_run(2) [OF app_count sink_run(2) [OF app_check
          sink_run(2) [OF app_register sink_run(2) [OF app_wake sink_run(1)]]]]])
      (simp_all add: sink_op_defs)
  define s3 where "s3 = s2\<lparr>sk_threads := [Signalling False]\<rparr>"
  define s4 where "s4 = (signal_flush_waiters s3)\<lparr>sk_threads := [Top]\<rparr>"
  have "sink_step agent cfg (Work 0) s2 s3"
    using work0 [OF send threads, of agent cfg "()" "sk_sender s2"] by (simp add: s3_def send_batch_def)
  moreover have "sink_step agent cfg (Work 0) s3 s4"
    using work0 [OF signal, of s3 False agent cfg] by (simp add: s3_def s4_def)
  ultimately have "run (sink_step agent cfg) s2 [Work 0, Work 0] s4" by (simp add: run_Cons_iff) blast
  from run_append [OF s(1) run_append [OF r1 this]]
  have "run (sink_step agent cfg) ?init (replicate 4 (Work 0) @
      [EmitAppend (56, 0) e, EmitCount, EmitCheck, FlushRegister, FlushWake, Work 0, Work 0]) s4"
    by (simp only: append.simps)
  moreover have "flush_returns_true 0 s4" "buffer (sk_buffer s4) = [e]" "sd_agent (sk_sender s4) = s0"
    using s2 by (simp_all add: s4_def s3_def signal_flush_waiters_def flush_returns_true_def)
  ultimately show ?thesis by blast
qed


end
