(* ===== verification/Delivery.thy ===== *)
theory Delivery
  imports Worker
begin

text \<open>
  What the record agent gets from an agent sink (sim_sdk/sink/agent_sink.py,
  sim_sdk/sink/sender_worker.py): the abstract specification of the transport, and that the threads of
  the sink implement it.

  The specification is a channel: what has been delivered, and what is on its way. Emitting puts
  an event at the end of the latter; a sender thread delivers from its front. With a buffer that
  never drops, an agent that accepts everything and one sender thread, every interleaving of the
  sink's threads is a run of the channel.
\<close>

subsection \<open>What the bodies of requests contain\<close>

fun body_payloads :: "8 word list \<Rightarrow> pyval list" where
  "body_payloads payload =
     (case map_option py_of_json (parse_json (utf8_decode payload)) of
        Some (VDict [(k, VList events)]) \<Rightarrow> map (get_field ''Payload'') events
      | _ \<Rightarrow> [])"

definition received :: "8 word list list \<Rightarrow> pyval list" where
  "received bodies = concat (map body_payloads bodies)"

lemma received_append [simp]: "received (xs @ ys) = received xs @ received ys"
  by (simp add: received_def)

lemma body_payloads_events:
  "body_events payload events \<Longrightarrow> body_payloads payload = map (get_field ''Payload'') events"
  by (auto simp: body_events_def utf8_decode_encode)

lemma received_groups:
  "list_all2 body_events bodies groups \<Longrightarrow> received bodies = map (get_field ''Payload'') (concat groups)"
  unfolding received_def
  by (induction rule: list_all2_induct) (simp_all add: body_payloads_events del: body_payloads.simps)

lemma delivered_received:
  "delivered n es st st' \<Longrightarrow> received (sd_agent st') = received (sd_agent st) @ map to_dict es"
  by (auto simp: delivered_def received_groups)

subsection \<open>The channel\<close>

type_synonym channel = "pyval list \<times> pyval list"

inductive channel_step :: "action \<Rightarrow> channel \<Rightarrow> channel \<Rightarrow> bool" where
  put: "channel_step (EmitAppend reading e) (done, pending) (done, pending @ [to_dict e])"
| deliver: "channel_step (Work i) (done, xs @ pending) (done @ xs, pending)"
| skip: "not_append a \<Longrightarrow> channel_step a c c"

fun emitted :: "action list \<Rightarrow> fixture_event list" where
  "emitted [] = []"
| "emitted (EmitAppend reading e # ls) = e # emitted ls"
| "emitted (a # ls) = emitted ls"

lemma emitted_append [simp]: "emitted (xs @ ys) = emitted xs @ emitted ys"
  by (induction xs rule: emitted.induct) simp_all

lemma emitted_none: "list_all not_append ls \<Longrightarrow> emitted ls = []"
  by (induction ls rule: emitted.induct) simp_all

lemma emitted_Cons: "not_append a \<Longrightarrow> emitted (a # ls) = emitted ls"
  by (cases a) simp_all

lemma json_actions: "list_all json_event (emitted ls) \<longleftrightarrow> list_all json_action ls"
  by (induction ls rule: emitted.induct) simp_all

text \<open>Nothing is lost or reordered on a run of the channel.\<close>

lemma channel_flow:
  "run channel_step c ls c' \<Longrightarrow> fst c' @ snd c' = fst c @ snd c @ map to_dict (emitted ls) \<and> prefix (fst c) (fst c')"
proof (induction rule: run.induct)
  case (run_Cons l c d ls c')
  have "fst d @ snd d = fst c @ snd c @ map to_dict (emitted [l]) \<and> prefix (fst c) (fst d)"
    using run_Cons.hyps(1) by cases (auto simp: emitted_Cons)
  moreover have "emitted (l # ls) = emitted [l] @ emitted ls" by (cases l) simp_all
  ultimately show ?case using run_Cons.IH by (auto intro: prefix_order.trans)
qed simp

subsection \<open>The sink implements the channel\<close>

definition channel_of :: "8 word list list sink_state \<Rightarrow> channel" where
  "channel_of s = (received (sd_agent (sk_sender s)),
     map to_dict (concat (map in_flight (sk_threads s)) @ buffer (sk_buffer s)))"

definition one_sender :: "8 word list list sink_state \<Rightarrow> bool" where
  "one_sender s \<longleftrightarrow> buf_policy (sk_buffer s) = DROP_NONE \<and> list_all json_event (buffer (sk_buffer s)) \<and>
     (\<exists>pc. sk_threads s = [pc] \<and> list_all json_event (in_flight pc))"

definition smooth :: "8 word list list agent \<Rightarrow> sender_config \<Rightarrow> bool" where
  "smooth agent cfg \<longleftrightarrow> accepting agent \<and> 0 \<le> cfg_retries cfg \<and> 1 \<le> cfg_batch cfg"

definition smooth_action :: "8 word list list agent \<Rightarrow> sender_config \<Rightarrow> action \<Rightarrow> bool" where
  "smooth_action agent cfg a \<longleftrightarrow> smooth agent cfg \<and> json_action a \<and> a \<noteq> Start"

lemma send_batch_received:
  assumes "smooth agent cfg" "list_all json_event batch" "send_batch agent cfg batch st = (res, st')"
  shows "res = Inr () \<and> received (sd_agent st') = received (sd_agent st) @ map to_dict batch"
proof -
  let ?b = "\<lparr>buffer = batch, max_buffer_bytes = 0, buf_policy = DROP_NONE\<rparr>"
  have "drain_and_send agent cfg ?b st = (res, snd (buffer_drain ?b), st')"
    using assms(3) by (simp add: drain_and_send_def buffer_drain_def)
  from drain_and_send_accepting [OF _ _ _ _ this] assms(1,2) show ?thesis
    by (auto simp: smooth_def dest: delivered_received)
qed

lemma work_one:
  assumes "one_sender s" "smooth_action agent cfg (Work i)" "sink_step agent cfg (Work i) s t"
  shows "one_sender t \<and> channel_step (Work i) (channel_of s) (channel_of t)"
  using assms(3)
proof cases
  case (work pc s1)
  obtain pc0 where pc0: "sk_threads s = [pc0]" "list_all json_event (in_flight pc0)"
    using assms(1) by (auto simp: one_sender_def)
  have t: "t = s1\<lparr>sk_threads := [pc]\<rparr>" "worker_step agent cfg pc0 s pc s1" using work pc0(1) by auto
  have ch: "channel_of t = (received (sd_agent (sk_sender s1)), map to_dict (in_flight pc @ buffer (sk_buffer s1)))"
    "channel_of s = (received (sd_agent (sk_sender s)), map to_dict (in_flight pc0 @ buffer (sk_buffer s)))"
    by (simp_all add: channel_of_def t(1) pc0(1))
  from t(2) show ?thesis
  proof cases
    case (send batch u sd final)
    have r: "received (sd_agent sd) = received (sd_agent (sk_sender s)) @ map to_dict batch"
      using send_batch_received [OF _ _ send(4)] assms(2) pc0(2) send(1) by (auto simp: smooth_action_def)
    have "channel_step (Work i) (channel_of s) (channel_of t)"
      unfolding ch using send r deliver [of i "received (sd_agent (sk_sender s))" "map to_dict batch"] by simp
    then show ?thesis using assms(1) send by (simp add: one_sender_def t(1))
  next
    case (send_raises batch err sd final)
    then show ?thesis using send_batch_received [OF _ _ send_raises(4)] assms(2) pc0(2)
      by (auto simp: smooth_action_def)
  qed (use assms(1) pc0 in \<open>auto simp: channel_of_def t(1) one_sender_def buffer_drain_def
      signal_flush_waiters_def intro: skip\<close>)
qed

lemma one_sender_step:
  assumes "one_sender s" "smooth_action agent cfg a" "sink_step agent cfg a s t"
  shows "one_sender t \<and> channel_step a (channel_of s) (channel_of t)"
proof (cases "\<exists>i. a = Work i")
  case True
  then show ?thesis using work_one assms by blast
next
  case False
  show ?thesis
    using assms(3)
  proof cases
    case (app_append reading e)
    obtain n k where "reading = (n, k)" by fastforce
    then have b: "buffer (sk_buffer t) = buffer (sk_buffer s) @ [e]"
      using assms(1) by (simp add: app_append(2) emit_append_def one_sender_def buffer_append_def drop_one_def Let_def)
    have "channel_of t = (fst (channel_of s), snd (channel_of s) @ [to_dict e])"
      by (simp add: channel_of_def b) (simp add: app_append(2) emit_append_def)
    then have "channel_step a (channel_of s) (channel_of t)"
      using put [of reading e "fst (channel_of s)" "snd (channel_of s)"] by (simp add: app_append(1))
    moreover have "one_sender t"
      using assms(1,2) b by (auto simp: one_sender_def app_append smooth_action_def emit_append_def)
    ultimately show ?thesis by simp
  qed (use assms False in
      \<open>auto simp: sink_op_defs one_sender_def channel_of_def smooth_action_def intro!: skip\<close>)
qed

interpretation delivery:
  simulated_by "sink_step agent cfg" "smooth_action agent cfg" one_sender channel_step channel_of
  for agent cfg
  by unfold_locales (simp_all add: one_sender_step)

lemma one_sender_init: "one_sender (agent_sink_init bytes DROP_NONE clk [])"
  by (simp add: one_sender_def init_simps)

lemma channel_of_init: "channel_of (agent_sink_init bytes policy clk []) = ([], [])"
  by (simp add: channel_of_def received_def init_simps)
    (simp add: agent_sink_init_def worker_start_def worker_alive_def sender_init_def)

text \<open>
  Closing: nothing is emitted any more, and the sender thread, not yet at its final drain, comes to
  its end.
\<close>

lemma closing_delivers_all:
  assumes "run (sink_step agent cfg) (agent_sink_init bytes DROP_NONE clk []) ls s"
    and "run (sink_step agent cfg) s ms t"
    and "list_all (smooth_action agent cfg) (ls @ ms)" "list_all not_append ms"
    and "sk_threads s = [pc]" "\<not> past_final pc" "sk_threads t = [Finished]"
  shows "received (sd_agent (sk_sender t)) = map to_dict (emitted ls)"
proof -
  have "run channel_step ([], []) (ls @ ms) (channel_of t)"
    using delivery.run_simulated [OF run_append [OF assms(1,2)] assms(3) one_sender_init]
    by (simp add: channel_of_init)
  from channel_flow [OF this]
  have "fst (channel_of t) @ snd (channel_of t) = map to_dict (emitted ls)"
    by (simp add: emitted_none [OF assms(4)])
  moreover have "drained_inv 0 s" using assms(5,6) by (simp add: drained_inv_def)
  then have "drained_inv 0 t" by (rule final_drain.inv_run [OF assms(2,4)])
  ultimately show ?thesis using assms(7) by (simp add: channel_of_def drained_inv_def)
qed

subsection \<open>Properties\<close>

text \<open>
  C11: the sink delivers in order. With a buffer that never drops, an agent that accepts everything
  and one sender thread, every interleaving of emitting, flushing, stopping and sending is a run of
  the channel: what the agent has received is a beginning of the events emitted, in the order in
  which they entered the buffer, and what the sender has in its hands and the buffer holds is
  exactly the rest.
\<close>

theorem agent_receives_in_order:
  assumes "run (sink_step agent cfg) (agent_sink_init bytes DROP_NONE clk []) ls s"
    and "list_all (smooth_action agent cfg) ls"
  shows "run channel_step ([], []) ls (channel_of s) \<and>
    map to_dict (emitted ls) = received (sd_agent (sk_sender s)) @
      map to_dict (concat (map in_flight (sk_threads s)) @ buffer (sk_buffer s))"
proof -
  have r: "run channel_step ([], []) ls (channel_of s)"
    using delivery.run_simulated [OF assms one_sender_init] by (simp add: channel_of_init)
  then show ?thesis using channel_flow [OF r] by (simp add: channel_of_def)
qed

lemma smooth_some: "json_action a \<Longrightarrow> a \<noteq> Start \<Longrightarrow> smooth_action accepting_agent some_cfg a"
  by (simp add: smooth_action_def smooth_def some_cfg_def accepting_agent_accepts)

theorem agent_receives_in_order_witness:
  "\<exists>s. run (sink_step accepting_agent some_cfg) some_sink
      ([EmitAppend (56, 0) some_event, EmitCount, StopSet] @ replicate 4 (Work 0)) s \<and>
    received (sd_agent (sk_sender s)) = [to_dict some_event]"
proof -
  let ?s = "stop_set (emit_count (emit_append (56, 0) some_event some_sink))"
  let ?ls = "[EmitAppend (56, 0) some_event, EmitCount, StopSet]"
  have r: "run (sink_step accepting_agent some_cfg) some_sink ?ls ?s"
    by (rule sink_run(2) [OF app_append sink_run(2) [OF app_count sink_run(2) [OF app_stop sink_run(1)]]])
      (simp add: emit_append_def)
  have s: "sk_threads ?s = [Top]" "sk_stop ?s" "list_all json_event (buffer (sk_buffer ?s))"
    by (simp_all add: sink_op_defs agent_sink_init_def worker_alive_def
        memory_buffer_init_def buffer_append_def json_event_init)
  obtain t where t: "run (sink_step accepting_agent some_cfg) ?s (replicate 4 (Work 0)) t" "sk_threads t = [Finished]"
    using final_steps [OF s(3,1,2) sound_some] by auto
  have "drained_inv 0 t"
    by (rule final_drain.inv_run [OF t(1)]) (simp_all add: drained_inv_def s(1) numeral_eq_Suc)
  then have "buffer (sk_buffer t) = []" by (simp add: drained_inv_def t(2))
  then have "received (sd_agent (sk_sender t)) = [to_dict some_event]"
    using agent_receives_in_order [OF run_append [OF r t(1)]] t(2)
    by (simp add: smooth_some json_event_init numeral_eq_Suc)
  with run_append [OF r t(1)] show ?thesis by blast
qed

end
