(* ===== verification/Pipeline.thy ===== *)
theory Pipeline
  imports Trace_Session Delivery
begin

text \<open>
  The whole way of a fixture: traced calls that record into an agent sink (sim_sdk/trace.py,
  sim_sdk/sink/agent_sink.py), the sender thread that posts the buffered events meanwhile
  (sim_sdk/sink/sender_worker.py), the bodies the agent gets, and a replay from what they contain.

  The sink is the second half of the application state. While a traced body runs, and between the
  three steps of \<open>emit\<close>, the other threads of the sink move it by any run of their steps. The
  receiving end is one that writes each payload to its fixture file, as the file-writing sink of
  the test suite does with an event.
\<close>

subsection \<open>The agent sink as the sink of a context\<close>

type_synonym 's app = "8 word list list sink_state"

text \<open>\<open>emit\<close>, with what other threads do between its steps.\<close>

type_synonym 's others = "('s sink_state \<Rightarrow> 's sink_state) \<times> ('s sink_state \<Rightarrow> 's sink_state)"

definition emit_among ::
  "sender_config \<Rightarrow> 's others \<Rightarrow> int \<times> nat \<Rightarrow> fixture_event \<Rightarrow> 's sink_state \<Rightarrow> 's sink_state" where
  "emit_among cfg others reading e k =
     emit_check cfg (snd others (emit_count (fst others (emit_append reading e k))))"

definition agent_sink_emit ::
  "sender_config \<Rightarrow> 's others \<Rightarrow> ('s sink_state \<Rightarrow> int \<times> nat) \<Rightarrow> nat \<Rightarrow> fixture_event \<Rightarrow>
    ('a \<times> 's sink_state, unit) prog" where
  "agent_sink_emit cfg others reading s e w =
     (Inr (), w\<lparr>app := (fst (app w), emit_among cfg others (reading (snd (app w))) e (snd (app w)))\<rparr>)"

lemma taking_agent_sink: "taking (agent_sink_emit cfg others reading)"
  by (simp add: taking_def agent_sink_emit_def keeps_contexts_def)

text \<open>Nobody else.\<close>

definition alone :: "'s others" where
  "alone = (id, id)"

lemma emit_among_alone: "emit_among cfg alone reading e k = agent_emit cfg reading e k"
  by (simp add: emit_among_def agent_emit_def alone_def)

subsection \<open>Other threads\<close>

fun background :: "action \<Rightarrow> bool" where
  "background (EmitAppend reading e) = False"
| "background EmitCount = False"
| "background EmitCheck = False"
| "background Start = False"
| "background a = True"

text \<open>A run that emits these events and starts no thread; one of other threads only.\<close>

definition emits ::
  "'s agent \<Rightarrow> sender_config \<Rightarrow> fixture_event list \<Rightarrow> 's sink_state \<Rightarrow> 's sink_state \<Rightarrow> bool" where
  "emits agent cfg es k k' \<longleftrightarrow>
     (\<exists>ls. run (sink_step agent cfg) k ls k' \<and> emitted ls = es \<and> list_all (\<lambda>a. a \<noteq> Start) ls)"

definition moved :: "'s agent \<Rightarrow> sender_config \<Rightarrow> 's sink_state \<Rightarrow> 's sink_state \<Rightarrow> bool" where
  "moved agent cfg k k' \<longleftrightarrow> (\<exists>ls. run (sink_step agent cfg) k ls k' \<and> list_all background ls)"

lemma moved_refl: "moved agent cfg k k"
  unfolding moved_def by (rule exI [of _ "[]"]) simp

lemma background_not_append: "background a \<Longrightarrow> not_append a \<and> a \<noteq> Start"
  by (cases a) simp_all

lemma moved_emits: "moved agent cfg k k' \<Longrightarrow> emits agent cfg [] k k'"
  unfolding moved_def emits_def
proof (elim exE conjE)
  fix ls assume "run (sink_step agent cfg) k ls k'" "list_all background ls"
  moreover from this(2) have "list_all not_append ls \<and> list_all (\<lambda>a. a \<noteq> Start) ls"
    using background_not_append by (auto simp: list_all_iff)
  ultimately show "\<exists>ls. run (sink_step agent cfg) k ls k' \<and> emitted ls = [] \<and> list_all (\<lambda>a. a \<noteq> Start) ls"
    using emitted_none by blast
qed

lemma emits_trans: "emits agent cfg es k k1 \<Longrightarrow> emits agent cfg fs k1 k2 \<Longrightarrow> emits agent cfg (es @ fs) k k2"
  unfolding emits_def
proof (elim exE conjE)
  fix ls ms
  assume "run (sink_step agent cfg) k ls k1" "emitted ls = es" "list_all (\<lambda>a. a \<noteq> Start) ls"
    "run (sink_step agent cfg) k1 ms k2" "emitted ms = fs" "list_all (\<lambda>a. a \<noteq> Start) ms"
  then show "\<exists>ls. run (sink_step agent cfg) k ls k2 \<and> emitted ls = es @ fs \<and> list_all (\<lambda>a. a \<noteq> Start) ls"
    by (intro exI [of _ "ls @ ms"]) (simp add: run_append)
qed

lemma emits_refl [simp]: "emits agent cfg [] k k"
  unfolding emits_def by (rule exI [of _ "[]"]) simp

lemma emits_step: "sink_step agent cfg a k k' \<Longrightarrow> a \<noteq> Start \<Longrightarrow> emits agent cfg (emitted [a]) k k'"
  unfolding emits_def by (rule exI [of _ "[a]"]) (simp add: run_Cons_iff)

lemma background_keeps_at:
  assumes "run (sink_step agent cfg) k ls k'" "list_all background ls"
  shows "sk_at_count k' = sk_at_count k \<and> sk_at_check k' = sk_at_check k"
  using assms
proof (induction rule: run.induct)
  case (run_Cons a s t ls u)
  have "sk_at_count t = sk_at_count s \<and> sk_at_check t = sk_at_check s"
    using run_Cons.hyps(1)
  proof cases
    case (work i pc s1)
    show ?thesis using work(4) by cases (simp_all add: work(2) signal_flush_waiters_def)
  qed (use run_Cons.prems in \<open>simp_all add: sink_op_defs\<close>)
  then show ?case using run_Cons by simp
qed simp

definition others_move :: "'s agent \<Rightarrow> sender_config \<Rightarrow> 's others \<Rightarrow> bool" where
  "others_move agent cfg others \<longleftrightarrow>
     (\<forall>k. moved agent cfg k (fst others k) \<and> moved agent cfg k (snd others k))"

lemma emit_among_emits:
  assumes "others_move agent cfg others"
  shows "emits agent cfg [e] k (emit_among cfg others reading e k)"
proof -
  let ?k1 = "emit_append reading e k"
  let ?k2 = "fst others ?k1"
  let ?k3 = "emit_count ?k2"
  let ?k4 = "snd others ?k3"
  have m: "moved agent cfg ?k1 ?k2" "moved agent cfg ?k3 ?k4" using assms by (simp_all add: others_move_def)
  have one: "emits agent cfg [e] k ?k1" using emits_step [OF app_append [where reading = reading and e = e and s = k]] by simp
  have "sk_at_count ?k2 = sk_at_count ?k1" using m(1) background_keeps_at unfolding moved_def by blast
  then have "emits agent cfg [] ?k2 ?k3"
    using emits_step [OF app_count, of ?k2 agent cfg] by (simp add: emit_append_def)
  moreover have "sk_at_check ?k4 = sk_at_check ?k3" using m(2) background_keeps_at unfolding moved_def by blast
  then have "emits agent cfg [] ?k4 (emit_check cfg ?k4)"
    using emits_step [OF app_check, of ?k4 agent cfg] by (simp add: emit_count_def)
  ultimately have last: "emits agent cfg [] ?k2 ?k3" "emits agent cfg [] ?k4 (emit_check cfg ?k4)" .
  have "emits agent cfg [e] k ?k3"
    using emits_trans [OF emits_trans [OF one moved_emits [OF m(1)]] last(1)] by simp
  from emits_trans [OF emits_trans [OF this moved_emits [OF m(2)]] last(2)]
  show ?thesis by (simp add: emit_among_def)
qed

text \<open>A traced body during which other threads may move the sink, but which leaves it alone itself.\<close>

definition moving :: "'s agent \<Rightarrow> sender_config \<Rightarrow> ('a \<times> 's sink_state) call \<Rightarrow> bool" where
  "moving agent cfg c \<longleftrightarrow> (\<forall>w. moved agent cfg (snd (app w)) (snd (app (snd (call_body c w)))))"

definition recording_to :: "nat \<Rightarrow> ('a \<times> 's sink_state) world \<Rightarrow> bool" where
  "recording_to r w \<longleftrightarrow> valid_ref w r \<and> current w = Some r \<and> mode (ctx_at w r) = RECORD \<and>
     sink (ctx_at w r) \<noteq> None"

abbreviation sink_of :: "('a \<times> 's sink_state) world \<Rightarrow> 's sink_state" where
  "sink_of w \<equiv> snd (app w)"

lemma agent_record_step:
  assumes w: "recording_to r w" and c: "quiet_call c" "moving agent cfg c" and o: "others_move agent cfg others"
    and run: "call_prog has_avro (agent_sink_emit cfg others reading) c w = (res, w')"
  obtains (unbound) e where "call_binding c = Inl e" "call_op has_avro c = None" "res = Inl e" "w' = w"
  | (bound) a q fp e where "call_binding c = Inr a" "call_op has_avro c = Some (q, fp)"
      "CHR ''/'' \<notin> set fp" "event_of e q a fp (ordinals_at w r fp) res" "recording_to r w'"
      "ordinals_at w' r = (ordinals_at w r)(fp := ordinals_at w r fp + 1)"
      "emits agent cfg [e] (sink_of w) (sink_of w')"
      "\<exists>u k. app u = app w \<and> res = fst (call_body c u) \<and> app (snd (call_body c u)) = (fst (app w'), k) \<and>
         sink_of w' = emit_among cfg others (reading k) e k"
proof -
  let ?emit = "agent_sink_emit cfg others reading"
  obtain name f args kwargs where c_eq: "c = (name, f, args, kwargs)" by (cases c)
  have sig: "distinct (map param_name (signature f))" and q: "quiet (body f args kwargs)"
    and move: "moved agent cfg (sink_of u) (sink_of (snd (body f args kwargs u)))" for u
    using c by (simp_all add: c_eq moving_def)
  have v: "valid_ref w r" "current w = Some r" "is_recording (ctx_at w r)"
    using w by (simp_all add: recording_to_def mode_simps)
  let ?q = "traced_name name f"
  show ?thesis
  proof (rule prepare_call_cases [OF sig, of args kwargs has_avro ?q r w], goal_cases unbound bound)
    case (unbound e)
    then have "res = Inl e" "w' = w" using run v by (simp_all add: c_eq sim_trace_recording)
    then show ?case using unbound by (intro that(1) [of e]) (simp_all add: c_eq)
  next
    case (bound a fp)
    let ?w1 = "snd (next_ordinal_at r fp w)" and ?n = "ordinals_at w r fp"
    have rec: "record_call has_avro ?emit ?q r a fp ?n (body f args kwargs) ?w1 = (res, w')"
      using run v bound by (simp add: c_eq sim_trace_recording ordinals_at_def)
    have w1: "valid_ref ?w1 r" "current ?w1 = Some r" using v by simp_all
    obtain s where s: "sink (ctx_at ?w1 r) = Some s" using w v(1) by (auto simp: recording_to_def)
    obtain e we w2 where e: "event_of e ?q a fp ?n res" "app w2 = app ?w1"
      "res = fst (body f args kwargs w2)"
      "app we = app (snd (body f args kwargs w2))"
      "app w' = app (snd (?emit s e we))" "same_session r ?w1 w'"
      using record_call_emits [OF w1 s q bound(2) taking_agent_sink rec] by blast
    have "emits agent cfg [] (sink_of w) (sink_of we)"
      using moved_emits [OF move [of w2]] e(2,4) v(1) by simp
    moreover have "emits agent cfg [e] (sink_of we) (sink_of w')"
      using emit_among_emits [OF o, of e "sink_of we" "reading (sink_of we)"] e(5)
      by (simp add: agent_sink_emit_def)
    ultimately have "emits agent cfg [e] (sink_of w) (sink_of w')"
      using emits_trans [of agent cfg "[]" _ _ "[e]"] by simp
    moreover have "recording_to r w'"
      using e(6) w v(1) by (simp add: recording_to_def same_session_def)
    moreover have "ordinals_at w' r = (ordinals_at w r)(fp := ?n + 1)"
      using e(6) v(1) by (simp add: same_session_def)
    moreover have "\<exists>u k. app u = app w \<and> res = fst (body f args kwargs u) \<and>
        app (snd (body f args kwargs u)) = (fst (app w'), k) \<and>
        sink_of w' = emit_among cfg others (reading k) e k"
      using e(2-5) v(1) by (intro exI [of _ w2] exI [of _ "sink_of we"]) (simp add: agent_sink_emit_def)
    moreover have "CHR ''/'' \<notin> set fp" using bound(5) by (auto simp: list_all_iff is_hex_def is_digit_def)
    ultimately show ?case
      using bound(1,3) e(1) by (intro that(2) [of a ?q fp e]) (simp_all add: c_eq)
  qed
qed

subsection \<open>The receiving end\<close>

text \<open>One payload to its fixture file; the payloads of the bodies, in order.\<close>

definition store_payload :: "path \<Rightarrow> pyval \<Rightarrow> (path \<Rightarrow> json option) \<Rightarrow> (path \<Rightarrow> json option)" where
  "store_payload dir p fs =
     (case (get_field ''qualname'' p, get_field ''input_fingerprint'' p, get_field ''ordinal'' p) of
        (VStr q, VStr fp, VInt n) \<Rightarrow> fs(path_join dir (fixture_key q fp n) \<mapsto> plain_json p)
      | _ \<Rightarrow> fs)"

definition receive :: "path \<Rightarrow> 8 word list list \<Rightarrow> (path \<Rightarrow> json option) \<Rightarrow> (path \<Rightarrow> json option)" where
  "receive dir bodies fs = fold (store_payload dir) (received bodies) fs"

lemma store_event:
  "store_payload dir (to_dict e) fs =
    fs(path_join dir (fixture_key (ev_qualname e) (ev_input_fingerprint e) (ev_ordinal e)) \<mapsto> plain_json (to_dict e))"
  by (simp add: store_payload_def get_field_def to_dict_def)

subsection \<open>Sessions\<close>

abbreviation event_doc :: "fixture_event \<Rightarrow> json" where
  "event_doc e \<equiv> plain_json (to_dict e)"

text \<open>The events of a session: stored in order, they are what the abstract store records.\<close>

definition session_events ::
  "bool \<Rightarrow> (string \<Rightarrow> int) \<Rightarrow> 'a call list \<Rightarrow> (py_exn + pyval) list \<Rightarrow> fixture_event list \<Rightarrow> bool" where
  "session_events has_avro ord cs results es \<longleftrightarrow>
     length es = length (call_ops has_avro cs) \<and>
     list_all (\<lambda>op. CHR ''/'' \<notin> set (snd op)) (call_ops has_avro cs) \<and>
     answers cs (map event_doc es) = map2 replayed cs results \<and>
     (\<forall>dir fs. fold (store_payload dir) (map to_dict es) fs =
        record_run snd (trace_path dir) (zip (call_ops has_avro cs) (map (\<lambda>e. Some (event_doc e)) es)) ord fs) \<and>
     list_all (\<lambda>e. (\<exists>q fp n a res. event_of e q a fp n res \<and>
        (\<exists>c \<in> set cs. call_binding c = Inr a) \<and> res \<in> set results)) es"

lemma session_events_unbound:
  assumes "call_binding c = Inl e" "call_op has_avro c = None" "session_events has_avro ord cs xs es"
  shows "session_events has_avro ord (c # cs) (Inl e # xs) es"
proof -
  have "list_all (\<lambda>e. (\<exists>q fp n a res. event_of e q a fp n res \<and>
        (\<exists>c \<in> set (c # cs). call_binding c = Inr a) \<and> res \<in> set (Inl e' # xs))) es" for e'
    using assms(3) unfolding session_events_def list_all_iff by fastforce
  then show ?thesis using assms unfolding session_events_def by (simp add: replayed_def)
qed

lemma session_events_bound:
  assumes "call_binding c = Inr a" "call_op has_avro c = Some (q, fp)" "CHR ''/'' \<notin> set fp"
    and e: "event_of e q a fp (ord fp) res"
    and es: "session_events has_avro (ord(fp := ord fp + 1)) cs xs es"
  shows "session_events has_avro ord (c # cs) (res # xs) (e # es)"
proof -
  have pl: "plain (to_dict e)" "ev_qualname e = q" "ev_input_fingerprint e = fp" "ev_ordinal e = ord fp"
    "stored_output (event_doc e) = make_serializable (fst (outcome res))"
    using e by (simp_all add: event_with_def stored_output_event)
  have "list_all (\<lambda>e. (\<exists>q fp n a res'. event_of e q a fp n res' \<and>
        (\<exists>c \<in> set (c # cs). call_binding c = Inr a) \<and> res' \<in> set (res # xs))) (e # es)"
    using es e assms(1) unfolding session_events_def list_all_iff by fastforce
  moreover have "fold (store_payload dir) (map to_dict (e # es)) fs =
      record_run snd (trace_path dir) (zip (call_ops has_avro (c # cs)) (map (\<lambda>e. Some (event_doc e)) (e # es))) ord fs"
    for dir fs
    using es assms(2) pl by (simp add: session_events_def store_event trace_path_def del: fun_upd_apply)
  moreover have "answers (c # cs) (map event_doc (e # es)) = map2 replayed (c # cs) (res # xs)"
    using es assms(1) pl(5) by (simp add: session_events_def replayed_def outcome_serialized)
  ultimately show ?thesis
    using es assms(2,3) unfolding session_events_def by simp
qed

lemma agent_record_session:
  assumes "recording_to r w" "list_all quiet_call cs" "list_all (moving agent cfg) cs" "others_move agent cfg others"
    and "run_all (map (call_prog has_avro (agent_sink_emit cfg others reading)) cs) w = (results, w')"
  shows "\<exists>es. emits agent cfg es (sink_of w) (sink_of w') \<and>
    session_events has_avro (ordinals_at w r) cs results es"
  using assms
proof (induction cs arbitrary: w results)
  case Nil
  then show ?case by (auto simp: session_events_def)
next
  case (Cons c cs)
  let ?emit = "agent_sink_emit cfg others reading"
  obtain x w1 where x: "call_prog has_avro ?emit c w = (x, w1)" by fastforce
  obtain xs w2 where xs: "run_all (map (call_prog has_avro ?emit) cs) w1 = (xs, w2)" by fastforce
  have res: "results = x # xs" "w' = w2" using Cons.prems(5) by (simp_all add: x xs)
  have c: "quiet_call c" "moving agent cfg c" "list_all quiet_call cs" "list_all (moving agent cfg) cs"
    using Cons.prems(2,3) by simp_all
  show ?case
  proof (rule agent_record_step [OF Cons.prems(1) c(1,2) Cons.prems(4) x], goal_cases unbound bound)
    case (unbound e)
    then show ?case
      using Cons.IH [of w xs] Cons.prems(1,4) c(3,4) xs session_events_unbound [OF unbound(1,2)]
      by (auto simp: res)
  next
    case (bound a q fp e)
    obtain es where es: "emits agent cfg es (sink_of w1) (sink_of w2)"
      "session_events has_avro (ordinals_at w1 r) cs xs es"
      using Cons.IH [OF bound(5) c(3,4) Cons.prems(4), of xs] xs by (auto simp: res)
    have "session_events has_avro (ordinals_at w r) (c # cs) results (e # es)"
      unfolding res by (rule session_events_bound [where ord = "ordinals_at w r", OF bound(1-4)]) (use es(2) bound(6) in simp)
    then show ?case using emits_trans [OF bound(7) es(1)] by (intro exI [of _ "e # es"]) (simp add: res)
  qed
qed

subsection \<open>Events are JSON data\<close>

lemma hundredths_float_text: "float_text (hundredths_repr h)"
proof -
  let ?a = "nat \<bar>h\<bar>"
  let ?n = "dec_nat (?a div 100)"
  let ?f = "if ?a mod 10 = 0 then [digit_char (?a div 10 mod 10)]
    else [digit_char (?a div 10 mod 10), digit_char (?a mod 10)]"
  have n: "list_all is_digit ?n" "?n \<noteq> []" "no_leading_zero ?n"
    by (auto simp: list_all_iff dec_nat_no_leading_zero dest: dec_nat_digits)
  have f: "list_all is_digit ?f" "?f \<noteq> []" by simp_all
  have sign: "hd (dec_nat m) \<noteq> CHR ''-''" for m
    using dec_nat_digits [of "hd (dec_nat m)" m] hd_in_set [of "dec_nat m"] by (auto simp: is_digit_def)
  have d: "drop_sign ''-'' (hundredths_repr h) = ?n @ CHR ''.'' # ?f"
  proof (cases "h < 0")
    case True
    then show ?thesis by (simp add: hundredths_repr_def drop_sign_def Let_def)
  next
    case False
    then show ?thesis using sign by (simp add: hundredths_repr_def drop_sign_def Let_def)
  qed
  have dot: "\<not> is_digit (CHR ''.'')" by (simp add: is_digit_def)
  have "takeWhile is_digit (?n @ CHR ''.'' # ?f) = ?n" "dropWhile is_digit (?n @ CHR ''.'' # ?f) = CHR ''.'' # ?f"
    using n(1) dot by (simp_all add: list_all_iff takeWhile_append2 dropWhile_append2)
  moreover have "takeWhile is_digit ?f = ?f" "dropWhile is_digit ?f = []"
    using f(1) by (simp_all add: list_all_iff takeWhile_eq_all_conv dropWhile_eq_Nil_conv del: if_split)
  ultimately have "json_number (hundredths_repr h)"
    using n(2,3) f(2) unfolding json_number_def Let_def d by (simp add: json_frac_def json_exp_def)
  moreover have "\<not> json_int (hundredths_repr h)"
    using dot by (simp add: json_int_def d is_digits_def Let_def)
  ultimately show ?thesis by (simp add: float_text_def)
qed

lemma event_of_json:
  assumes "event_of e q a fp n res" "floats_ok a" "floats_ok (make_serializable (fst (outcome res)))"
  shows "json_event e"
proof -
  have e: "plain (to_dict e)" "ev_input e = a" "ev_stubs e = []"
    "ev_output e = make_serializable (fst (outcome res))" "\<exists>h. ev_duration_ms e = hundredths_repr h"
    using assms(1) unfolding event_with_def by blast+
  then have "floats_ok (to_dict e)"
    using assms(2,3) by (auto simp: to_dict_def hundredths_float_text split: option.split)
  then show ?thesis using e(1) by (simp add: json_event_def)
qed

text \<open>Floats among the arguments and results have the texts \<open>repr\<close> gives.\<close>

definition session_floats :: "'a call list \<Rightarrow> (py_exn + pyval) list \<Rightarrow> bool" where
  "session_floats cs results \<longleftrightarrow>
     list_all (\<lambda>c. case call_binding c of Inl e \<Rightarrow> True | Inr a \<Rightarrow> floats_ok a) cs \<and>
     list_all (\<lambda>res. floats_ok (make_serializable (fst (outcome res)))) results"

lemma session_events_json:
  assumes "session_events has_avro ord cs results es" "session_floats cs results"
  shows "list_all json_event es"
  unfolding list_all_iff
proof
  fix e assume "e \<in> set es"
  then obtain q fp n a res c where "event_of e q a fp n res" "c \<in> set cs" "call_binding c = Inr a"
    "res \<in> set results"
    using assms(1) unfolding session_events_def list_all_iff by blast
  moreover from this have "floats_ok a" "floats_ok (make_serializable (fst (outcome res)))"
    using assms(2) by (auto simp: session_floats_def list_all_iff)
  ultimately show "json_event e" by (blast intro: event_of_json)
qed

subsection \<open>Properties\<close>


definition tick_with_sink :: "(int \<times> 's sink_state) traced" where
  "tick_with_sink = \<lparr>qualname = ''tick'', signature = [],
     body = (\<lambda>args kwargs w. (Inr (VInt (fst (app w))), w\<lparr>app := (fst (app w) + 1, snd (app w))\<rparr>))\<rparr>"

lemma tick_with_sink_call:
  "quiet_call (None, tick_with_sink, [], [])" "moving agent cfg (None, tick_with_sink, [], [])"
  "call_binding (None, tick_with_sink, [], []) = Inr (VDict [])"
  by (simp_all add: tick_with_sink_def quiet_def moving_def moved_refl bind_args_def)

lemma no_others: "others_move agent cfg alone"
  by (simp add: others_move_def moved_refl alone_def)

lemma tick_agent_session:
  assumes "recording_to r w"
    and "run_all (map (call_prog False (agent_sink_emit cfg alone reading)) (replicate n (None, tick_with_sink, [], []))) w
      = (results, w')"
  shows "results = map (\<lambda>i. Inr (VInt (fst (app w) + int i))) [0..<n] \<and>
    sk_threads (sink_of w') = sk_threads (sink_of w)"
  using assms
proof (induction n arbitrary: w results)
  case (Suc n)
  let ?c = "(None, tick_with_sink, [], [])" and ?emit = "agent_sink_emit cfg alone reading"
  obtain x w1 where x: "call_prog False ?emit ?c w = (x, w1)" by fastforce
  obtain xs w2 where xs: "run_all (map (call_prog False ?emit) (replicate n ?c)) w1 = (xs, w2)" by fastforce
  have res: "results = x # xs" "w' = w2" using Suc.prems(2) x xs by (simp_all del: call_prog.simps)
  show ?case
  proof (rule agent_record_step [OF Suc.prems(1) tick_with_sink_call(1)
        tick_with_sink_call(2) [of "\<lambda>url p s. (HttpUnreachable [], s)" cfg] no_others x], goal_cases unbound bound)
    case (unbound e)
    then show ?case by (simp only: tick_with_sink_call) simp
  next
    case (bound a q fp e)
    then have "x = Inr (VInt (fst (app w)))" "fst (app w1) = fst (app w) + 1"
      "sk_threads (sink_of w1) = sk_threads (sink_of w)"
      by (auto simp: tick_with_sink_def emit_among_alone agent_emit_def sink_op_defs)
    moreover have "[0..<Suc n] = 0 # map Suc [0..<n]"
      by (simp only: map_Suc_upt) (simp add: upt_conv_Cons del: upt_Suc)
    ultimately show ?case
      using Suc.IH [OF bound(5) xs [folded res(2)]] by (simp add: res comp_def algebra_simps del: upt_Suc)
  qed
qed simp


end
