(* ===== verification/Py_Ops.thy ===== *)
theory Py_Ops
  imports Trace Envelope
begin

text \<open>
  What the example application uses of Python on the values it is handed: iteration, subscripts,
  \<open>get\<close>, \<open>in\<close> and dictionary keys, with the exceptions they raise.

  \<open>*\<close>, \<open>+\<close> and \<open>round(x, 2)\<close> on numbers, and the key a float is in a dictionary (\<open>1.0\<close> is the key
  \<open>1\<close>), are the fields of \<open>arith\<close>: what is proved holds for every such arithmetic. An object of
  another class is taken to have no items.
\<close>

record arith =
  ar_mul :: "pyval \<Rightarrow> pyval \<Rightarrow> py_exn + pyval"
  ar_add :: "pyval \<Rightarrow> pyval \<Rightarrow> py_exn + pyval"
  ar_round :: "pyval \<Rightarrow> py_exn + pyval"
  ar_float_key :: "string \<Rightarrow> pykey"

fun type_name :: "pyval \<Rightarrow> string" where
  "type_name VNone = ''NoneType''"
| "type_name (VBool b) = ''bool''"
| "type_name (VInt i) = ''int''"
| "type_name (VFloat r) = ''float''"
| "type_name (VStr s) = ''str''"
| "type_name (VBytes bs) = ''bytes''"
| "type_name (VList xs) = ''list''"
| "type_name (VTuple xs) = ''tuple''"
| "type_name (VSet xs) = ''set''"
| "type_name (VDict kvs) = ''dict''"
| "type_name (VObj _ _ _ _ _ _ s r t) = t"

text \<open>A key of a dictionary as a value, and the key a value is: \<open>True\<close> is the key \<open>1\<close>.\<close>

fun key_value :: "pykey \<Rightarrow> pyval" where
  "key_value (KStr s) = VStr s"
| "key_value (KInt i) = VInt i"
| "key_value (KBool b) = VBool b"
| "key_value KNone = VNone"
| "key_value (KOther s r) = VObj None None None None None None s r []"

definition unhashable :: "pyval \<Rightarrow> py_exn" where
  "unhashable v = TypeErr (''unhashable type: '' @ str_repr (type_name v))"

fun hash_key :: "arith \<Rightarrow> pyval \<Rightarrow> py_exn + pykey" where
  "hash_key ar (VStr s) = Inr (KStr s)"
| "hash_key ar (VInt i) = Inr (KInt i)"
| "hash_key ar (VBool b) = Inr (KInt (if b then 1 else 0))"
| "hash_key ar VNone = Inr KNone"
| "hash_key ar (VFloat r) = Inr (ar_float_key ar r)"
| "hash_key ar (VBytes bs) = Inr (KOther (bytes_repr bs) (bytes_repr bs))"
| "hash_key ar (VTuple xs) =
     ebind (emap (hash_key ar) xs) (\<lambda>ks. Inr (KOther (py_repr (VTuple xs)) (py_repr (VTuple xs))))"
| "hash_key ar (VObj _ _ _ _ _ _ s r _) = Inr (KOther s r)"
| "hash_key ar v = Inl (unhashable v)"

text \<open>\<open>for x in v\<close>\<close>

fun py_iter :: "pyval \<Rightarrow> py_exn + pyval list" where
  "py_iter (VList xs) = Inr xs"
| "py_iter (VTuple xs) = Inr xs"
| "py_iter (VSet xs) = Inr xs"
| "py_iter (VDict kvs) = Inr (map (key_value \<circ> fst) kvs)"
| "py_iter (VStr s) = Inr (map (\<lambda>c. VStr [c]) s)"
| "py_iter (VBytes bs) = Inr (map (\<lambda>b. VInt (uint b)) bs)"
| "py_iter (VObj _ _ _ _ _ (Some xs) _ _ _) = Inr xs"
| "py_iter v = Inl (TypeErr (str_repr (type_name v) @ '' object is not iterable''))"

text \<open>\<open>v[k]\<close>, with Python's negative indices\<close>

definition index_list :: "string \<Rightarrow> 'x list \<Rightarrow> pyval \<Rightarrow> py_exn + 'x" where
  "index_list what xs k =
     (case (case k of VInt i \<Rightarrow> Some i | VBool b \<Rightarrow> Some (if b then 1 else 0) | _ \<Rightarrow> None) of
        None \<Rightarrow> Inl (TypeErr (what @ '' indices must be integers or slices, not '' @ type_name k))
      | Some i \<Rightarrow>
          (let j = (if i < 0 then i + int (length xs) else i) in
           if 0 \<le> j \<and> j < int (length xs) then Inr (xs ! nat j)
           else Inl (UserExn ''IndexError'' (what @ '' index out of range''))))"

definition dict_item :: "arith \<Rightarrow> (pykey \<times> pyval) list \<Rightarrow> pyval \<Rightarrow> py_exn + pyval" where
  "dict_item ar kvs k = ebind (hash_key ar k) (\<lambda>h.
     (case dict_get kvs h of Some v \<Rightarrow> Inr v | None \<Rightarrow> Inl (UserExn ''KeyError'' (py_repr k))))"

fun py_getitem :: "arith \<Rightarrow> pyval \<Rightarrow> pyval \<Rightarrow> py_exn + pyval" where
  "py_getitem ar (VDict kvs) k = dict_item ar kvs k"
| "py_getitem ar (VList xs) k = index_list ''list'' xs k"
| "py_getitem ar (VTuple xs) k = index_list ''tuple'' xs k"
| "py_getitem ar (VStr s) k = ebind (index_list ''string'' s k) (\<lambda>c. Inr (VStr [c]))"
| "py_getitem ar (VBytes bs) k = ebind (index_list ''byte'' bs k) (\<lambda>b. Inr (VInt (uint b)))"
| "py_getitem ar v k = Inl (TypeErr (str_repr (type_name v) @ '' object is not subscriptable''))"

text \<open>\<open>v.get(key, default)\<close> and \<open>key in v\<close>, for a key that is a string\<close>

fun py_get :: "pyval \<Rightarrow> string \<Rightarrow> pyval \<Rightarrow> py_exn + pyval" where
  "py_get (VDict kvs) k d = Inr (get_default kvs k d)"
| "py_get v k d = Inl (AttributeErr (str_repr (type_name v) @ '' object has no attribute '' @ str_repr ''get''))"

fun py_in :: "string \<Rightarrow> pyval \<Rightarrow> py_exn + bool" where
  "py_in k (VDict kvs) = Inr (dict_get kvs (KStr k) \<noteq> None)"
| "py_in k (VStr s) = Inr (sublist k s)"
| "py_in k (VBytes bs) = Inl (TypeErr ''a bytes-like object is required, not str'')"
| "py_in k v =
     (case py_iter v of
        Inr xs \<Rightarrow> Inr (VStr k \<in> set xs)
      | Inl _ \<Rightarrow> Inl (TypeErr (''argument of type '' @ str_repr (type_name v) @ '' is not iterable'')))"

text \<open>A computation that only computes.\<close>

definition from_result :: "py_exn + 'r \<Rightarrow> ('a, 'r) prog" where
  "from_result x w = (x, w)"

lemma andthen_from_result: "andthen (from_result x) f w = (case x of Inl e \<Rightarrow> (Inl e, w) | Inr y \<Rightarrow> f y w)"
  by (simp add: andthen_def from_result_def split: sum.split)

end
