(* ===== verification/Flask_App.thy ===== *)
theory Flask_App
  imports Trace_Nested Pipeline Py_Ops
begin

text \<open>
  The example application (examples/flask_app/app.py): a quote service on SQLite that uses the three
  primitives in one request.

  Flask, \<open>sqlite3\<close> and the drawing of a reference for the sink are parameters. A view gives the
  status code and the object it hands to \<open>jsonify\<close>. A request is \<open>before_sim\<close>, the view, \<open>after_sim\<close>;
  that Flask calls them in this order is not modelled, the theorems take each by itself. The state
  of the database is in the application state, and the sink's \<open>emit\<close> is an argument, as elsewhere.
\<close>

subsection \<open>\<open>SQLiteDB\<close>\<close>

text \<open>A cursor after \<open>execute\<close>: the names in its description, if it has one, and two attributes.\<close>

record sqlite_cursor =
  cu_columns :: "string list option"
  cu_rowcount :: int
  cu_lastrowid :: pyval

record 'a sqlite =
  sq_execute :: "pyval \<Rightarrow> pyval \<Rightarrow> 'a \<Rightarrow> (py_exn + sqlite_cursor) \<times> 'a"
  sq_fetchall :: "sqlite_cursor \<Rightarrow> 'a \<Rightarrow> (py_exn + pyval list list) \<times> 'a"
  sq_executescript :: "string \<Rightarrow> 'a \<Rightarrow> (py_exn + unit) \<times> 'a"
  sq_commit :: "'a \<Rightarrow> (py_exn + unit) \<times> 'a"

text \<open>What happens in the application state alone.\<close>

definition in_app :: "('a \<Rightarrow> (py_exn + 'r) \<times> 'a) \<Rightarrow> ('a, 'r) prog" where
  "in_app m w = (let (x, a) = m (app w) in (x, w\<lparr>app := a\<rparr>))"

lemma quiet_in_app [simp]: "quiet (in_app m)"
  by (simp add: quiet_def in_app_def case_prod_unfold Let_def)

definition row_dict :: "string list \<Rightarrow> pyval list \<Rightarrow> pyval" where
  "row_dict columns row = VDict (dict_of_items (zip (map KStr columns) row))"

definition sqlite_query :: "'a sqlite \<Rightarrow> pyval \<Rightarrow> pyval \<Rightarrow> ('a, pyval) prog" where
  "sqlite_query sq sql params =
     andthen (in_app (sq_execute sq sql (if truthy params then params else VList []))) (\<lambda>cur.
       case cu_columns cur of
         None \<Rightarrow> ret (VList [])
       | Some columns \<Rightarrow>
           andthen (in_app (sq_fetchall sq cur)) (\<lambda>rows. ret (VList (map (row_dict columns) rows))))"

definition sqlite_execute :: "'a sqlite \<Rightarrow> pyval \<Rightarrow> pyval \<Rightarrow> ('a, pyval) prog" where
  "sqlite_execute sq sql params =
     andthen (in_app (sq_execute sq sql (if truthy params then params else VList []))) (\<lambda>cur.
       andthen (in_app (sq_commit sq)) (\<lambda>_.
         ret (VDict [field ''rowcount'' (VInt (cu_rowcount cur)), field ''lastrowid'' (cu_lastrowid cur)])))"

text \<open>\<open>_seed\<close>\<close>

definition indent :: "string \<Rightarrow> string" where
  "indent s = replicate 12 (CHR '' '') @ s"

definition seed_script :: string where
  "seed_script = join_with [CHR 0x0A]
     [[],
       indent ''CREATE TABLE IF NOT EXISTS products ('',
       indent ''    sku   TEXT PRIMARY KEY,'',
       indent ''    name  TEXT NOT NULL,'',
       indent ''    price REAL NOT NULL'',
       indent '');'',
       indent ''INSERT OR IGNORE INTO products VALUES ('WIDGET-A', 'Premium Widget', 29.99);'',
       indent ''INSERT OR IGNORE INTO products VALUES ('GADGET-B', 'Super Gadget',   49.99);'',
       indent ''INSERT OR IGNORE INTO products VALUES ('TOOL-C',   'Pro Tool',       19.99);'',
       [],
       indent ''CREATE TABLE IF NOT EXISTS users ('',
       indent ''    id     INTEGER PRIMARY KEY,'',
       indent ''    name   TEXT NOT NULL,'',
       indent ''    email  TEXT NOT NULL,'',
       indent ''    region TEXT NOT NULL'',
       indent '');'',
       indent ''INSERT OR IGNORE INTO users VALUES (1, 'Alice Johnson', 'alice@example.com', 'US-CA');'',
       indent ''INSERT OR IGNORE INTO users VALUES (2, 'Bob Smith',     'bob@example.com',   'US-NY');'',
       [],
       indent ''CREATE TABLE IF NOT EXISTS quotes ('',
       indent ''    quote_id   TEXT PRIMARY KEY,'',
       indent ''    user_id    INTEGER NOT NULL,'',
       indent ''    subtotal   REAL NOT NULL,'',
       indent ''    tax        REAL NOT NULL,'',
       indent ''    total      REAL NOT NULL,'',
       indent ''    created_at TEXT NOT NULL DEFAULT (datetime('now'))'',
       indent '');'',
       replicate 8 (CHR '' '')]"

definition sqlite_seed :: "'a sqlite \<Rightarrow> ('a, unit) prog" where
  "sqlite_seed sq = andthen (in_app (sq_executescript sq seed_script)) (\<lambda>_. in_app (sq_commit sq))"

abbreviation plain_param :: "string \<Rightarrow> pyval option \<Rightarrow> param" where
  "plain_param n d \<equiv> \<lparr>param_name = n, param_kind = PositionalOrKeyword, param_default = d\<rparr>"

text \<open>The object as \<open>sim_db\<close> calls it: a method by its name, with its arguments bound.\<close>

definition sqlite_db :: "'a sqlite \<Rightarrow> 'a db_object" where
  "sqlite_db sq meth args kwargs =
     (let bound = bind_params [plain_param ''sql'' None, plain_param ''params'' (Some VNone)] args kwargs;
          value = (\<lambda>b n. case map_of b n of None \<Rightarrow> VNone | Some v \<Rightarrow> v) in
      if meth = ''query'' then
        andthen (from_result bound) (\<lambda>b. sqlite_query sq (value b ''sql'') (value b ''params''))
      else if meth = ''execute'' then
        andthen (from_result bound) (\<lambda>b. sqlite_execute sq (value b ''sql'') (value b ''params''))
      else raise (AttributeErr (str_repr ''SQLiteDB'' @ '' object has no attribute '' @ str_repr meth)))"

lemma quiet_andthen [intro]: "quiet m \<Longrightarrow> (\<And>x. quiet (f x)) \<Longrightarrow> quiet (andthen m f)"
  by (simp add: quiet_def andthen_def split: prod.split sum.split) (metis fst_conv snd_conv)

lemma quiet_from_result [simp]: "quiet (from_result x)"
  by (simp add: quiet_def from_result_def)

lemma quiet_sqlite: "quiet (sqlite_query sq sql params)" "quiet (sqlite_execute sq sql params)"
  unfolding sqlite_query_def sqlite_execute_def
  by (intro quiet_andthen quiet_in_app; simp add: quiet_andthen split: option.split)+

lemma quiet_sqlite_db: "quiet_db (sqlite_db sq)"
  by (simp add: quiet_db_def sqlite_db_def Let_def quiet_andthen quiet_sqlite del: bind_params.simps)

subsection \<open>The module and its hooks\<close>

text \<open>
  The globals of the module: \<open>SIM_MODE_STR\<close>, \<open>AGENT_URL\<close>, \<open>SERVICE_NAME\<close> and the reference of the sink, an
  \<open>AgentSink\<close> made in record mode only.
\<close>

record flask_module =
  fm_mode_str :: string
  fm_agent_url :: string
  fm_service :: string
  fm_sink :: "nat option"

text \<open>The sink, in record mode only, with what the constructor is given and the defaults it has.\<close>

definition make_sink :: "string \<Rightarrow> nat \<Rightarrow> nat option" where
  "make_sink mode_str new_sink = (if mode_str = ''record'' then Some new_sink else None)"

definition sink_config_of :: "flask_module \<Rightarrow> sender_config" where
  "sink_config_of m =
     \<lparr>cfg_url = fm_agent_url m, cfg_service = fm_service m, cfg_batch = 50, cfg_retries = 1\<rparr>"

definition load_module :: "(string \<Rightarrow> string option) \<Rightarrow> nat \<Rightarrow> flask_module" where
  "load_module env new_sink =
     (let default = (\<lambda>k d. case env k of None \<Rightarrow> d | Some s \<Rightarrow> s);
          m = map ascii_lower (default ''SIM_MODE'' ''off'')
      in \<lparr>fm_mode_str = m, fm_agent_url = default ''DOPL_AGENT_URL'' ''http://127.0.0.1:7777'',
          fm_service = default ''DOPL_SERVICE'' ''flask-demo'',
          fm_sink = make_sink m new_sink\<rparr>)"

definition STUB_DIR :: path where
  "STUB_DIR = [''.sim'', ''fixtures'']"

definition before_sim :: "flask_module \<Rightarrow> ('a, unit) prog" where
  "before_sim m w =
     (case mode_of_value (fm_mode_str m) of
        None \<Rightarrow> (Inl (ValueErr (str_repr (fm_mode_str m) @ '' is not a valid SimMode'')), w)
      | Some md \<Rightarrow>
          (let (r, w1) = new_ctx (sim_context_init md ''demo-run''
                 (if md = REPLAY then Some STUB_DIR else None) (fm_sink m)) w;
               (u, w2) = start_new_request r w1
           in (Inr (), set_context r w2)))"

definition after_sim :: "'resp \<Rightarrow> 'a world \<Rightarrow> 'resp \<times> 'a world" where
  "after_sim response w = (response, clear_context w)"

subsection \<open>\<open>calculate_quote\<close>\<close>

definition products_query :: "pyval list \<Rightarrow> query" where
  "products_query skus =
     \<lparr>q_name = ''products'', q_method = ''query'',
      q_sql = ''SELECT sku, name, price FROM products WHERE sku IN ('' @
        join_with '','' (map (\<lambda>_. ''?'') skus) @ '')'',
      q_params = Some (VList skus), q_args = [], q_kwargs = []\<rparr>"

definition users_query :: "pyval \<Rightarrow> query" where
  "users_query user_id =
     \<lparr>q_name = ''users'', q_method = ''query'', q_sql = ''SELECT region FROM users WHERE id = ?'',
      q_params = Some (VList [user_id]), q_args = [], q_kwargs = []\<rparr>"

definition insert_quote :: "pyval list \<Rightarrow> query" where
  "insert_quote row =
     \<lparr>q_name = ''quotes'', q_method = ''execute'',
      q_sql = ''INSERT INTO quotes (quote_id, user_id, subtotal, tax, total) VALUES (?, ?, ?, ?, ?)'',
      q_params = Some (VList row), q_args = [], q_kwargs = []\<rparr>"

definition skus_of :: "arith \<Rightarrow> pyval \<Rightarrow> py_exn + pyval list" where
  "skus_of ar items = ebind (py_iter items) (emap (\<lambda>item. py_getitem ar item (VStr ''sku'')))"

definition product_map :: "arith \<Rightarrow> pyval \<Rightarrow> py_exn + (pykey \<times> pyval) list" where
  "product_map ar products =
     ebind (py_iter products) (\<lambda>ps. ebind (emap (\<lambda>p.
       ebind (py_getitem ar p (VStr ''sku'')) (\<lambda>sku. ebind (hash_key ar sku) (\<lambda>k. Inr (k, p)))) ps)
         (\<lambda>kvs. Inr (dict_of_items kvs)))"

text \<open>
  The loop over the items: \<open>Inl\<close> is the early return of an error, \<open>Inr\<close> the lines and the subtotal.
\<close>

definition line_total_of :: "arith \<Rightarrow> pyval \<Rightarrow> pyval \<Rightarrow> py_exn + pyval \<times> pyval \<times> pyval" where
  "line_total_of ar item product =
     ebind (py_get item ''qty'' (VInt 1)) (\<lambda>qty.
     ebind (py_getitem ar product (VStr ''price'')) (\<lambda>price.
     ebind (ar_mul ar price qty) (\<lambda>x.
     ebind (ar_round ar x) (\<lambda>line_total. Inr (qty, price, line_total)))))"

definition not_found :: "pyval \<Rightarrow> pyval" where
  "not_found sku = VDict [field ''error'' (VStr (''Product not found: '' @ py_str sku))]"

fun quote_lines ::
  "arith \<Rightarrow> (pykey \<times> pyval) list \<Rightarrow> pyval list \<Rightarrow> pyval \<Rightarrow> pyval list \<Rightarrow>
    py_exn + (pyval + pyval list \<times> pyval)" where
  "quote_lines ar pm [] subtotal line_items = Inr (Inr (line_items, subtotal))"
| "quote_lines ar pm (item # items) subtotal line_items =
     ebind (py_getitem ar item (VStr ''sku'')) (\<lambda>sku. ebind (hash_key ar sku) (\<lambda>k.
       let product = (case dict_get pm k of None \<Rightarrow> VNone | Some p \<Rightarrow> p) in
       if \<not> truthy product then Inr (Inl (not_found sku))
       else
         ebind (line_total_of ar item product) (\<lambda>(qty, price, line_total).
         ebind (ar_add ar subtotal line_total) (\<lambda>subtotal'.
         ebind (py_getitem ar product (VStr ''name'')) (\<lambda>name.
           quote_lines ar pm items subtotal'
             (line_items @ [VDict [field ''sku'' sku, field ''name'' name, field ''qty'' qty,
                field ''unit_price'' price, field ''line_total'' line_total]]))))))"

definition tax_rates :: "(pykey \<times> pyval) list" where
  "tax_rates = [field ''US-CA'' (VFloat ''0.0725''), field ''US-NY'' (VFloat ''0.08875'')]"

text \<open>What the captured block computes from the rows of the user.\<close>

definition tax_info_of :: "arith \<Rightarrow> pyval \<Rightarrow> py_exn + pyval" where
  "tax_info_of ar rows =
     ebind (if truthy rows
              then ebind (py_getitem ar rows (VInt 0)) (\<lambda>row. py_getitem ar row (VStr ''region''))
              else Inr (VStr ''US-CA'')) (\<lambda>region.
     ebind (hash_key ar region) (\<lambda>k.
       let tax_rate = (case dict_get tax_rates k of None \<Rightarrow> VFloat ''0.0'' | Some v \<Rightarrow> v) in
       Inr (VDict [field ''region'' region, field ''rate'' tax_rate])))"

definition totals_of :: "arith \<Rightarrow> pyval \<Rightarrow> pyval \<Rightarrow> py_exn + pyval \<times> pyval" where
  "totals_of ar subtotal tax_info =
     ebind (py_getitem ar tax_info (VStr ''rate'')) (\<lambda>rate.
     ebind (ar_mul ar subtotal rate) (\<lambda>x. ebind (ar_round ar x) (\<lambda>tax.
     ebind (ar_add ar subtotal tax) (\<lambda>y. ebind (ar_round ar y) (\<lambda>tot. Inr (tax, tot))))))"

definition quote_answer ::
  "arith \<Rightarrow> string \<Rightarrow> pyval \<Rightarrow> pyval list \<Rightarrow> pyval \<Rightarrow> pyval \<Rightarrow> pyval \<Rightarrow> pyval \<Rightarrow> py_exn + pyval" where
  "quote_answer ar quote_id user_id line_items subtotal tax_info tax tot =
     ebind (ar_round ar subtotal) (\<lambda>rounded.
     ebind (py_getitem ar tax_info (VStr ''rate'')) (\<lambda>rate.
     ebind (py_getitem ar tax_info (VStr ''region'')) (\<lambda>region.
       Inr (VDict [field ''quote_id'' (VStr quote_id), field ''user_id'' user_id,
         field ''items'' (VList line_items), field ''subtotal'' rounded, field ''tax_rate'' rate,
         field ''tax_region'' region, field ''tax'' tax, field ''total'' tot]))))"

definition new_quote_id :: "('a, string) prog" where
  "new_quote_id w = (let (u, w1) = uuid8 w in (Inr u, w1))"

text \<open>What the SDK and the application share: the optional packages, the sink and the database.\<close>

record 'a host =
  ho_avro :: bool
  ho_sqlparse :: "sql_parser option"
  ho_emit :: "nat \<Rightarrow> fixture_event \<Rightarrow> ('a, unit) prog"
  ho_db :: "'a sqlite"
  ho_arith :: arith

definition sdk_query :: "'a host \<Rightarrow> query \<Rightarrow> ('a, pyval) prog" where
  "sdk_query h q = query_prog (ho_avro h) (ho_sqlparse h) (ho_emit h) (sqlite_db (ho_db h)) q"

definition tax_service :: "'a host \<Rightarrow> pyval \<Rightarrow> ('a, pyval) prog" where
  "tax_service h user_id = with_capture (ho_emit h) ''tax_service'' (captured_block
     (andthen (sdk_query h (users_query user_id)) (\<lambda>rows. from_result (tax_info_of (ho_arith h) rows))))"

text \<open>The part of \<open>calculate_quote\<close> after its loop: the tax, the totals, the quote's row and the answer.\<close>

definition finish_quote :: "'a host \<Rightarrow> pyval \<Rightarrow> pyval list \<Rightarrow> pyval \<Rightarrow> ('a, pyval) prog" where
  "finish_quote h user_id line_items subtotal =
     (let ar = ho_arith h in
      andthen (tax_service h user_id) (\<lambda>tax_info.
      andthen (from_result (totals_of ar subtotal tax_info)) (\<lambda>totals.
      andthen new_quote_id (\<lambda>quote_id.
      andthen (sdk_query h (insert_quote [VStr quote_id, user_id, subtotal, fst totals, snd totals])) (\<lambda>_.
        from_result (quote_answer ar quote_id user_id line_items subtotal tax_info (fst totals) (snd totals)))))))"

definition calculate_quote :: "'a host \<Rightarrow> pyval \<Rightarrow> pyval \<Rightarrow> ('a, pyval) prog" where
  "calculate_quote h user_id items =
     (let ar = ho_arith h in
      andthen (from_result (skus_of ar items)) (\<lambda>skus.
      andthen (sdk_query h (products_query skus)) (\<lambda>products.
      andthen (from_result (product_map ar products)) (\<lambda>pm.
      andthen (from_result (ebind (py_iter items) (\<lambda>xs. quote_lines ar pm xs (VFloat ''0.0'') []))) (\<lambda>looped.
        case looped of
          Inl early \<Rightarrow> ret early
        | Inr (line_items, subtotal) \<Rightarrow> finish_quote h user_id line_items subtotal)))))"

text \<open>The decorated function: its arguments are bound as Python binds them.\<close>

definition quote_function :: "'a host \<Rightarrow> 'a traced" where
  "quote_function h =
     (let sig = [plain_param ''user_id'' None, plain_param ''items'' None] in
      \<lparr>qualname = ''calculate_quote'', signature = sig,
       body = (\<lambda>args kwargs. andthen (from_result (bind_params sig args kwargs)) (\<lambda>bound.
         case (map_of bound ''user_id'', map_of bound ''items'') of
           (Some user_id, Some items) \<Rightarrow> calculate_quote h user_id items
         | _ \<Rightarrow> raise (TypeErr ''calculate_quote'')))\<rparr>)"

abbreviation quote_call :: "'a host \<Rightarrow> pyval \<Rightarrow> pyval \<Rightarrow> 'a call" where
  "quote_call h user_id items \<equiv> (None, quote_function h, [user_id, items], [])"

subsection \<open>Routes\<close>

type_synonym response = "nat \<times> pyval"

definition error_body :: "string \<Rightarrow> pyval" where
  "error_body m = VDict [field ''error'' (VStr m)]"

definition health :: "flask_module \<Rightarrow> sender_metrics \<Rightarrow> response" where
  "health m metrics =
     (200, VDict [field ''status'' (VStr ''ok''), field ''sim_mode'' (VStr (fm_mode_str m)),
        field ''agent_url'' (VStr (fm_agent_url m)),
        field ''sender_metrics'' (VDict (case fm_sink m of None \<Rightarrow> []
           | Some s \<Rightarrow> map (\<lambda>(k, n). field k (VInt n)) (metrics_snapshot metrics)))])"

definition answer_quote :: "pyval \<Rightarrow> ('a, response) prog" where
  "answer_quote result =
     andthen (from_result (py_in ''error'' result)) (\<lambda>failed. ret (if failed then 404 else 200, result))"

definition quote :: "'a host \<Rightarrow> pyval \<Rightarrow> ('a, response) prog" where
  "quote h data =
     (if \<not> truthy data then ret (400, error_body ''JSON body required'')
      else
        andthen (from_result (py_get data ''user_id'' (VInt 1))) (\<lambda>user_id.
        andthen (from_result (py_get data ''items'' (VList []))) (\<lambda>items.
          if \<not> truthy items then ret (400, error_body ''items required'')
          else andthen (call_prog (ho_avro h) (ho_emit h) (quote_call h user_id items)) answer_quote)))"

definition shutdown :: "flask_module \<Rightarrow> ('a world \<Rightarrow> 'a world) \<Rightarrow> 'a world \<Rightarrow> 'a world" where
  "shutdown m close_sink w = (if fm_sink m \<noteq> None then close_sink w else w)"

end
