(* ===== verification/Flask_Replay.thy ===== *)
theory Flask_Replay
  imports Flask_App
begin

text \<open>
  The quote service of the example (examples/flask_app/app.py) under record, replay and off: what a
  recorded request leaves and what the same request answers in a replay.

  The whole request is one confined computation, bounded as its queries, its captured block and its
  traced call are; nothing here looks inside a query or a capture again.
\<close>

subsection \<open>A request is confined\<close>

definition writes_within :: "(nat \<Rightarrow> fixture_event \<Rightarrow> ('a, unit) prog) \<Rightarrow> path set \<Rightarrow> bool" where
  "writes_within emit A \<longleftrightarrow> taking emit \<and> (\<forall>q fp. writes_in emit q fp A)"

lemma persist_writes_within: "writes_within (\<lambda>s. persist_event dir) UNIV"
  by (simp add: writes_within_def writes_in_def same_but_def taking_persist)

lemma agent_writes_within: "writes_within (agent_sink_emit cfg others reading) {}"
  by (simp add: writes_within_def writes_in_def taking_agent_sink agent_sink_emit_def)

lemma confined_sdk_query:
  assumes "writes_within (ho_emit h) A"
  shows "confined r UNIV A (sdk_query h q)"
  unfolding sdk_query_def
proof (rule confined_query)
  show "confined r UNIV A (sqlite_db (ho_db h) m a k)" for m a k
    using quiet_sqlite_db [of "ho_db h"] by (simp add: quiet_db_def confined_quiet)
qed (use assms in \<open>simp_all add: writes_within_def query_bounds_def\<close>)

lemma confined_tax_service:
  assumes "writes_within (ho_emit h) A"
  shows "confined r UNIV A (tax_service h user_id)"
  unfolding tax_service_def
  by (intro confined_capture confined_captured_block confined_andthen confined_sdk_query confined_quiet assms)
    (use assms in \<open>simp_all add: writes_within_def\<close>)

lemma quiet_new_quote_id [simp]: "quiet new_quote_id"
  by (simp add: quiet_def new_quote_id_def)

lemma confined_finish_quote:
  assumes "writes_within (ho_emit h) A"
  shows "confined r UNIV A (finish_quote h user_id line_items subtotal)"
  unfolding finish_quote_def Let_def
  by (intro confined_andthen confined_tax_service confined_sdk_query assms) (simp_all add: confined_quiet)

lemma confined_calculate_quote:
  assumes "writes_within (ho_emit h) A"
  shows "confined r UNIV A (calculate_quote h user_id items)"
  unfolding calculate_quote_def Let_def
  by (intro confined_andthen confined_sdk_query assms)
    (auto simp: confined_quiet confined_finish_quote [OF assms] split: sum.split)

subsection \<open>The traced call of a request\<close>

lemma quote_call_facts:
  "sig_ok (quote_call h user_id items)"
  "call_binding (quote_call h user_id items) =
     Inr (VDict [field ''user_id'' (make_serializable user_id), field ''items'' (make_serializable items)])"
  "call_body (quote_call h user_id items) = calculate_quote h user_id items"
  by (simp_all add: quote_function_def bind_args_def Let_def fun_eq_iff andthen_from_result)

text \<open>The fingerprint of the call depends on its arguments and on the packages installed, on nothing else.\<close>

definition quote_fp :: "bool \<Rightarrow> pyval \<Rightarrow> pyval \<Rightarrow> string" where
  "quote_fp has_avro user_id items =
     (case compute_fingerprint has_avro ''calculate_quote''
        (VDict [field ''user_id'' (make_serializable user_id), field ''items'' (make_serializable items)]) of
        Inr fp \<Rightarrow> fp | Inl _ \<Rightarrow> [])"

lemma quote_call_op:
  "call_op has_avro (quote_call h user_id items) = Some (''calculate_quote'', quote_fp has_avro user_id items)"
proof -
  let ?a = "VDict [field ''user_id'' (make_serializable user_id), field ''items'' (make_serializable items)]"
  have "plain ?a" by (simp add: make_serializable_plain_lemma)
  from compute_fingerprint_total [OF this, of has_avro "''calculate_quote''"] show ?thesis
    using quote_call_facts(2) [of h user_id items]
    by (auto simp: quote_fp_def traced_name_def quote_function_def)
qed

subsection \<open>The context of a request\<close>

lemma before_sim_context:
  assumes "before_sim m w = (Inr (), w')"
  obtains md r where "mode_of_value (fm_mode_str m) = Some md" "valid_ref w' r" "current w' = Some r"
    "mode (ctx_at w' r) = md" "sink (ctx_at w' r) = fm_sink m"
    "stub_dir (ctx_at w' r) = (if md = REPLAY then Some STUB_DIR else None)"
    "ordinals_at w' r = (\<lambda>fp. 0)" "files w' = files w" "app w' = app w"
proof -
  obtain md where md: "mode_of_value (fm_mode_str m) = Some md"
    using assms by (auto simp: before_sim_def split: option.splits)
  let ?c = "sim_context_init md ''demo-run'' (if md = REPLAY then Some STUB_DIR else None) (fm_sink m)"
  have "w' = set_context (length (contexts w)) (snd (start_new_request (length (contexts w))
      (w\<lparr>contexts := contexts w @ [?c]\<rparr>)))"
    using assms by (simp add: before_sim_def md new_ctx_def case_prod_unfold Let_def)
  then show ?thesis
    using md by (intro that [of md "length (contexts w)"])
      (auto simp: start_new_request_def set_context_def reset_context_def sim_context_init_def ctx_at_def
        valid_ref_def set_ctx_def ordinals_at_def fun_eq_iff)
qed

lemma mode_values:
  "mode_of_value ''off'' = Some OFF" "mode_of_value ''record'' = Some RECORD" "mode_of_value ''replay'' = Some REPLAY"
  by (simp_all add: mode_of_value_def)

lemma before_recording:
  assumes "before_sim m w = (Inr (), w')" "fm_mode_str m = ''record''" "fm_sink m = Some s"
  obtains r where "recording_in r w'" "ordinals_at w' r = (\<lambda>fp. 0)" "files w' = files w"
  by (rule before_sim_context [OF assms(1)]) (use assms(2,3) that in \<open>auto simp: mode_values recording_in_def\<close>)

lemma before_replaying:
  assumes "before_sim m w = (Inr (), w')" "fm_mode_str m = ''replay''"
  obtains r where "session_ctx REPLAY STUB_DIR r w'" "ordinals_at w' r = (\<lambda>fp. 0)" "files w' = files w" "app w' = app w"
  by (rule before_sim_context [OF assms(1)]) (use assms(2) that in \<open>auto simp: mode_values session_ctx_def\<close>)

subsection \<open>From the data of a request to its call\<close>

definition asks_for :: "pyval \<Rightarrow> pyval \<Rightarrow> pyval \<Rightarrow> bool" where
  "asks_for data user_id items \<longleftrightarrow>
     truthy data \<and> py_get data ''user_id'' (VInt 1) = Inr user_id \<and>
     py_get data ''items'' (VList []) = Inr items \<and> truthy items"

lemma quote_asked:
  "asks_for data user_id items \<Longrightarrow>
    quote h data = andthen (call_prog (ho_avro h) (ho_emit h) (quote_call h user_id items)) answer_quote"
  by (simp add: fun_eq_iff quote_def asks_for_def andthen_from_result del: call_prog.simps)

text \<open>A request that asks for nothing, or not with an object, ends before the call.\<close>

definition refusal :: "pyval \<Rightarrow> (py_exn + response) option" where
  "refusal data =
     (if \<not> truthy data then Some (Inr (400, error_body ''JSON body required''))
      else case py_get data ''items'' (VList []) of
             Inl e \<Rightarrow> Some (Inl e)
           | Inr items \<Rightarrow> if truthy items then None else Some (Inr (400, error_body ''items required'')))"

lemma quote_refused: "refusal data = Some x \<Longrightarrow> quote h data w = (x, w)"
  by (cases data) (auto simp: refusal_def quote_def andthen_from_result ret_def split: if_splits)

lemma quote_not_refused: "refusal data = None \<Longrightarrow> \<exists>user_id items. asks_for data user_id items"
  by (cases data) (auto simp: refusal_def asks_for_def split: if_splits)

lemma refusal_400: "refusal data = Some (Inr (code, answer)) \<Longrightarrow> code = 400 \<and> make_serializable answer = answer"
  by (auto simp: refusal_def error_body_def split: if_splits sum.splits)

subsection \<open>The answers of \<open>calculate_quote\<close>\<close>

lemma andthen_Inr:
  "andthen m f w = (Inr y, w') \<longleftrightarrow> (\<exists>x w1. m w = (Inr x, w1) \<and> f x w1 = (Inr y, w'))"
  by (auto simp: andthen_def split: prod.splits sum.splits)

lemma quote_lines_early:
  "quote_lines ar pm items subtotal line_items = Inr (Inl v) \<Longrightarrow> \<exists>sku. v = not_found sku"
  by (induction ar pm items subtotal line_items rule: quote_lines.induct)
    (auto simp: ebind_Inr Let_def split: if_splits)

definition is_quote :: "pyval \<Rightarrow> bool" where
  "is_quote v \<longleftrightarrow> (\<exists>i u ls s rt rg t tt. v = VDict [field ''quote_id'' i, field ''user_id'' u, field ''items'' ls,
     field ''subtotal'' s, field ''tax_rate'' rt, field ''tax_region'' rg, field ''tax'' t, field ''total'' tt])"

lemma quote_answer_shape: "quote_answer ar i u ls s ti t tt = Inr v \<Longrightarrow> is_quote v"
  unfolding quote_answer_def is_quote_def ebind_Inr by blast

lemma calculate_quote_shape:
  assumes "calculate_quote h user_id items w = (Inr v, w')"
  shows "(\<exists>sku. v = not_found sku) \<or> is_quote v"
proof -
  obtain pm looped w1 where l: "ebind (py_iter items) (\<lambda>xs. quote_lines (ho_arith h) pm xs (VFloat ''0.0'') []) = Inr looped"
    and rest: "(case looped of Inl early \<Rightarrow> ret early
      | Inr (line_items, subtotal) \<Rightarrow> finish_quote h user_id line_items subtotal) w1 = (Inr v, w')"
    using assms by (auto simp: calculate_quote_def Let_def andthen_Inr from_result_def)
  show ?thesis
  proof (cases looped)
    case (Inl early)
    then show ?thesis using l rest quote_lines_early by (auto simp: ebind_Inr ret_def)
  next
    case (Inr x)
    then show ?thesis
      using rest quote_answer_shape
      by (auto simp: finish_quote_def Let_def andthen_Inr from_result_def split: prod.splits)
  qed
qed

lemma error_in_answers:
  assumes "(\<exists>sku. v = not_found sku) \<or> is_quote v"
  shows "\<exists>b. py_in ''error'' v = Inr b \<and> py_in ''error'' (make_serializable v) = Inr b"
  using assms by (auto simp: is_quote_def not_found_def)

lemma answer_quote_known:
  "py_in ''error'' v = Inr b \<Longrightarrow> answer_quote v w = (Inr (if b then 404 else 200, v), w)"
  by (simp add: answer_quote_def andthen_from_result ret_def)

lemma quiet_answer_quote: "quiet (answer_quote v)"
  by (auto simp: answer_quote_def)

subsection \<open>One recorded call and its replay\<close>

lemma recorded_quote_call:
  assumes "recording_in r w" "ho_emit h = (\<lambda>s. persist_event STUB_DIR)" "ordinals_at w r = (\<lambda>fp. 0)"
    and "call_prog (ho_avro h) (ho_emit h) (quote_call h user_id items) w = (res, w')"
  obtains doc u w3 where
    "files w' (trace_path STUB_DIR (''calculate_quote'', quote_fp (ho_avro h) user_id items) 0) = Some doc"
    "stored_output doc = (case res of Inr v \<Rightarrow> make_serializable v | Inl _ \<Rightarrow> VNone)"
    "calculate_quote h user_id items u = (res, w3)" "recording_in r u"
proof -
  have "writes_within (ho_emit h) UNIV" unfolding assms(2) by (rule persist_writes_within)
  then have c: "confined r UNIV UNIV (call_body (quote_call h user_id items))"
    unfolding quote_call_facts(3) by (rule confined_calculate_quote)
  from assms(1) quote_call_facts(1) c assms(4) [unfolded assms(2)] show ?thesis
  proof (rule nested_record_step, goal_cases unbound bound)
    case (unbound e)
    then show ?case by (simp only: quote_call_facts(2)) simp
  next
    case (bound a q fp doc u w3)
    have op: "q = ''calculate_quote''" "fp = quote_fp (ho_avro h) user_id items"
      using bound(2) unfolding quote_call_op by simp_all
    show ?case
      by (rule that [of doc u w3])
        (use bound(7,8,12,13) in \<open>simp_all add: assms(3) op quote_call_facts(3) del: call_body.simps\<close>)
  qed
qed

lemma replayed_quote_call:
  assumes "session_ctx REPLAY STUB_DIR r v" "ordinals_at v r = (\<lambda>fp. 0)"
    and "fp = quote_fp (ho_avro h) user_id items"
  obtains v' where "call_prog (ho_avro h) (ho_emit h) (quote_call h user_id items) v =
      (case files v (trace_path STUB_DIR (''calculate_quote'', fp) 0) of
         None \<Rightarrow> Inl (SimStubMissError ''calculate_quote'' fp 0 (Some STUB_DIR))
       | Some doc \<Rightarrow> Inr (stored_output doc), v')"
    "app v' = app v"
proof -
  let ?c = "quote_call h user_id items"
  obtain x v' where run: "call_prog (ho_avro h) (ho_emit h) ?c v = (x, v')" by fastforce
  have v: "current v = Some r" "is_replaying (ctx_at v r)" "valid_ref v r"
    using assms(1) by (simp_all add: session_ctx_def mode_simps)
  have "app v' = app v"
  proof -
    have sig: "distinct (map param_name (signature (quote_function h)))" by (simp add: quote_function_def)
    show ?thesis
    proof (rule prepare_call_cases [OF sig, of "[user_id, items]" "[]" "ho_avro h" "traced_name None (quote_function h)" r v],
        goal_cases unbound bound)
      case (unbound e)
      then show ?case using run by (simp add: sim_trace_replaying [OF v(1,2,3)])
    next
      case (bound a fp')
      then have "replay (traced_name None (quote_function h)) fp' (count_of (ordinal_counters (ctx_at v r)) fp') a r
          (snd (next_ordinal_at r fp' v)) = (x, v')"
        using run by (simp add: sim_trace_replaying [OF v(1,2,3)])
      from replay_context [OF _ this] show ?case using v(3) by simp
    qed
  qed
  moreover have "x = (case files v (trace_path STUB_DIR (''calculate_quote'', fp) 0) of
         None \<Rightarrow> Inl (SimStubMissError ''calculate_quote'' fp 0 (Some STUB_DIR))
       | Some doc \<Rightarrow> Inr (stored_output doc))"
  proof (rule replay_step [OF assms(1) quote_call_facts(1) [of h user_id items], of "ho_avro h" "ho_emit h"],
      goal_cases unbound bound)
    case (unbound e)
    then show ?case by (simp only: quote_call_facts(2)) simp
  next
    case (bound a q f w')
    have "q = ''calculate_quote''" "f = fp" using bound(2) unfolding quote_call_op by (simp_all add: assms(3))
    then show ?case using bound(3) run by (simp add: assms(2) del: call_prog.simps split: option.split)
  qed
  ultimately show ?thesis using that run by blast
qed

subsection \<open>A shop to run requests on\<close>

text \<open>
  A database in which every query answers with the same row, and an arithmetic on whole numbers: concrete
  values of the parameters for the properties' examples.
\<close>

definition shop :: "'a sqlite" where
  "shop = \<lparr>sq_execute = (\<lambda>sql params s. (Inr \<lparr>cu_columns = Some [''sku'', ''name'', ''price'', ''region''],
       cu_rowcount = 1, cu_lastrowid = VInt 1\<rparr>, s)),
     sq_fetchall = (\<lambda>cur s. (Inr [[VStr ''A'', VStr ''Apple'', VInt 3, VStr ''US-NY'']], s)),
     sq_executescript = (\<lambda>script s. (Inr (), s)), sq_commit = (\<lambda>s. (Inr (), s))\<rparr>"

fun whole :: "pyval \<Rightarrow> int" where
  "whole (VInt i) = i"
| "whole v = 0"

definition whole_arith :: arith where
  "whole_arith = \<lparr>ar_mul = (\<lambda>a b. Inr (VInt (whole a * whole b))), ar_add = (\<lambda>a b. Inr (VInt (whole a + whole b))),
     ar_round = (\<lambda>a. Inr (VInt (whole a))), ar_float_key = (\<lambda>r. KOther r r)\<rparr>"

definition shop_host :: "(nat \<Rightarrow> fixture_event \<Rightarrow> ('a, unit) prog) \<Rightarrow> 'a host" where
  "shop_host emit = \<lparr>ho_avro = False, ho_sqlparse = None, ho_emit = emit, ho_db = shop, ho_arith = whole_arith\<rparr>"

lemma shop_host_simps [simp]:
  "ho_avro (shop_host emit) = False" "ho_emit (shop_host emit) = emit" "ho_db (shop_host emit) = shop"
  "ho_arith (shop_host emit) = whole_arith"
  by (simp_all add: shop_host_def)

definition shop_row :: pyval where
  "shop_row = VDict [field ''sku'' (VStr ''A''), field ''name'' (VStr ''Apple''), field ''price'' (VInt 3),
     field ''region'' (VStr ''US-NY'')]"

definition shop_result :: "string \<Rightarrow> pyval" where
  "shop_result meth = (if meth = ''query'' then VList [shop_row]
     else VDict [field ''rowcount'' (VInt 1), field ''lastrowid'' (VInt 1)])"

lemma shop_answers:
  "meth \<in> {''query'', ''execute''} \<Longrightarrow>
    fst (real_call (sqlite_db shop) meth sql (VList ps) [] [] u) = Inr (shop_result meth)"
  by (auto simp: real_call_def sqlite_db_def sqlite_query_def sqlite_execute_def shop_def in_app_def andthen_def
      from_result_def ret_def row_dict_def shop_row_def shop_result_def Let_def)

lemma shop_query:
  fixes emit :: "nat \<Rightarrow> fixture_event \<Rightarrow> ('a, unit) prog"
  assumes "recording_in r w" "writes_within emit A" "q_method q \<in> {''query'', ''execute''}"
    and "q_params q = Some (VList ps)" "q_args q = []" "q_kwargs q = []"
  obtains w' where "recording_in r w'" "sdk_query (shop_host emit) q w = (Inr (shop_result (q_method q)), w')"
proof -
  obtain y w' where run: "sdk_query (shop_host emit) q w = (y, w')" by fastforce
  have c: "confined r UNIV A (sqlite_db shop m a k)" for m a k
    by (rule confined_quiet) (rule quiet_sqlite_db [unfolded quiet_db_def, rule_format])
  obtain u :: "'a world" and w2 where "real_call (sqlite_db shop) (q_method q) (q_sql q) (q_param_value q) (q_args q) (q_kwargs q) u = (y, w2)"
    "confined_step r UNIV A w w'"
    by (rule recorded_query [of r UNIV A "sqlite_db shop" emit False None q w y w'])
      (use c assms(1,2) run in \<open>auto simp: sdk_query_def shop_host_def writes_within_def query_bounds_def\<close>)
  then show ?thesis
    using shop_answers [OF assms(3), of "q_sql q" ps u] recording_in_step [OF assms(1)] run assms(4-6)
    by (intro that [of w']) simp_all
qed

definition shop_items :: pyval where
  "shop_items = VList [VDict [field ''sku'' (VStr ''A''), field ''qty'' (VInt 2)]]"

definition shop_answer :: "string \<Rightarrow> pyval" where
  "shop_answer quote_id = VDict [field ''quote_id'' (VStr quote_id), field ''user_id'' (VInt 1),
     field ''items'' (VList [VDict [field ''sku'' (VStr ''A''), field ''name'' (VStr ''Apple''), field ''qty'' (VInt 2),
       field ''unit_price'' (VInt 3), field ''line_total'' (VInt 6)]]),
     field ''subtotal'' (VInt 6), field ''tax_rate'' (VFloat ''0.08875''), field ''tax_region'' (VStr ''US-NY''),
     field ''tax'' (VInt 0), field ''total'' (VInt 6)]"

lemma shop_tax:
  assumes w: "recording_in r w" and e: "writes_within emit A"
  obtains w' where "recording_in r w'" "tax_service (shop_host emit) user_id w =
    (Inr (VDict [field ''region'' (VStr ''US-NY''), field ''rate'' (VFloat ''0.08875'')]), w')"
proof -
  obtain y w' where run: "tax_service (shop_host emit) user_id w = (y, w')" by fastforce
  let ?dep = "andthen (sdk_query (shop_host emit) (users_query user_id)) (\<lambda>rows. from_result (tax_info_of whole_arith rows))"
  have block: "confined r UNIV A (\<lambda>w. case captured_block ?dep h w of (x, h', w') \<Rightarrow> (x, w'))" for h
    by (intro confined_captured_block confined_andthen confined_sdk_query confined_quiet) (use e in simp_all)
  obtain h u h' w2 where b: "\<not> h_replaying h" "recording_in r u" "captured_block ?dep h u = (y, h', w2)"
    "confined_step r UNIV A w w'"
    by (rule recorded_capture [OF block _ _ _ w run [unfolded tax_service_def shop_host_simps]])
      (use e in \<open>simp_all add: writes_within_def\<close>)
  obtain v where v: "sdk_query (shop_host emit) (users_query user_id) u = (Inr (shop_result ''query''), v)"
    by (rule shop_query [OF b(2) e, of "users_query user_id"]) (auto simp: users_query_def)
  have "y = Inr (VDict [field ''region'' (VStr ''US-NY''), field ''rate'' (VFloat ''0.08875'')])"
    using b(1,3) by (simp add: captured_block_def andthen_def v shop_result_def from_result_def tax_info_of_def shop_row_def
        index_list_def dict_item_def tax_rates_def set_result_def handle_result_def)
  then show ?thesis using run recording_in_step [OF w b(4)] that by simp
qed

lemma shop_quote:
  assumes w: "recording_in r w" and e: "writes_within emit A"
  shows "\<exists>quote_id w'. calculate_quote (shop_host emit) (VInt 1) shop_items w = (Inr (shop_answer quote_id), w')"
proof -
  let ?h = "shop_host emit"
  obtain w1 where w1: "recording_in r w1" "sdk_query ?h (products_query [VStr ''A'']) w = (Inr (shop_result ''query''), w1)"
    by (rule shop_query [OF w e, of "products_query [VStr ''A'']"]) (auto simp: products_query_def)
  obtain w2 where w2: "recording_in r w2" "tax_service ?h (VInt 1) w1 =
      (Inr (VDict [field ''region'' (VStr ''US-NY''), field ''rate'' (VFloat ''0.08875'')]), w2)"
    by (rule shop_tax [OF w1(1) e])
  obtain i w3 where w3: "new_quote_id w2 = (Inr i, w3)"
    by (simp add: new_quote_id_def)
  have "recording_in r w3"
    using recording_in_step [OF w2(1) confinedD [OF confined_quiet [OF quiet_new_quote_id] w2(1) w3]] .
  then obtain w4 where w4: "sdk_query ?h (insert_quote [VStr i, VInt 1, VInt 6, VInt 0, VInt 6]) w3 = (Inr (shop_result ''execute''), w4)"
    by (rule shop_query [OF _ e, of r w3 "insert_quote [VStr i, VInt 1, VInt 6, VInt 0, VInt 6]"])
      (auto simp: insert_quote_def)
  show ?thesis
    by (simp add: calculate_quote_def finish_quote_def shop_items_def skus_of_def andthen_def from_result_def w1(2)
        shop_result_def product_map_def shop_row_def dict_item_def whole_arith_def line_total_of_def get_default_def
        w2(2) totals_of_def w3 w4 quote_answer_def shop_answer_def Let_def)
qed

text \<open>The application started in a mode, and a request recorded with the shop.\<close>

definition flask_in :: "string \<Rightarrow> flask_module" where
  "flask_in m = load_module (\<lambda>k. if k = ''SIM_MODE'' then Some m else None) 0"

lemma flask_modes:
  "fm_mode_str (flask_in ''record'') = ''record''" "fm_sink (flask_in ''record'') = Some 0"
  "fm_mode_str (flask_in ''replay'') = ''replay''" "fm_mode_str (flask_in ''off'') = ''off''"
  by (simp_all add: flask_in_def load_module_def make_sink_def ascii_lower_def Let_def)

lemma flask_starts:
  "md \<in> {''off'', ''record'', ''replay''} \<Longrightarrow> fm_mode_str m = md \<Longrightarrow> before_sim m w = (Inr (), snd (before_sim m w))"
  by (auto simp: before_sim_def mode_values case_prod_unfold Let_def)

definition shop_data :: pyval where
  "shop_data = VDict [field ''items'' shop_items]"

lemma shop_asks: "asks_for shop_data (VInt 1) shop_items"
  by (simp add: asks_for_def shop_data_def shop_items_def get_default_def)

lemma shop_request:
  fixes w :: "'a world"
  assumes "recording_in r w" "ordinals_at w r = (\<lambda>fp. 0)"
  shows "\<exists>quote_id w1. quote (shop_host (\<lambda>s. persist_event STUB_DIR)) shop_data w =
    (Inr (200, shop_answer quote_id), w1)"
proof -
  let ?h = "shop_host (\<lambda>s. persist_event STUB_DIR) :: 'a host"
  obtain res w2 where call: "call_prog (ho_avro ?h) (ho_emit ?h) (quote_call ?h (VInt 1) shop_items) w = (res, w2)"
    by fastforce
  obtain u w3 where u: "calculate_quote ?h (VInt 1) shop_items u = (res, w3)" "recording_in r u"
    by (rule recorded_quote_call [OF assms(1) _ assms(2) call]) simp_all
  obtain i w4 where "calculate_quote ?h (VInt 1) shop_items u = (Inr (shop_answer i), w4)"
    using shop_quote [OF u(2) persist_writes_within [of STUB_DIR]] by blast
  then have "res = Inr (shop_answer i)" using u(1) by simp
  moreover have "answer_quote (shop_answer i) w2 = (Inr (200, shop_answer i), w2)" for i
    using answer_quote_known [of "shop_answer i" False w2] by (simp add: shop_answer_def)
  ultimately show ?thesis
    using call by (auto simp: quote_asked [OF shop_asks] andthen_def simp del: call_prog.simps)
qed

subsection \<open>Properties\<close>

text \<open>
  C13: a recorded request replays. Let a request be recorded, with its queries, its captured block and its
  traced call, through a sink that writes each event to its fixture file, and answered. Then the
  same request in replay mode is answered with the same status code and the serialised form of the
  same body; the database of the replay is not used: the application state is unchanged.
\<close>

theorem quote_replays:
  assumes "fm_mode_str m = ''record''" "fm_sink m = Some s" "fm_mode_str m' = ''replay''"
    and "ho_emit h = (\<lambda>s. persist_event STUB_DIR)" "ho_avro h' = ho_avro h"
    and "before_sim m w0 = (Inr (), w)" "quote h data w = (Inr (code, answer), w1)"
    and "before_sim m' v0 = (Inr (), v)" "files v0 = files w1"
  shows "\<exists>v1. quote h' data v = (Inr (code, make_serializable answer), v1) \<and> app v1 = app v0"
proof -
  obtain r where w: "recording_in r w" "ordinals_at w r = (\<lambda>fp. 0)" "files w = files w0"
    by (rule before_recording [OF assms(6,1,2)])
  obtain t where v: "session_ctx REPLAY STUB_DIR t v" "ordinals_at v t = (\<lambda>fp. 0)" "files v = files v0" "app v = app v0"
    by (rule before_replaying [OF assms(8,3)])
  show ?thesis
  proof (cases "refusal data")
    case (Some x)
    then have "x = Inr (code, answer)" "make_serializable answer = answer"
      using assms(7) quote_refused [OF Some, of h w] refusal_400 [of data code answer] by simp_all
    then show ?thesis using quote_refused [OF Some, of h' v] v(4) by simp
  next
    case None
    then obtain user_id items where "asks_for data user_id items" using quote_not_refused by blast
    note q = quote_asked [OF this]
    obtain result w2 where call: "call_prog (ho_avro h) (ho_emit h) (quote_call h user_id items) w = (Inr result, w2)"
      and ans: "answer_quote result w2 = (Inr (code, answer), w1)"
      using assms(7) unfolding q andthen_Inr by blast
    obtain doc u w3 where rec:
      "files w2 (trace_path STUB_DIR (''calculate_quote'', quote_fp (ho_avro h) user_id items) 0) = Some doc"
      "stored_output doc = make_serializable result" "calculate_quote h user_id items u = (Inr result, w3)"
      by (rule recorded_quote_call [OF w(1) assms(4) w(2) call]) simp
    obtain b where b: "py_in ''error'' result = Inr b" "py_in ''error'' (make_serializable result) = Inr b"
      using error_in_answers [OF calculate_quote_shape [OF rec(3)]] by blast
    have same: "w1 = w2" "code = (if b then 404 else 200)" "answer = result"
      using ans answer_quote_known [OF b(1), of w2] by simp_all
    obtain v' where "call_prog (ho_avro h') (ho_emit h') (quote_call h' user_id items) v =
        (Inr (make_serializable result), v')" "app v' = app v"
      by (rule replayed_quote_call [OF v(1,2) refl, of h' user_id items])
        (use rec(1,2) v(3) assms(5,9) same(1) in \<open>simp_all del: call_prog.simps\<close>)
    then show ?thesis
      using answer_quote_known [OF b(2), of v'] v(4)
      by (intro exI [of _ v']) (simp add: q andthen_def same del: call_prog.simps)
  qed
qed

theorem quote_replays_witness:
  "\<exists>quote_id w1 v1. quote (shop_host (\<lambda>s. persist_event STUB_DIR)) shop_data
      (snd (before_sim (flask_in ''record'') (blank_world (\<lambda>_. None) ()))) = (Inr (200, shop_answer quote_id), w1) \<and>
    quote (shop_host (\<lambda>s e. raise (UserExn ''Offline'' []))) shop_data
      (snd (before_sim (flask_in ''replay'') ((blank_world (\<lambda>_. None) (5 :: int))\<lparr>files := files w1\<rparr>))) =
        (Inr (200, shop_answer quote_id), v1) \<and> app v1 = 5"
proof -
  let ?h = "shop_host (\<lambda>s. persist_event STUB_DIR) :: unit host"
  let ?w0 = "blank_world (\<lambda>_. None) ()" and ?m = "flask_in ''record''"
  have start: "before_sim ?m ?w0 = (Inr (), snd (before_sim ?m ?w0))"
    by (rule flask_starts [OF _ flask_modes(1)]) simp
  obtain i w1 where run: "quote ?h shop_data (snd (before_sim ?m ?w0)) = (Inr (200, shop_answer i), w1)"
    by (rule before_recording [OF start flask_modes(1,2)]) (use shop_request in blast)
  let ?v0 = "(blank_world (\<lambda>_. None) (5 :: int))\<lparr>files := files w1\<rparr>"
  have again: "before_sim (flask_in ''replay'') ?v0 = (Inr (), snd (before_sim (flask_in ''replay'') ?v0))"
    by (rule flask_starts [OF _ flask_modes(3)]) simp
  have same: "make_serializable (shop_answer i) = shop_answer i"
    by (simp add: shop_answer_def)
  show ?thesis
    using quote_replays [OF flask_modes(1-3) _ _ start run again, of "shop_host (\<lambda>s e. raise (UserExn ''Offline'' []))"]
      run unfolding same by (auto simp: blank_world_def)
qed

text \<open>
  C34: a request that failed does not fail in the same way. If a request was recorded and \<open>calculate_quote\<close>
  raised, the fixture holds no output: the replayed call returns \<open>None\<close>, and asking whether \<open>error\<close> is in it
  raises a \<open>TypeError\<close>, whatever the exception was.
\<close>

theorem failed_quote_replays_type_error:
  assumes "fm_mode_str m = ''record''" "fm_sink m = Some s" "fm_mode_str m' = ''replay''"
    and "ho_emit h = (\<lambda>s. persist_event STUB_DIR)" "ho_avro h' = ho_avro h"
    and "before_sim m w0 = (Inr (), w)" "asks_for data user_id items" "quote h data w = (Inl e, w1)"
    and "before_sim m' v0 = (Inr (), v)" "files v0 = files w1"
  shows "fst (quote h' data v) = Inl (TypeErr (''argument of type '' @ str_repr ''NoneType'' @ '' is not iterable''))"
proof -
  obtain r where w: "recording_in r w" "ordinals_at w r = (\<lambda>fp. 0)" "files w = files w0"
    by (rule before_recording [OF assms(6,1,2)])
  obtain t where v: "session_ctx REPLAY STUB_DIR t v" "ordinals_at v t = (\<lambda>fp. 0)" "files v = files v0" "app v = app v0"
    by (rule before_replaying [OF assms(9,3)])
  note q = quote_asked [OF assms(7)]
  obtain res w2 where call: "call_prog (ho_avro h) (ho_emit h) (quote_call h user_id items) w = (res, w2)" by fastforce
  obtain doc u w3 where rec:
    "files w2 (trace_path STUB_DIR (''calculate_quote'', quote_fp (ho_avro h) user_id items) 0) = Some doc"
    "stored_output doc = (case res of Inr v \<Rightarrow> make_serializable v | Inl _ \<Rightarrow> VNone)"
    "calculate_quote h user_id items u = (res, w3)"
    by (rule recorded_quote_call [OF w(1) assms(4) w(2) call])
  have raised: "res = Inl e" "w2 = w1"
  proof -
    have "\<exists>b. answer_quote x w2 = (Inr (b, x), w2)" if "res = Inr x" for x
      using error_in_answers [OF calculate_quote_shape [OF rec(3) [unfolded that]]] answer_quote_known by blast
    then show "res = Inl e" "w2 = w1"
      using assms(8) by (cases res; fastforce simp: q andthen_def call simp del: call_prog.simps)+
  qed
  obtain v' where "call_prog (ho_avro h') (ho_emit h') (quote_call h' user_id items) v = (Inr VNone, v')"
    by (rule replayed_quote_call [OF v(1,2) refl, of h' user_id items])
      (use rec(1,2) v(3) assms(5,10) raised in \<open>simp_all del: call_prog.simps\<close>)
  then show ?thesis
    by (simp add: q andthen_def answer_quote_def from_result_def del: call_prog.simps)
qed

theorem failed_quote_replays_type_error_witness:
  "\<exists>e w1. quote (shop_host (\<lambda>s. persist_event STUB_DIR)) (VDict [field ''items'' (VList [VDict []])])
      (snd (before_sim (flask_in ''record'') (blank_world (\<lambda>_. None) ()))) = (Inl e, w1) \<and>
    fst (quote (shop_host (\<lambda>s. persist_event STUB_DIR)) (VDict [field ''items'' (VList [VDict []])])
      (snd (before_sim (flask_in ''replay'') ((blank_world (\<lambda>_. None) ())\<lparr>files := files w1\<rparr>)))) =
      Inl (TypeErr (''argument of type '' @ str_repr ''NoneType'' @ '' is not iterable''))"
proof -
  let ?h = "shop_host (\<lambda>s. persist_event STUB_DIR) :: unit host"
  let ?w = "snd (before_sim (flask_in ''record'') (blank_world (\<lambda>_. None) ()))"
  let ?items = "VList [VDict []]"
  let ?data = "VDict [field ''items'' ?items]"
  have start: "before_sim (flask_in ''record'') (blank_world (\<lambda>_. None) ()) = (Inr (), ?w)"
    by (rule flask_starts [OF _ flask_modes(1)]) simp
  have asks: "asks_for ?data (VInt 1) ?items" by (simp add: asks_for_def get_default_def)
  obtain r where w: "recording_in r ?w" "ordinals_at ?w r = (\<lambda>fp. 0)"
    by (rule before_recording [OF start flask_modes(1,2)])
  obtain res w1 where call: "call_prog (ho_avro ?h) (ho_emit ?h) (quote_call ?h (VInt 1) ?items) ?w = (res, w1)"
    by fastforce
  obtain u w3 where "calculate_quote ?h (VInt 1) ?items u = (res, w3)"
    by (rule recorded_quote_call [OF w(1) _ w(2) call]) simp_all
  then have "res = Inl (UserExn ''KeyError'' (str_repr ''sku''))"
    by (auto simp: calculate_quote_def skus_of_def dict_item_def andthen_from_result)
  then obtain e where e: "res = Inl e" by blast
  have run: "quote ?h ?data ?w = (Inl e, w1)"
    unfolding quote_asked [OF asks] andthen_def call e by simp
  let ?v0 = "(blank_world (\<lambda>_. None) ())\<lparr>files := files w1\<rparr>"
  have again: "before_sim (flask_in ''replay'') ?v0 = (Inr (), snd (before_sim (flask_in ''replay'') ?v0))"
    by (rule flask_starts [OF _ flask_modes(3)]) simp
  have "fst (quote ?h ?data (snd (before_sim (flask_in ''replay'') ?v0))) =
      Inl (TypeErr (''argument of type '' @ str_repr ''NoneType'' @ '' is not iterable''))"
    by (rule failed_quote_replays_type_error [OF flask_modes(1-3) _ _ start asks run again]) simp_all
  with run show ?thesis by blast
qed



subsection \<open>The loop over the items\<close>

text \<open>One item by itself: the answer of a missing product, or its line total and its line.\<close>

definition line_of :: "arith \<Rightarrow> (pykey \<times> pyval) list \<Rightarrow> pyval \<Rightarrow> py_exn + (pyval + pyval \<times> pyval)" where
  "line_of ar pm item =
     ebind (py_getitem ar item (VStr ''sku'')) (\<lambda>sku. ebind (hash_key ar sku) (\<lambda>k.
       let product = (case dict_get pm k of None \<Rightarrow> VNone | Some p \<Rightarrow> p) in
       if \<not> truthy product then Inr (Inl (not_found sku))
       else
         ebind (line_total_of ar item product) (\<lambda>(qty, price, line_total).
         ebind (py_getitem ar product (VStr ''name'')) (\<lambda>name.
           Inr (Inr (line_total, VDict [field ''sku'' sku, field ''name'' name, field ''qty'' qty,
             field ''unit_price'' price, field ''line_total'' line_total]))))))"

fun add_all :: "arith \<Rightarrow> pyval \<Rightarrow> pyval list \<Rightarrow> py_exn + pyval" where
  "add_all ar s [] = Inr s"
| "add_all ar s (t # ts) = ebind (ar_add ar s t) (\<lambda>s'. add_all ar s' ts)"

abbreviation priced :: "arith \<Rightarrow> (pykey \<times> pyval) list \<Rightarrow> pyval list \<Rightarrow> (pyval \<times> pyval) list \<Rightarrow> bool" where
  "priced ar pm items rows \<equiv> list_all2 (\<lambda>item row. line_of ar pm item = Inr (Inr row)) items rows"

lemma quote_lines_Cons:
  "quote_lines ar pm (item # items) s ls = Inr x \<longleftrightarrow>
    (\<exists>v. line_of ar pm item = Inr (Inl v) \<and> x = Inl v) \<or>
    (\<exists>t l s'. line_of ar pm item = Inr (Inr (t, l)) \<and> ar_add ar s t = Inr s' \<and>
      quote_lines ar pm items s' (ls @ [l]) = Inr x)"
proof (cases "py_getitem ar item (VStr ''sku'')")
  case sku: (Inr sku)
  show ?thesis
  proof (cases "hash_key ar sku")
    case (Inr k)
    then show ?thesis
      by (cases "truthy (case dict_get pm k of None \<Rightarrow> VNone | Some p \<Rightarrow> p)")
        (auto simp: sku line_of_def ebind_Inr Let_def)
  qed (simp add: sku line_of_def)
qed (simp add: line_of_def)

lemma quote_lines_all:
  "quote_lines ar pm items s ls = Inr (Inr (ls', s')) \<longleftrightarrow>
    (\<exists>rows. priced ar pm items rows \<and> add_all ar s (map fst rows) = Inr s' \<and> ls' = ls @ map snd rows)"
proof (induction items arbitrary: s ls)
  case Nil
  then show ?case by auto
next
  case (Cons item items)
  show ?case
    unfolding quote_lines_Cons Cons.IH by (fastforce simp: list_all2_Cons1 ebind_Inr)
qed

lemma quote_lines_missing:
  "quote_lines ar pm items s ls = Inr (Inl v) \<longleftrightarrow>
    (\<exists>before item after rows s'. items = before @ item # after \<and> priced ar pm before rows \<and>
      add_all ar s (map fst rows) = Inr s' \<and> line_of ar pm item = Inr (Inl v))" (is "_ \<longleftrightarrow> ?missing items s")
proof (induction items arbitrary: s ls)
  case Nil
  then show ?case by auto
next
  case (Cons item items)
  have "?missing (item # items) s \<longleftrightarrow> line_of ar pm item = Inr (Inl v) \<or>
      (\<exists>t l s'. line_of ar pm item = Inr (Inr (t, l)) \<and> ar_add ar s t = Inr s' \<and> ?missing items s')"
    (is "?lhs \<longleftrightarrow> ?now \<or> ?later")
  proof
    assume ?lhs
    then obtain before it after rows s' where m: "item # items = before @ it # after" "priced ar pm before rows"
      "add_all ar s (map fst rows) = Inr s'" "line_of ar pm it = Inr (Inl v)" by blast
    show "?now \<or> ?later"
    proof (cases before)
      case Nil
      then show ?thesis using m by simp
    next
      case (Cons b bs)
      then obtain r rs where "rows = r # rs" using m(2) by (auto simp: list_all2_Cons1)
      then show ?thesis using m Cons by (cases r) (fastforce simp: ebind_Inr)
    qed
  next
    assume "?now \<or> ?later"
    then show ?lhs
    proof
      assume ?now
      then show ?lhs by (intro exI [of _ "[]"] exI [of _ item] exI [of _ items] exI [of _ "[]"] exI [of _ s]) simp
    next
      assume ?later
      then obtain t l s' before it after rows s'' where "line_of ar pm item = Inr (Inr (t, l))" "ar_add ar s t = Inr s'"
        "items = before @ it # after" "priced ar pm before rows" "add_all ar s' (map fst rows) = Inr s''"
        "line_of ar pm it = Inr (Inl v)" by blast
      then show ?lhs
        by (intro exI [of _ "item # before"] exI [of _ it] exI [of _ after] exI [of _ "(t, l) # rows"] exI [of _ s'']) simp
    qed
  qed
  then show ?case unfolding quote_lines_Cons Cons.IH by blast
qed

text \<open>
  The loop prices every item or stops at the first one it cannot. It ends with all lines in the order of
  the items and the sum of their totals if and only if every item has its line; it returns the error
  of an item if and only if the product of that item is not found and all items before it have
  their lines.
\<close>

theorem quote_loop_spec:
  "(quote_lines ar pm items (VFloat ''0.0'') [] = Inr (Inr (line_items, subtotal)) \<longleftrightarrow>
     (\<exists>rows. priced ar pm items rows \<and> line_items = map snd rows \<and>
        add_all ar (VFloat ''0.0'') (map fst rows) = Inr subtotal)) \<and>
   (quote_lines ar pm items (VFloat ''0.0'') [] = Inr (Inl answer) \<longleftrightarrow>
     (\<exists>before item after rows s. items = before @ item # after \<and> priced ar pm before rows \<and>
        add_all ar (VFloat ''0.0'') (map fst rows) = Inr s \<and> line_of ar pm item = Inr (Inl answer)))"
  unfolding quote_lines_all quote_lines_missing by auto

subsection \<open>Off mode\<close>

text \<open>\<open>calculate_quote\<close> without the SDK: the queries go to the database and the block runs.\<close>

definition plain_query :: "'a host \<Rightarrow> query \<Rightarrow> ('a, pyval) prog" where
  "plain_query h q = sqlite_db (ho_db h) (q_method q) [VStr (q_sql q), q_param_value q] []"

definition plain_quote :: "'a host \<Rightarrow> pyval \<Rightarrow> pyval \<Rightarrow> ('a, pyval) prog" where
  "plain_quote h user_id items =
     (let ar = ho_arith h in
      andthen (from_result (skus_of ar items)) (\<lambda>skus.
      andthen (plain_query h (products_query skus)) (\<lambda>products.
      andthen (from_result (product_map ar products)) (\<lambda>pm.
      andthen (from_result (ebind (py_iter items) (\<lambda>xs. quote_lines ar pm xs (VFloat ''0.0'') []))) (\<lambda>looped.
        case looped of
          Inl early \<Rightarrow> ret early
        | Inr (line_items, subtotal) \<Rightarrow>
            andthen (plain_query h (users_query user_id)) (\<lambda>rows.
            andthen (from_result (tax_info_of ar rows)) (\<lambda>tax_info.
            andthen (from_result (totals_of ar subtotal tax_info)) (\<lambda>totals.
            andthen new_quote_id (\<lambda>quote_id.
            andthen (plain_query h (insert_quote [VStr quote_id, user_id, subtotal, fst totals, snd totals])) (\<lambda>_.
              from_result (quote_answer ar quote_id user_id line_items subtotal tax_info (fst totals) (snd totals))))))))))))"

text \<open>Two computations that agree in off mode and leave the simulation state as it is.\<close>

definition off_in :: "nat \<Rightarrow> sim_context list \<Rightarrow> (path \<Rightarrow> json option) \<Rightarrow> 'a world \<Rightarrow> bool" where
  "off_in r cs fs w \<longleftrightarrow> contexts w = cs \<and> current w = Some r \<and> files w = fs \<and> mode (cs ! r) = OFF"

definition agree :: "('a world \<Rightarrow> bool) \<Rightarrow> ('a, 'r) prog \<Rightarrow> ('a, 'r) prog \<Rightarrow> bool" where
  "agree P m m' \<longleftrightarrow> (\<forall>w. P w \<longrightarrow> m w = m' w \<and> P (snd (m w)))"

lemma agree_andthen:
  assumes "agree P m m'" "\<And>x. agree P (f x) (f' x)"
  shows "agree P (andthen m f) (andthen m' f')"
  using assms unfolding agree_def andthen_def
  by (auto split: prod.split sum.split) (metis snd_conv prod.inject sum.inject(2))+

lemma agree_quiet: "quiet m \<Longrightarrow> agree (off_in r cs fs) m m"
  by (simp add: agree_def off_in_def quiet_def)

lemma agree_same: "agree P m m' \<Longrightarrow> (\<And>w. P w \<Longrightarrow> m0 w = m w) \<Longrightarrow> agree P m0 m'"
  unfolding agree_def by metis

lemma off_context: "off_in r cs fs w \<Longrightarrow> get_context w = (r, w) \<and> mode (ctx_at w r) = OFF"
  by (auto simp: off_in_def ctx_at_def)

lemma agree_query:
  assumes "q_params q = Some v" "q_args q = []" "q_kwargs q = []"
  shows "agree (off_in r cs fs) (sdk_query h q) (plain_query h q)"
proof -
  have "sdk_query h q w = plain_query h q w" if "off_in r cs fs w" for w
    using off_context [OF that]
    by (simp add: sdk_query_def plain_query_def assms db_off_is_passthrough)
  moreover have "quiet (plain_query h q)"
    using quiet_sqlite_db [of "ho_db h"] by (simp add: plain_query_def quiet_db_def)
  ultimately show ?thesis
    using agree_quiet [of "plain_query h q" r cs fs] by (simp add: agree_def)
qed

lemma agree_tax:
  "agree (off_in r cs fs) (tax_service h user_id)
     (andthen (plain_query h (users_query user_id)) (\<lambda>rows. from_result (tax_info_of (ho_arith h) rows)))"
proof -
  let ?dep = "\<lambda>m. andthen m (\<lambda>rows. from_result (tax_info_of (ho_arith h) rows))"
  let ?sdk = "?dep (sdk_query h (users_query user_id))"
  have same: "tax_service h user_id w = ?sdk w" if off: "off_in r cs fs w" for w
  proof -
    obtain hd where "h_replaying hd = False" "tax_service h user_id w =
        (let (x, h', w') = captured_block ?sdk hd w in (x, w'))"
      using capture_off_is_passthrough [of w r w "ho_emit h" "''tax_service''" "captured_block ?sdk"]
        off_context [OF off] unfolding tax_service_def by blast
    then show ?thesis
      by (simp add: captured_block_def handle_result_def set_result_def split: prod.split sum.split)
  qed
  have sdk: "agree (off_in r cs fs) ?sdk (?dep (plain_query h (users_query user_id)))"
    by (intro agree_andthen agree_query agree_quiet) (simp_all add: users_query_def)
  show ?thesis by (rule agree_same [OF sdk same])
qed

lemma andthen_assoc: "andthen (andthen m f) g = andthen m (\<lambda>x. andthen (f x) g)"
  by (simp add: fun_eq_iff andthen_def split: prod.split sum.split)

lemma agree_calculate_quote:
  "agree (off_in r cs fs) (calculate_quote h user_id items) (plain_quote h user_id items)"
proof -
  have "agree (off_in r cs fs) (finish_quote h user_id line_items subtotal)
     (andthen (plain_query h (users_query user_id)) (\<lambda>rows.
      andthen (from_result (tax_info_of (ho_arith h) rows)) (\<lambda>tax_info.
      andthen (from_result (totals_of (ho_arith h) subtotal tax_info)) (\<lambda>totals.
      andthen new_quote_id (\<lambda>quote_id.
      andthen (plain_query h (insert_quote [VStr quote_id, user_id, subtotal, fst totals, snd totals])) (\<lambda>_.
        from_result (quote_answer (ho_arith h) quote_id user_id line_items subtotal tax_info (fst totals) (snd totals))))))))"
    for line_items subtotal
    unfolding finish_quote_def Let_def andthen_assoc [symmetric, of "plain_query h (users_query user_id)"]
    by (intro agree_andthen agree_tax agree_query agree_quiet) (simp_all add: insert_quote_def)
  then show ?thesis
    unfolding calculate_quote_def plain_quote_def Let_def
    by (intro agree_andthen agree_query agree_quiet)
      (auto simp: products_query_def intro: agree_quiet split: sum.split)
qed

text \<open>
  C23: with the simulation off the application is what it is without the SDK. A request that asks for a
  quote runs its queries on the database and its block directly, in the same order and with the same
  answer or exception; no context, ordinal, stub or fixture changes.
\<close>

theorem quote_off_is_plain:
  assumes "fm_mode_str m = ''off''" "before_sim m w0 = (Inr (), w)" "asks_for data user_id items"
  shows "quote h data w = andthen (plain_quote h user_id items) answer_quote w \<and>
    files (snd (quote h data w)) = files w0 \<and> contexts (snd (quote h data w)) = contexts w"
proof -
  obtain r where r: "current w = Some r" "mode (ctx_at w r) = OFF" "files w = files w0"
    by (rule before_sim_context [OF assms(2)]) (use assms(1) mode_values in auto)
  let ?P = "off_in r (contexts w) (files w)"
  let ?call = "call_prog (ho_avro h) (ho_emit h) (quote_call h user_id items)"
  have P: "?P w" using r by (simp add: off_in_def ctx_at_def)
  have "?call u = calculate_quote h user_id items u" if "?P u" for u
    using off_context [OF that] quote_call_facts(3) [of h user_id items] by (simp add: off_is_passthrough)
  from agree_calculate_quote this have "agree ?P ?call (plain_quote h user_id items)" by (rule agree_same)
  then have "agree ?P (quote h data) (andthen (plain_quote h user_id items) answer_quote)"
    unfolding quote_asked [OF assms(3)] by (rule agree_andthen) (rule agree_quiet [OF quiet_answer_quote])
  with P have "quote h data w = andthen (plain_quote h user_id items) answer_quote w" "?P (snd (quote h data w))"
    unfolding agree_def by blast+
  then show ?thesis using r(3) by (simp add: off_in_def)
qed

theorem quote_off_is_plain_witness:
  "fst (quote (shop_host (\<lambda>s e. raise (UserExn ''Offline'' []))) shop_data
     (snd (before_sim (flask_in ''off'') (blank_world (\<lambda>_. None) ())))) = Inr (200, shop_answer ''00000000'')"
proof -
  let ?h = "shop_host (\<lambda>s e. raise (UserExn ''Offline'' [])) :: unit host"
  let ?w = "snd (before_sim (flask_in ''off'') (blank_world (\<lambda>_. None) ()))"
  have start: "before_sim (flask_in ''off'') (blank_world (\<lambda>_. None) ()) = (Inr (), ?w)"
    by (rule flask_starts [OF _ flask_modes(4)]) simp
  have uuid: "uuid_at ?w = (\<lambda>_. ''00000000-0000'')"
    by (simp add: before_sim_def flask_modes mode_values new_ctx_def start_new_request_def set_context_def set_ctx_def
        blank_world_def Let_def)
  have q: "plain_query ?h q u = (Inr (shop_result (q_method q)), u)"
    if "q_params q = Some (VList ps)" "q_method q \<in> {''query'', ''execute''}" for q ps u
    using that by (auto simp: plain_query_def sqlite_db_def sqlite_query_def sqlite_execute_def shop_def in_app_def
        andthen_def from_result_def ret_def row_dict_def shop_row_def shop_result_def Let_def)
  have "fst (plain_quote ?h (VInt 1) shop_items ?w) = Inr (shop_answer ''00000000'')"
    by (simp add: plain_quote_def shop_items_def skus_of_def andthen_def from_result_def q products_query_def
        users_query_def insert_quote_def shop_result_def product_map_def shop_row_def dict_item_def whole_arith_def
        line_total_of_def get_default_def tax_info_of_def index_list_def tax_rates_def totals_of_def new_quote_id_def
        quote_answer_def shop_answer_def uuid Let_def)
  then obtain u where "plain_quote ?h (VInt 1) shop_items ?w = (Inr (shop_answer ''00000000''), u)"
    by (metis prod.collapse)
  moreover have "answer_quote (shop_answer i) u = (Inr (200, shop_answer i), u)" for i and u :: "unit world"
    using answer_quote_known [of "shop_answer i" False u] by (simp add: shop_answer_def)
  ultimately show ?thesis
    using quote_off_is_plain [OF flask_modes(4) start shop_asks, of ?h] by (simp add: andthen_def)
qed

end
