(* ===== verification/Isolated.thy ===== *)
theory Isolated
  imports Flask_Replay
begin

text \<open>
  What the SDK promises to other threads: a computation is \<open>isolated\<close> if it touches no context but the
  current one and those it makes. Every operation (sim_sdk/context.py, trace.py, capture.py, db.py) is
  isolated if what it is given is, down to a request of the example.
\<close>

subsection \<open>Private computations\<close>

text \<open>
  Seen from a point where there are \<open>n\<close> contexts and \<open>c\<close> is current: which references are the
  computation's own, and what it may change.
\<close>

definition own_ref :: "nat \<Rightarrow> nat option \<Rightarrow> 'a world \<Rightarrow> nat \<Rightarrow> bool" where
  "own_ref n c w r \<longleftrightarrow> (c = Some r \<or> n \<le> r) \<and> valid_ref w r"

definition at_home :: "nat \<Rightarrow> nat option \<Rightarrow> 'a world \<Rightarrow> bool" where
  "at_home n c w \<longleftrightarrow> n \<le> length (contexts w) \<and> (\<forall>r. current w = Some r \<longrightarrow> own_ref n c w r)"

definition isolated_step :: "nat \<Rightarrow> nat option \<Rightarrow> 'a world \<Rightarrow> 'a world \<Rightarrow> bool" where
  "isolated_step n c w w' \<longleftrightarrow>
     length (contexts w) \<le> length (contexts w') \<and> (\<forall>r<n. c \<noteq> Some r \<longrightarrow> ctx_at w' r = ctx_at w r) \<and> at_home n c w'"

definition isolated :: "('a, 'r) prog \<Rightarrow> bool" where
  "isolated m \<longleftrightarrow> (\<forall>n c w. at_home n c w \<longrightarrow> isolated_step n c w (snd (m w)))"

lemma isolatedI: "(\<And>n c w. at_home n c w \<Longrightarrow> isolated_step n c w (snd (m w))) \<Longrightarrow> isolated m"
  by (simp add: isolated_def)

lemma isolatedD: "isolated m \<Longrightarrow> at_home n c w \<Longrightarrow> m w = (x, w') \<Longrightarrow> isolated_step n c w w'"
  by (metis isolated_def snd_conv)

lemma isolated_step_home: "isolated_step n c w w' \<Longrightarrow> at_home n c w'"
  by (simp add: isolated_step_def)

lemma isolated_step_refl: "at_home n c w \<Longrightarrow> isolated_step n c w w"
  by (simp add: isolated_step_def)

lemma isolated_step_trans: "isolated_step n c w w1 \<Longrightarrow> isolated_step n c w1 w2 \<Longrightarrow> isolated_step n c w w2"
  by (simp add: isolated_step_def)

lemma own_ref_step: "own_ref n c w r \<Longrightarrow> isolated_step n c w w' \<Longrightarrow> own_ref n c w' r"
  by (simp add: own_ref_def isolated_step_def valid_ref_def)

text \<open>The steps the SDK is made of.\<close>

lemma isolated_set_ctx: "at_home n c w \<Longrightarrow> own_ref n c w r \<Longrightarrow> isolated_step n c w (set_ctx r x w)"
  by (auto simp: isolated_step_def at_home_def own_ref_def valid_ref_def set_ctx_def ctx_at_def nth_list_update)

lemma isolated_same: "at_home n c w \<Longrightarrow> contexts w' = contexts w \<Longrightarrow> current w' = current w \<Longrightarrow> isolated_step n c w w'"
  by (simp add: isolated_step_def at_home_def own_ref_def valid_ref_def ctx_at_def)

lemma isolated_new_ctx:
  assumes "at_home n c w"
  shows "isolated_step n c w (snd (new_ctx x w))" "own_ref n c (snd (new_ctx x w)) (fst (new_ctx x w))"
  using assms by (auto simp: isolated_step_def at_home_def own_ref_def valid_ref_def new_ctx_def ctx_at_def nth_append)

lemma isolated_set_context: "at_home n c w \<Longrightarrow> own_ref n c w r \<Longrightarrow> isolated_step n c w (set_context r w)"
  by (simp add: isolated_step_def at_home_def own_ref_def set_context_def)

lemma isolated_clear_context: "at_home n c w \<Longrightarrow> isolated_step n c w (clear_context w)"
  by (simp add: isolated_step_def at_home_def own_ref_def clear_context_def)

lemma isolated_get_context:
  assumes "at_home n c w" "get_context w = (r, w')"
  shows "isolated_step n c w w' \<and> own_ref n c w' r"
proof (cases "current w")
  case None
  obtain x w1 where x: "create_context_from_env w = (x, w1)" by fastforce
  have w1: "isolated_step n c w w1"
    using isolated_same [OF assms(1)] create_context_frame(2) [OF x] by simp
  have r: "r = fst (new_ctx x w1)" "w' = set_context r (snd (new_ctx x w1))"
    using assms(2) None by (auto simp: get_context_def x new_ctx_def set_context_def)
  note new = isolated_new_ctx [OF isolated_step_home [OF w1], of x]
  have "isolated_step n c (snd (new_ctx x w1)) w'" "own_ref n c (snd (new_ctx x w1)) r"
    using isolated_set_context [OF isolated_step_home [OF new(1)] new(2)] new(2) by (simp_all add: r)
  then show ?thesis using isolated_step_trans [OF w1 isolated_step_trans [OF new(1)]] own_ref_step by blast
next
  case (Some s)
  then show ?thesis using assms by (simp add: get_context_def isolated_step_refl at_home_def)
qed

lemma isolated_next_ordinal: "at_home n c w \<Longrightarrow> own_ref n c w r \<Longrightarrow> isolated_step n c w (snd (next_ordinal_at r k w))"
  by (simp add: next_ordinal_at_def case_prod_unfold Let_def isolated_set_ctx)

lemma isolated_push_stub: "at_home n c w \<Longrightarrow> own_ref n c w r \<Longrightarrow> isolated_step n c w (push_stub r s w)"
  by (simp add: push_stub_def isolated_set_ctx)

lemma isolated_enter_trace: "at_home n c w \<Longrightarrow> own_ref n c w r \<Longrightarrow> isolated_step n c w (enter_trace r w)"
  by (simp add: enter_trace_def isolated_set_ctx)

lemma isolated_pop_trace: "at_home n c w \<Longrightarrow> own_ref n c w r \<Longrightarrow> isolated_step n c w (snd (pop_trace r k w))"
  by (simp add: pop_trace_def Let_def isolated_set_ctx)

lemma isolated_keeps: "keeps_contexts m \<Longrightarrow> isolated m"
  by (simp add: isolated_def keeps_contexts_def isolated_same)

lemma isolated_quiet: "quiet m \<Longrightarrow> isolated m"
  by (simp add: isolated_def quiet_def isolated_same)

lemma isolated_andthen: "isolated m \<Longrightarrow> (\<And>x. isolated (f x)) \<Longrightarrow> isolated (andthen m f)"
proof (rule isolatedI)
  fix n c and w :: "'a world" assume m: "isolated m" "\<And>x. isolated (f x)" and w: "at_home n c w"
  obtain x w1 where x: "m w = (x, w1)" by fastforce
  have one: "isolated_step n c w w1" by (rule isolatedD [OF m(1) w x])
  show "isolated_step n c w (snd (andthen m f w))"
  proof (cases x)
    case (Inr y)
    then show ?thesis
      using isolated_step_trans [OF one isolatedD [OF m(2) isolated_step_home [OF one] surjective_pairing]]
      by (simp add: andthen_def x)
  qed (use one in \<open>simp add: andthen_def x\<close>)
qed

subsection \<open>The operations of the SDK are isolated\<close>

lemma isolated_emit_record:
  assumes "\<And>s e. keeps_contexts (emit s e)" "at_home n c w" "own_ref n c w r"
  shows "isolated_step n c w (snd (emit_record has_avro emit q r args_data fp k out err us inner w))"
proof -
  obtain fid date ofp where e: "emit_record has_avro emit q r args_data fp k out err us inner w =
    (case deliver emit r (trace_event fid q (run_id (ctx_at w r)) date args_data fp
            (make_serializable out) ofp inner us err k) (w\<lparr>ticks := ticks w + 2\<rparr>) of
       (Inl e, w3) \<Rightarrow> (Inl e, w3)
     | (Inr _, w3) \<Rightarrow> (Inr (), if trace_depth (ctx_at w3 r) > 0
          then push_stub r (trace_stub q args_data (make_serializable out) ''record'') w3 else w3))"
    using emit_record_steps by blast
  obtain x w3 where d: "deliver emit r (trace_event fid q (run_id (ctx_at w r)) date args_data fp
            (make_serializable out) ofp inner us err k) (w\<lparr>ticks := ticks w + 2\<rparr>) = (x, w3)" by fastforce
  have w3: "isolated_step n c w w3"
    using keeps_contextsD [OF deliver_keeps [OF assms(1)] d] by (intro isolated_same [OF assms(2)]) simp_all
  have "isolated_step n c w3 (push_stub r s w3)" for s
    by (rule isolated_push_stub [OF isolated_step_home [OF w3] own_ref_step [OF assms(3) w3]])
  then have "isolated_step n c w (push_stub r s w3)" for s using w3 isolated_step_trans by blast
  then show ?thesis using w3 unfolding e d by (simp split: sum.split)
qed

lemma isolated_record_call:
  assumes "isolated m" "\<And>s e. keeps_contexts (emit s e)" "at_home n c w" "own_ref n c w r"
  shows "isolated_step n c w (snd (record_call has_avro emit q r args_data fp k m w))"
proof -
  let ?w1 = "enter_trace r w"
  let ?w2 = "?w1\<lparr>ticks := Suc (ticks w)\<rparr>"
  obtain x w3 where m: "m ?w2 = (x, w3)" by fastforce
  let ?w4 = "w3\<lparr>ticks := Suc (ticks w3)\<rparr>"
  have 1: "isolated_step n c w ?w1" by (rule isolated_enter_trace [OF assms(3,4)])
  have 2: "isolated_step n c ?w1 ?w2" by (rule isolated_same [OF isolated_step_home [OF 1]]) simp_all
  have 3: "isolated_step n c ?w2 w3" by (rule isolatedD [OF assms(1) isolated_step_home [OF 2] m])
  have 4: "isolated_step n c w3 ?w4" by (rule isolated_same [OF isolated_step_home [OF 3]]) simp_all
  have w4: "isolated_step n c w ?w4" using 1 2 3 4 isolated_step_trans by blast
  have 5: "isolated_step n c ?w4 (snd (pop_trace r k ?w4))" for k
    by (rule isolated_pop_trace [OF isolated_step_home [OF w4] own_ref_step [OF assms(4) w4]])
  have w5: "isolated_step n c w (snd (pop_trace r k ?w4))" for k using w4 5 isolated_step_trans by blast
  have 6: "isolated_step n c w (snd (emit_record has_avro emit q r args_data fp k out err us inner (snd (pop_trace r l ?w4))))"
    for out err us inner l
    using isolated_step_trans [OF w5 isolated_emit_record [OF assms(2) isolated_step_home [OF w5] own_ref_step [OF assms(4) w5]]] .
  show ?thesis
    using 6 by (simp add: record_call_def leave_trace_def m case_prod_unfold Let_def)
qed

lemma isolated_sim_trace:
  assumes "isolated (body f args kwargs)" "\<And>s e. keeps_contexts (emit s e)"
  shows "isolated (sim_trace has_avro emit name f args kwargs)"
proof (rule isolatedI)
  fix n c and w :: "'a world" assume w: "at_home n c w"
  obtain r w0 where g: "get_context w = (r, w0)" by fastforce
  have w0: "isolated_step n c w w0" "own_ref n c w0 r" using isolated_get_context [OF w g] by simp_all
  note home = isolated_step_home [OF w0(1)]
  show "isolated_step n c w (snd (sim_trace has_avro emit name f args kwargs w))"
  proof (cases "is_active (ctx_at w0 r)")
    case False
    then show ?thesis
      using isolated_step_trans [OF w0(1) isolatedD [OF assms(1) home surjective_pairing]]
      by (simp add: sim_trace_def g)
  next
    case True
    obtain x w1 where p: "prepare_call has_avro (signature f) (traced_name name f) args kwargs r w0 = (x, w1)"
      by fastforce
    have w1: "isolated_step n c w0 w1"
      using p isolated_step_refl [OF home] isolated_next_ordinal [OF home w0(2)]
      by (auto simp: prepare_call_def case_prod_unfold Let_def split: sum.splits)
    note own = own_ref_step [OF w0(2) w1] and home1 = isolated_step_home [OF w1]
    have rep: "isolated_step n c w1 (snd (replay q fp k a r w1))" for q fp k a
      using isolated_step_refl [OF home1] isolated_push_stub [OF home1 own]
      by (simp add: replay_def Let_def split: option.split)
    have "isolated_step n c w1 (snd (sim_trace has_avro emit name f args kwargs w))"
      using rep isolated_step_refl [OF home1] isolated_record_call [OF assms(1) _ home1 own, of emit] assms(2)
      by (simp add: sim_trace_def g p True Let_def split: sum.split prod.split)
    then show ?thesis using w0(1) w1 isolated_step_trans by blast
  qed
qed

lemma isolated_write_capture:
  assumes "\<And>s e. keeps_contexts (emit s e)"
  shows "isolated (write_capture emit label k v r)"
proof -
  have "keeps_contexts (write_capture emit label k v r)"
    using assms by (auto simp: keeps_contexts_def write_capture_def dump_file_def Let_def split: option.split sum.split)
  then show ?thesis by (rule isolated_keeps)
qed

lemma isolated_capture_setup:
  assumes w: "at_home n c w" and run: "capture_setup (sim_capture_init label) w = (x, w')"
  shows "isolated_step n c w w' \<and> (\<forall>h cap. x = Inr (h, cap) \<longrightarrow> (\<exists>r. cap_ctx cap = Some r \<and> own_ref n c w' r))"
proof -
  obtain r w0 where g: "get_context w = (r, w0)" by fastforce
  have w0: "isolated_step n c w w0" "own_ref n c w0 r" using isolated_get_context [OF w g] by simp_all
  let ?w1 = "snd (next_ordinal_at r (capture_name label) w0)"
  have w1: "isolated_step n c w0 ?w1" by (rule isolated_next_ordinal [OF isolated_step_home [OF w0(1)] w0(2)])
  have "w' = w0 \<or> w' = ?w1" "\<forall>h cap. x = Inr (h, cap) \<longrightarrow> cap_ctx cap = Some r"
    using run by (auto simp: capture_setup_def g sim_capture_init_def case_prod_unfold Let_def split: if_splits sum.splits)
  then show ?thesis
    using isolated_step_trans [OF w0(1) w1] w0 own_ref_step [OF w0(2) w1] by blast
qed

lemma isolated_capture_teardown:
  assumes "\<And>s e. keeps_contexts (emit s e)" "at_home n c w" "cap_ctx cap = Some r" "own_ref n c w r"
  shows "isolated_step n c w (snd (capture_teardown emit cap h w))"
proof -
  let ?w1 = "if h_result_set h then w else add_log (NoResultWarning (cap_label cap)) w"
  have 1: "isolated_step n c w ?w1" by (rule isolated_same [OF assms(2)]) simp_all
  have push: "isolated_step n c w (push_stub r s ?w1)" for s
    using isolated_step_trans [OF 1 isolated_push_stub [OF isolated_step_home [OF 1] own_ref_step [OF assms(4) 1]]] .
  have "isolated_step n c w (snd (write_capture emit l k v r (push_stub r s ?w1)))" for l k v s
    using isolated_step_trans [OF push isolatedD [OF isolated_write_capture [OF assms(1)] isolated_step_home [OF push]
          surjective_pairing]] .
  then show ?thesis
    using isolated_step_refl [OF assms(2)] isolated_push_stub [OF assms(2,4)]
    by (simp add: capture_teardown_def assms(3) Let_def)
qed

lemma isolated_with_capture:
  assumes "\<And>h. isolated (\<lambda>w. case block h w of (x, h', w') \<Rightarrow> (x, w'))" "\<And>s e. keeps_contexts (emit s e)"
  shows "isolated (with_capture emit label block)"
proof (rule isolatedI)
  fix n c and w :: "'a world" assume w: "at_home n c w"
  obtain x w1 where s: "capture_setup (sim_capture_init label) w = (x, w1)" by fastforce
  note entry = isolated_capture_setup [OF w s]
  show "isolated_step n c w (snd (with_capture emit label block w))"
  proof (cases x)
    case (Inl e)
    then show ?thesis using entry by (simp add: with_capture_def s)
  next
    case (Inr p)
    obtain h cap where p: "p = (h, cap)" by fastforce
    obtain r where r: "cap_ctx cap = Some r" "own_ref n c w1 r" using entry by (auto simp: Inr p)
    obtain y h' w2 where b: "block h w1 = (y, h', w2)" using prod_cases3 by blast
    have w1: "isolated_step n c w w1" using entry by simp
    have w2: "isolated_step n c w1 w2"
      by (rule isolatedD [OF assms(1) [of h] isolated_step_home [OF w1], of y]) (simp add: b)
    have w3: "isolated_step n c w2 (snd (capture_teardown emit cap h' w2))"
      by (rule isolated_capture_teardown [OF assms(2) isolated_step_home [OF w2] r(1) own_ref_step [OF r(2) w2]])
    show ?thesis
      using isolated_step_trans [OF w1 isolated_step_trans [OF w2 w3]]
      by (simp add: with_capture_def s Inr p b case_prod_unfold Let_def)
  qed
qed

lemma isolated_captured_block:
  assumes "isolated dep"
  shows "isolated (\<lambda>w. case captured_block dep h w of (x, h', w') \<Rightarrow> (x, w'))"
proof -
  have "snd (case captured_block dep h w of (x, h', w') \<Rightarrow> (x, w')) = (if h_replaying h then w else snd (dep w))" for w
    by (simp add: captured_block_def split: prod.split sum.split)
  then show ?thesis using assms isolated_step_refl by (auto simp: isolated_def)
qed

lemma isolated_replayed_query:
  assumes "at_home n c w" "own_ref n c w r"
  shows "isolated_step n c w (snd (db_replay_call sql fp pfp k name r w))"
  using isolated_step_refl [OF assms(1)] isolated_push_stub [OF assms]
  by (simp add: db_replay_call_def Let_def split: option.split)

lemma isolated_recorded_query:
  assumes "isolated (real_call db meth sql params args kwargs)" "\<And>s e. keeps_contexts (emit s e)"
    and "at_home n c w" "own_ref n c w r"
  shows "isolated_step n c w
    (snd (snd (db_record_call emit db meth sql params fp pfp k name r args kwargs p w)))"
proof -
  obtain x w1 where real: "real_call db meth sql params args kwargs w = (x, w1)" by fastforce
  have 1: "isolated_step n c w w1" by (rule isolatedD [OF assms(1,3) real])
  have fixture: "isolated (write_db_fixture emit name sql params fp pfp k v r)" for v
  proof (rule isolated_keeps)
    show "keeps_contexts (write_db_fixture emit name sql params fp pfp k v r)"
      using assms(2) by (auto simp: keeps_contexts_def write_db_fixture_def dump_file_def Let_def
          split: option.split sum.split)
  qed
  show ?thesis
  proof (cases x)
    case (Inl e)
    then show ?thesis using 1 by (simp add: db_record_call_def real)
  next
    case (Inr v)
    obtain y w2 where f: "write_db_fixture emit name sql params fp pfp k v r w1 = (y, w2)" by fastforce
    have 2: "isolated_step n c w w2"
      by (rule isolated_step_trans [OF 1 isolatedD [OF fixture isolated_step_home [OF 1] f]])
    have "isolated_step n c w (push_stub r s w2)" for s
      using isolated_step_trans [OF 2 isolated_push_stub [OF isolated_step_home [OF 2] own_ref_step [OF assms(4) 2]]] .
    then show ?thesis using 2 by (simp add: db_record_call_def real Inr f split: sum.split)
  qed
qed

lemma isolated_intercept:
  assumes "\<And>meth args kwargs. isolated (db meth args kwargs)" "\<And>s e. keeps_contexts (emit s e)"
    and "at_home n c w" "own_ref n c w (proxy_ctx p)"
  shows "isolated_step n c w (snd (snd (intercept_call has_avro sqlparse emit db meth sql params args kwargs p w)))"
proof -
  have real: "isolated (real_call db meth sql params args kwargs)"
    using assms(1) by (simp add: real_call_def)
  have 1: "isolated_step n c w (snd (next_ordinal_at (proxy_ctx p) k w))" for k
    by (rule isolated_next_ordinal [OF assms(3,4)])
  note home = isolated_step_home [OF 1] and own = own_ref_step [OF assms(4) 1]
  note later = isolated_step_trans [OF 1 isolated_replayed_query [OF home own]]
    isolated_step_trans [OF 1 isolated_recorded_query [OF real _ home own, of emit]]
    isolated_step_trans [OF 1 isolatedD [OF real home surjective_pairing]]
  show ?thesis
    using later assms(2) isolated_step_refl [OF assms(3)]
    by (simp add: intercept_call_def case_prod_unfold Let_def split: sum.split)
qed

lemma isolated_query:
  assumes "\<And>meth args kwargs. isolated (db meth args kwargs)" "\<And>s e. keeps_contexts (emit s e)"
  shows "isolated (query_prog has_avro sqlparse emit db q)"
proof (rule isolatedI)
  fix n c and w :: "'a world" assume w: "at_home n c w"
  obtain r w0 where g: "get_context w = (r, w0)" by fastforce
  have w0: "isolated_step n c w w0" "own_ref n c w0 r" using isolated_get_context [OF w g] by simp_all
  note home = isolated_step_home [OF w0(1)]
  have raw: "isolated_step n c w (snd (db meth args kwargs w0))" for meth args kwargs
    by (rule isolated_step_trans [OF w0(1) isolatedD [OF assms(1) home surjective_pairing]])
  have proxied: "isolated_step n c w (snd (snd (intercept_call has_avro sqlparse emit db meth sql params args kwargs
      (db_proxy_init name r) w0)))" for meth sql params args kwargs name
    by (rule isolated_step_trans [OF w0(1) isolated_intercept [OF assms home]]) (simp add: db_proxy_init_def w0(2))
  show "isolated_step n c w (snd (query_prog has_avro sqlparse emit db q w))"
    using raw proxied by (simp add: query_prog_def with_db_def sim_db_setup_def g db_call_def case_prod_unfold Let_def)
qed

lemma isolated_init_sim: "isolated (\<lambda>w. let (r, w') = init_sim m rid dir snk w in (Inr VNone, w'))"
proof (rule isolatedI)
  fix n c and w :: "'a world" assume w: "at_home n c w"
  obtain x w1 where x: "create_context_from_env w = (x, w1)" by fastforce
  have w1: "isolated_step n c w w1" using isolated_same [OF w] create_context_frame(2) [OF x] by simp
  note new = isolated_new_ctx [OF isolated_step_home [OF w1]]
  have "isolated_step n c w (set_context (fst (new_ctx y w1)) (snd (new_ctx y w1)))" for y
    using isolated_step_trans [OF w1 isolated_step_trans [OF new(1)
          isolated_set_context [OF isolated_step_home [OF new(1)] new(2)]]] .
  then show "isolated_step n c w (snd (let (r, w') = init_sim m rid dir snk w in (Inr VNone, w')))"
    by (simp add: init_sim_def x case_prod_unfold Let_def)
qed

subsection \<open>A request of the example\<close>

lemma isolated_before_sim: "isolated (before_sim m)"
proof (rule isolatedI)
  fix n c and w :: "'a world" assume w: "at_home n c w"
  have "isolated_step n c w (set_context (fst (new_ctx x w)) (snd (start_new_request (fst (new_ctx x w)) (snd (new_ctx x w)))))"
    for x
  proof -
    note new = isolated_new_ctx [OF w, of x]
    let ?r = "fst (new_ctx x w)" and ?w1 = "snd (new_ctx x w)"
    let ?w2 = "?w1\<lparr>ticks := Suc (ticks ?w1)\<rparr>"
    have 2: "isolated_step n c w ?w2"
      using isolated_step_trans [OF new(1) isolated_same [OF isolated_step_home [OF new(1)]]] by simp
    have own: "own_ref n c ?w2 ?r" using new(2) by (simp add: own_ref_def)
    have 3: "isolated_step n c ?w2 (set_ctx ?r y ?w2)" for y
      by (rule isolated_set_ctx [OF isolated_step_home [OF 2] own])
    note 23 = isolated_step_trans [OF 2 3]
    show ?thesis
      using isolated_step_trans [OF 23 isolated_set_context [OF isolated_step_home [OF 23] own_ref_step [OF own 3]]]
      by (simp add: start_new_request_def)
  qed
  then show "isolated_step n c w (snd (before_sim m w))"
    using isolated_step_refl [OF w] by (simp add: before_sim_def case_prod_unfold Let_def split: option.split)
qed

lemma isolated_after_sim: "isolated (\<lambda>w. let (x, w') = after_sim response w in (Inr x, w'))"
  by (simp add: isolated_def after_sim_def isolated_clear_context)

lemma isolated_sdk_query:
  assumes "\<And>s e. keeps_contexts (ho_emit h s e)"
  shows "isolated (sdk_query h q)"
  unfolding sdk_query_def
  by (rule isolated_query [OF isolated_quiet assms]) (use quiet_sqlite_db [of "ho_db h"] in \<open>simp add: quiet_db_def\<close>)

lemma isolated_calculate_quote:
  assumes "\<And>s e. keeps_contexts (ho_emit h s e)"
  shows "isolated (calculate_quote h user_id items)"
proof -
  have tax: "isolated (tax_service h user_id)"
    unfolding tax_service_def
    by (intro isolated_with_capture isolated_captured_block isolated_andthen isolated_sdk_query assms isolated_quiet) simp
  have "isolated (finish_quote h user_id line_items subtotal)" for line_items subtotal
    unfolding finish_quote_def Let_def
    by (intro isolated_andthen tax isolated_sdk_query assms) (simp_all add: isolated_quiet)
  then show ?thesis
    unfolding calculate_quote_def Let_def
    by (intro isolated_andthen isolated_sdk_query assms) (auto simp: isolated_quiet split: sum.split)
qed

lemma isolated_quote:
  assumes "\<And>s e. keeps_contexts (ho_emit h s e)"
  shows "isolated (quote h data)"
proof -
  have "isolated (body (quote_function h) args kwargs)" for args kwargs
    unfolding quote_function_def Let_def traced.simps
    by (intro isolated_andthen) (auto simp: isolated_quiet isolated_calculate_quote [OF assms] split: option.split)
  then have "isolated (call_prog (ho_avro h) (ho_emit h) (quote_call h user_id items))" for user_id items
    by (simp add: isolated_sim_trace assms)
  then show ?thesis
    unfolding quote_def
    by (auto intro!: isolated_andthen simp: isolated_quiet quiet_answer_quote simp del: call_prog.simps)
qed

subsection \<open>Programs that use the SDK\<close>

text \<open>
  What an application does in a thread, with a given sink: code of its own that leaves contexts alone, the
  primitives around such programs, new contexts and requests, sequences and handlers of exceptions,
  and the requests of the example.
\<close>

inductive sdk_program :: "(nat \<Rightarrow> fixture_event \<Rightarrow> ('a, unit) prog) \<Rightarrow> ('a, pyval) prog \<Rightarrow> bool" for emit where
  application: "quiet m \<Longrightarrow> sdk_program emit m"
| sequence: "sdk_program emit m \<Longrightarrow> (\<And>x. sdk_program emit (f x)) \<Longrightarrow> sdk_program emit (andthen m f)"
| handler: "sdk_program emit m \<Longrightarrow> (\<And>e. sdk_program emit (f e)) \<Longrightarrow>
    sdk_program emit (\<lambda>w. case m w of (Inl e, w') \<Rightarrow> f e w' | (Inr x, w') \<Rightarrow> (Inr x, w'))"
| traced: "sdk_program emit (body f args kwargs) \<Longrightarrow> sdk_program emit (sim_trace has_avro emit name f args kwargs)"
| captured: "sdk_program emit dep \<Longrightarrow> sdk_program emit (with_capture emit label (captured_block dep))"
| queries: "quiet_db db \<Longrightarrow> sdk_program emit (query_prog has_avro sqlparse emit db q)"
| starts_context: "sdk_program emit (\<lambda>w. let (r, w') = init_sim m rid dir snk w in (Inr VNone, w'))"
| starts_request: "sdk_program emit
    (\<lambda>w. let (r, w1) = get_context w; (u, w2) = start_new_request r w1 in (Inr (VStr u), w2))"
| clears_context: "sdk_program emit (\<lambda>w. (Inr VNone, clear_context w))"
| starts_serving: "sdk_program emit (andthen (before_sim m) (\<lambda>_. ret VNone))"
| serves: "ho_emit h = emit \<Longrightarrow> sdk_program emit (andthen (quote h data) (\<lambda>(code, answer). ret answer))"

lemma isolated_handler:
  assumes "isolated m" "\<And>e. isolated (f e)"
  shows "isolated (\<lambda>w. case m w of (Inl e, w') \<Rightarrow> f e w' | (Inr x, w') \<Rightarrow> (Inr x, w'))"
proof (rule isolatedI)
  fix n c and w :: "'a world" assume w: "at_home n c w"
  obtain x w1 where x: "m w = (x, w1)" by fastforce
  have one: "isolated_step n c w w1" by (rule isolatedD [OF assms(1) w x])
  have "isolated_step n c w (snd (f e w1))" for e
    by (rule isolated_step_trans [OF one isolatedD [OF assms(2) isolated_step_home [OF one] surjective_pairing]])
  then show "isolated_step n c w (snd (case m w of (Inl e, w') \<Rightarrow> f e w' | (Inr x, w') \<Rightarrow> (Inr x, w')))"
    using one by (simp add: x split: sum.split)
qed

lemma isolated_start_request:
  "isolated (\<lambda>w. let (r, w1) = get_context w; (u, w2) = start_new_request r w1 in (Inr (VStr u), w2))"
proof (rule isolatedI)
  fix n c and w :: "'a world" assume w: "at_home n c w"
  obtain r w1 where g: "get_context w = (r, w1)" by fastforce
  have w1: "isolated_step n c w w1" "own_ref n c w1 r" using isolated_get_context [OF w g] by simp_all
  let ?w2 = "w1\<lparr>ticks := Suc (ticks w1)\<rparr>"
  have 2: "isolated_step n c w1 ?w2" by (rule isolated_same [OF isolated_step_home [OF w1(1)]]) simp_all
  have "isolated_step n c ?w2 (set_ctx r x ?w2)" for x
    by (rule isolated_set_ctx [OF isolated_step_home [OF 2] own_ref_step [OF w1(2) 2]])
  note last = isolated_step_trans [OF w1(1) isolated_step_trans [OF 2 this]]
  show "isolated_step n c w (snd (let (r, w1) = get_context w; (u, w2) = start_new_request r w1 in (Inr (VStr u), w2)))"
    using last by (simp add: g start_new_request_def)
qed

lemma sdk_isolated:
  assumes "\<And>s e. keeps_contexts (emit s e)" "sdk_program emit m"
  shows "isolated m"
  using assms(2)
proof induction
  case (application m)
  then show ?case by (rule isolated_quiet)
next
  case (sequence m f)
  then show ?case by (intro isolated_andthen)
next
  case (handler m f)
  then show ?case by (intro isolated_handler)
next
  case (traced f args kwargs has_avro name)
  show ?case by (rule isolated_sim_trace [OF traced.IH assms(1)])
next
  case (captured dep label)
  then show ?case by (intro isolated_with_capture isolated_captured_block assms(1))
next
  case (queries db has_avro sqlparse q)
  then show ?case by (intro isolated_query isolated_quiet assms(1)) (simp add: quiet_db_def)
next
  case (starts_context m rid dir snk)
  show ?case by (rule isolated_init_sim)
next
  case starts_request
  show ?case by (rule isolated_start_request)
next
  case clears_context
  show ?case by (simp add: isolated_def isolated_clear_context)
next
  case (starts_serving m)
  show ?case by (intro isolated_andthen isolated_before_sim isolated_quiet) simp
next
  case (serves h data)
  then have "isolated (quote h data)" by (intro isolated_quote) (simp add: assms(1))
  then show ?case by (rule isolated_andthen) (simp add: isolated_quiet split: prod.split)
qed

end
