(* ===== verification/Tasks.thy ===== *)
theory Tasks
  imports Isolated
begin

text \<open>
  Threads and tasks, each with its own value of the context variable (sim_sdk/context.py).

  A \<open>ContextVar\<close> is empty in a new thread, and a task (or \<open>copy_context\<close>) starts with a copy of its
  creator's values. What is copied is the reference, so tasks share the \<open>SimContext\<close> their creator had.
  A step is what one of them does between two points where another may run.
\<close>

subsection \<open>Threads and tasks\<close>

text \<open>
  A world and the value of the context variable in each task. \<open>Draw\<close> is a step that asks for the next
  ordinal of a fingerprint, with the answer it got; \<open>Step\<close> is any other computation.
\<close>

type_synonym 'a tasks = "'a world \<times> nat option list"

datatype 'a task_action =
    StartThread
  | CreateTask nat
  | Draw nat string int
  | Step nat "('a, pyval) prog"

definition draw_ordinal :: "string \<Rightarrow> 'a world \<Rightarrow> int \<times> 'a world" where
  "draw_ordinal fp w = (let (r, w1) = get_context w in next_ordinal_at r fp w1)"

inductive task_step :: "'a task_action \<Rightarrow> 'a tasks \<Rightarrow> 'a tasks \<Rightarrow> bool" where
  starts: "task_step StartThread (w, vs) (w, vs @ [None])"
| creates: "i < length vs \<Longrightarrow> task_step (CreateTask i) (w, vs) (w, vs @ [vs ! i])"
| draws: "i < length vs \<Longrightarrow> draw_ordinal fp (w\<lparr>current := vs ! i\<rparr>) = (k, w') \<Longrightarrow>
    task_step (Draw i fp k) (w, vs) (w', vs[i := current w'])"
| steps: "i < length vs \<Longrightarrow> m (w\<lparr>current := vs ! i\<rparr>) = (x, w') \<Longrightarrow>
    task_step (Step i m) (w, vs) (w', vs[i := current w'])"

inductive_cases task_stepE: "task_step a s t"

fun actor :: "'a task_action \<Rightarrow> nat option" where
  "actor (Draw i fp k) = Some i"
| "actor (Step i m) = Some i"
| "actor _ = None"

subsection \<open>Threads do not meet\<close>

text \<open>No two tasks have the same context object.\<close>

definition unshared :: "'a tasks \<Rightarrow> bool" where
  "unshared s \<longleftrightarrow> (case s of (w, vs) \<Rightarrow>
     (\<forall>i<length vs. \<forall>r. vs ! i = Some r \<longrightarrow> valid_ref w r \<and> (\<forall>j<length vs. j \<noteq> i \<longrightarrow> vs ! j \<noteq> Some r)))"

fun isolated_action :: "'a task_action \<Rightarrow> bool" where
  "isolated_action (CreateTask i) \<longleftrightarrow> False"
| "isolated_action (Step i m) \<longleftrightarrow> isolated m"
| "isolated_action _ \<longleftrightarrow> True"

text \<open>What another task has, and what a step of a task leaves it.\<close>

definition has_context :: "nat \<Rightarrow> nat option \<Rightarrow> sim_context \<Rightarrow> 'a tasks \<Rightarrow> bool" where
  "has_context j v x s \<longleftrightarrow> unshared s \<and>
     (case s of (w, vs) \<Rightarrow> j < length vs \<and> vs ! j = v \<and> (\<forall>r. v = Some r \<longrightarrow> ctx_at w r = x))"

lemma unsharedD:
  assumes "unshared (w, vs)" "k < length vs" "vs ! k = Some r"
  shows "valid_ref w r" "l < length vs \<Longrightarrow> l \<noteq> k \<Longrightarrow> vs ! l \<noteq> Some r"
  using assms unfolding unshared_def prod.case by blast+

lemma isolated_draw: "isolated (\<lambda>w. let (k, w') = draw_ordinal fp w in (Inr (VInt k), w'))"
proof (rule isolatedI)
  fix n c and w :: "'a world" assume w: "at_home n c w"
  obtain r w1 where g: "get_context w = (r, w1)" by fastforce
  note one = isolated_get_context [OF w g]
  have "isolated_step n c w (snd (next_ordinal_at r fp w1))"
    using isolated_step_trans [OF conjunct1 [OF one] isolated_next_ordinal] one isolated_step_home by blast
  then show "isolated_step n c w (snd (let (k, w') = draw_ordinal fp w in (Inr (VInt k), w')))"
    by (simp add: draw_ordinal_def g case_prod_unfold Let_def)
qed

lemma unshared_step:
  assumes "has_context j v x (w, vs)" "i < length vs" "i \<noteq> j" "isolated m" "m (w\<lparr>current := vs ! i\<rparr>) = (y, w')"
  shows "has_context j v x (w', vs[i := current w'])"
proof -
  let ?n = "length (contexts w)" and ?w = "w\<lparr>current := vs ! i\<rparr>"
  have un: "unshared (w, vs)" using assms(1) by (simp add: has_context_def)
  note valid = unsharedD(1) [OF un] and apart = unsharedD(2) [OF un]
  have "at_home ?n (vs ! i) ?w" using valid [OF assms(2)] by (auto simp: at_home_def own_ref_def)
  from isolatedD [OF assms(4) this assms(5)]
  have st: "?n \<le> length (contexts w')" "\<And>r. r < ?n \<Longrightarrow> vs ! i \<noteq> Some r \<Longrightarrow> ctx_at w' r = ctx_at w r"
    "\<And>r. current w' = Some r \<Longrightarrow> (vs ! i = Some r \<or> ?n \<le> r) \<and> valid_ref w' r"
    by (simp_all add: isolated_step_def at_home_def own_ref_def)
  have old: "valid_ref w' r" "current w' \<noteq> Some r" if "k < length vs" "k \<noteq> i" "vs ! k = Some r" for k r
  proof -
    have "r < ?n" "vs ! i \<noteq> Some r" using valid [OF that(1,3)] apart [OF that(1,3) assms(2)] that(2) by (auto simp: valid_ref_def)
    then show "valid_ref w' r" "current w' \<noteq> Some r" using st(1) st(3) [of r] by (auto simp: valid_ref_def)
  qed
  have "unshared (w', vs[i := current w'])"
    unfolding unshared_def prod.case length_list_update
  proof (intro allI impI conjI)
    fix k r assume k: "k < length vs" "vs[i := current w'] ! k = Some r"
    show "valid_ref w' r" using k st(3) [of r] old(1) [of k r] by (cases "k = i") simp_all
    fix l assume l: "l < length vs" "l \<noteq> k"
    show "vs[i := current w'] ! l \<noteq> Some r"
    proof (cases "l = i")
      case True
      then show ?thesis using k l old(2) [of k r] by simp
    next
      case False
      then show ?thesis
        using k l old(2) [of l r] apart [of k r l] by (cases "k = i") auto
    qed
  qed
  moreover have "ctx_at w' r = x" if r: "v = Some r" for r
  proof -
    have j: "j < length vs" "vs ! j = Some r" "ctx_at w r = x" using assms(1) r by (simp_all add: has_context_def)
    have "r < ?n" "vs ! i \<noteq> Some r"
      using valid [OF j(1,2)] apart [OF j(1,2) assms(2,3)] by (simp_all add: valid_ref_def)
    then show ?thesis using st(2) j(3) by simp
  qed
  ultimately show ?thesis using assms(1,3) by (simp add: has_context_def)
qed

interpretation threads: kept_by task_step "\<lambda>a. isolated_action a \<and> actor a \<noteq> Some j" "has_context j v x" for j v x
proof
  fix s t :: "'a tasks" and a
  assume inv: "has_context j v x s" and ok: "isolated_action a \<and> actor a \<noteq> Some j" and step: "task_step a s t"
  show "has_context j v x t"
    using step
  proof (cases rule: task_step.cases)
    case (starts w vs)
    then show ?thesis using inv by (auto simp: has_context_def unshared_def nth_append split: if_splits)
  next
    case (creates i vs w)
    then show ?thesis using ok by simp
  next
    case (draws i vs fp w k w')
    then show ?thesis
      using unshared_step [OF _ _ _ isolated_draw, of j v x w vs i fp "Inr (VInt k)" w'] inv ok by auto
  next
    case (steps i vs m w y w')
    then show ?thesis using unshared_step inv ok by auto
  qed
qed

subsection \<open>Tasks that share a context share its ordinals\<close>

text \<open>The draws of a fingerprint from the context that the tasks with a given value have.\<close>

fun draws_from :: "nat option list \<Rightarrow> nat option \<Rightarrow> string \<Rightarrow> 'a task_action \<Rightarrow> bool" where
  "draws_from vs v fp (Draw i f k) \<longleftrightarrow> f = fp \<and> vs ! i = v"
| "draws_from vs v fp _ \<longleftrightarrow> False"

fun counting_action :: "'a task_action \<Rightarrow> bool" where
  "counting_action (Step i m) \<longleftrightarrow> keeps_contexts m"
| "counting_action _ \<longleftrightarrow> True"

abbreviation drawn :: "nat option list \<Rightarrow> nat option \<Rightarrow> string \<Rightarrow> 'a task_action list \<Rightarrow> int" where
  "drawn vs v fp ls \<equiv> int (length (filter (draws_from vs v fp) ls))"

lemma draw_from_current:
  "current w = Some r \<Longrightarrow> draw_ordinal fp w = (ordinals_at w r fp, snd (next_ordinal_at r fp w))"
  by (simp add: draw_ordinal_def next_ordinal_at_def next_ordinal_count ordinals_at_def case_prod_unfold Let_def)

lemma draw_from_new:
  assumes "current w = None" "draw_ordinal fp w = (k, w')"
  shows "k = 0" "current w' = Some (length (contexts w))" "length (contexts w') = Suc (length (contexts w))"
    "\<And>r. r < length (contexts w) \<Longrightarrow> ctx_at w' r = ctx_at w r"
    "ordinals_at w' (length (contexts w)) = (\<lambda>_. 0)(fp := 1)"
proof -
  obtain c w1 where c: "create_context_from_env w = (c, w1)" by fastforce
  have w1: "contexts w1 = contexts w" using create_context_frame(2) [OF c] by simp
  have zero: "count_of (ordinal_counters c) = (\<lambda>_. 0)"
    using c by (auto simp: create_context_from_env_def sim_context_init_def Let_def fun_eq_iff simp del: list.map)
  note unfolded = draw_ordinal_def get_context_def new_ctx_def next_ordinal_at_def next_ordinal_count c w1 ctx_at_def
    set_ctx_def
  show "k = 0" "current w' = Some (length (contexts w))" "length (contexts w') = Suc (length (contexts w))"
    "\<And>r. r < length (contexts w) \<Longrightarrow> ctx_at w' r = ctx_at w r"
    "ordinals_at w' (length (contexts w)) = (\<lambda>_. 0)(fp := 1)"
    using assms by (auto simp: unfolded zero ordinals_at_def fun_eq_iff nth_append)
qed

text \<open>
  After the actions so far: every draw was made by a task that has a context now, and each context
  counts the draws from it.
\<close>

definition counted :: "'a task_action list \<Rightarrow> 'a tasks \<Rightarrow> bool" where
  "counted ls s \<longleftrightarrow> (case s of (w, vs) \<Rightarrow>
     (\<forall>i fp k. Draw i fp k \<in> set ls \<longrightarrow> i < length vs \<and> vs ! i \<noteq> None) \<and>
     (\<forall>i<length vs. \<forall>r. vs ! i = Some r \<longrightarrow> valid_ref w r \<and> (\<forall>fp. ordinals_at w r fp = drawn vs (Some r) fp ls)))"

lemma counted_keeps:
  assumes "counted ls (w, vs)" "contexts w' = contexts w" "length vs \<le> length vs'"
    and "\<And>i. i < length vs \<Longrightarrow> vs' ! i = vs ! i" "\<And>i. i < length vs' \<Longrightarrow> vs' ! i \<noteq> None \<Longrightarrow> \<exists>j<length vs. vs' ! i = vs ! j"
    and "\<And>v fp. \<not> draws_from vs' v fp a" "\<And>i fp k. a \<noteq> Draw i fp k"
  shows "counted (ls @ [a]) (w', vs')"
proof -
  have old: "i < length vs" "vs ! i \<noteq> None" if "Draw i fp k \<in> set ls" for i fp k
    using assms(1) that by (auto simp: counted_def)
  have same: "filter (draws_from vs' v fp) ls = filter (draws_from vs v fp) ls" for v fp
  proof (rule filter_cong [OF refl])
    fix b assume "b \<in> set ls"
    then show "draws_from vs' v fp b = draws_from vs v fp b"
      using old(1) assms(4) by (cases b rule: task_action.exhaust) auto
  qed
  have ctx: "valid_ref w' r = valid_ref w r" "ordinals_at w' r = ordinals_at w r" for r
    using assms(2) by (simp_all add: valid_ref_def ordinals_at_def ctx_at_def)
  have "valid_ref w' r \<and> (\<forall>fp. ordinals_at w' r fp = drawn vs' (Some r) fp (ls @ [a]))"
    if i: "i < length vs'" "vs' ! i = Some r" for i r
  proof -
    obtain j where "j < length vs" "vs ! j = Some r" using assms(5) [OF i(1)] i(2) by auto
    then show ?thesis using assms(1,6) by (auto simp: counted_def ctx same)
  qed
  then show ?thesis using old assms(3,4,7) by (fastforce simp: counted_def)
qed

lemma counted_draw:
  assumes "counted ls (w, vs)" "i < length vs" "draw_ordinal fp (w\<lparr>current := vs ! i\<rparr>) = (k, w')"
  defines "vs' \<equiv> vs[i := current w']"
  shows "counted (ls @ [Draw i fp k]) (w', vs')" "k = drawn vs' (vs' ! i) fp ls"
    "\<And>b v f. b \<in> set ls \<Longrightarrow> draws_from vs' v f b = draws_from vs v f b" "\<And>j. vs ! j \<noteq> None \<Longrightarrow> vs' ! j = vs ! j"
proof -
  have old: "j < length vs" "vs ! j \<noteq> None" if "Draw j f n \<in> set ls" for j f n
    using assms(1) that by (auto simp: counted_def)
  have count: "valid_ref w r" "ordinals_at w r f = drawn vs (Some r) f ls" if "j < length vs" "vs ! j = Some r" for j r f
    using assms(1) that by (auto simp: counted_def)
  have goal: "counted (ls @ [Draw i fp k]) (w', vs') \<and> k = drawn vs' (vs' ! i) fp ls \<and>
    (\<forall>b v f. b \<in> set ls \<longrightarrow> draws_from vs' v f b = draws_from vs v f b) \<and> (\<forall>j. vs ! j \<noteq> None \<longrightarrow> vs' ! j = vs ! j)"
  proof (cases "vs ! i")
    case (Some r)
    have w': "w' = snd (next_ordinal_at r fp (w\<lparr>current := Some r\<rparr>))" and k: "k = ordinals_at w r fp"
      using assms(3) draw_from_current [of "w\<lparr>current := Some r\<rparr>" r fp] by (simp_all add: Some ordinals_at_def)
    have vs': "vs' = vs" using assms(2) by (simp add: vs'_def w' Some next_ordinal_at_def case_prod_unfold Let_def list_update_same_conv)
    have v: "valid_ref w r" by (rule count(1) [OF assms(2) Some])
    have ord: "ordinals_at w' s = (if s = r then (ordinals_at w r)(fp := ordinals_at w r fp + 1) else ordinals_at w s)"
      "valid_ref w' s = valid_ref w s" for s
      using v by (auto simp: w' next_ordinal_at_def next_ordinal_count ordinals_at_def case_prod_unfold Let_def)
    show ?thesis
      using assms(2) old count Some by (fastforce simp: counted_def vs' ord k)
  next
    case None
    note new = draw_from_new [OF _ assms(3) [unfolded None]]
    let ?r = "length (contexts w)"
    have w': "k = 0" "current w' = Some ?r" "length (contexts w') = Suc ?r"
      "\<And>s. s < ?r \<Longrightarrow> ctx_at w' s = ctx_at w s" "ordinals_at w' ?r = (\<lambda>_. 0)(fp := 1)"
      using new by (simp_all add: ctx_at_def)
    have vs': "vs' = vs[i := Some ?r]" by (simp add: vs'_def w')
    have fresh: "vs ! j \<noteq> Some ?r" if "j < length vs" for j
      using count(1) [OF that, of ?r] by (auto simp: valid_ref_def)
    have other: "j \<noteq> i" if "Draw j f n \<in> set ls" for j f n using old(2) [OF that] None by auto
    have same: "draws_from vs' v f b = draws_from vs v f b" if "b \<in> set ls" for b v f
    proof (cases b)
      case (Draw j g n)
      then have "i \<noteq> j" using other [of j g n] that by auto
      then show ?thesis by (simp add: Draw vs')
    qed simp_all
    have filt: "filter (draws_from vs' v f) ls = filter (draws_from vs v f) ls" for v f
      by (rule filter_cong [OF refl same])
    have none: "filter (draws_from vs (Some ?r) f) ls = []" for f
      unfolding filter_empty_conv
    proof
      fix b assume "b \<in> set ls"
      then show "\<not> draws_from vs (Some ?r) f b" using old(1) fresh by (cases b rule: task_action.exhaust) auto
    qed
    have "valid_ref w' s \<and> (\<forall>f. ordinals_at w' s f = drawn vs' (Some s) f (ls @ [Draw i fp k]))"
      if j: "j < length vs'" "vs' ! j = Some s" for j s
    proof (cases "j = i")
      case True
      then have "s = ?r" using j assms(2) by (simp add: vs')
      moreover have "vs' ! i = Some ?r" using assms(2) by (simp add: vs')
      ultimately show ?thesis by (simp add: valid_ref_def w' filt none)
    next
      case False
      then have s: "j < length vs" "vs ! j = Some s" using j by (simp_all add: vs')
      then have "s < ?r" "s \<noteq> ?r" using count(1) by (auto simp: valid_ref_def)
      moreover from this have "vs' ! i \<noteq> Some s" using assms(2) by (simp add: vs')
      ultimately show ?thesis
        using count(2) [OF s] w'(3,4) by (simp add: valid_ref_def ordinals_at_def filt)
    qed
    moreover have "j < length vs' \<and> vs' ! j \<noteq> None" if d: "Draw j f n \<in> set (ls @ [Draw i fp k])" for j f n
    proof (cases "j = i")
      case False
      then have "Draw j f n \<in> set ls" using d by simp
      then show ?thesis using old False by (simp add: vs')
    qed (use assms(2) in \<open>simp add: vs'\<close>)
    ultimately have "counted (ls @ [Draw i fp k]) (w', vs')" unfolding counted_def prod.case by blast
    moreover have "k = drawn vs' (vs' ! i) fp ls" 
    proof -
      have "vs' ! i = Some ?r" using assms(2) by (simp add: vs')
      then show ?thesis by (simp add: w'(1) filt none)
    qed
    moreover have "vs' ! j = vs ! j" if "vs ! j \<noteq> None" for j
      using that None by (cases "j = i") (simp_all add: vs')
    ultimately show ?thesis using same by blast
  qed
  then show "counted (ls @ [Draw i fp k]) (w', vs')" "k = drawn vs' (vs' ! i) fp ls"
    "\<And>b v f. b \<in> set ls \<Longrightarrow> draws_from vs' v f b = draws_from vs v f b" "\<And>j. vs ! j \<noteq> None \<Longrightarrow> vs' ! j = vs ! j"
    by blast+
qed

lemma earlier_draws:
  assumes "counted ls (w, vs)" "\<And>j. j < length vs \<Longrightarrow> vs ! j \<noteq> None \<Longrightarrow> vs' ! j = vs ! j"
    and "k < length ls" "ls ! k = Draw i fp n"
  shows "drawn vs' (vs' ! i) fp (take k ls) = drawn vs (vs ! i) fp (take k ls)"
proof -
  have old: "j < length vs" "vs ! j \<noteq> None" if "Draw j f m \<in> set ls" for j f m
    using assms(1) that by (auto simp: counted_def)
  have "draws_from vs' v f b = draws_from vs v f b" if "b \<in> set (take k ls)" for b v f
    using in_set_takeD [OF that] old assms(2) by (cases b rule: task_action.exhaust) auto
  then have "filter (draws_from vs' v f) (take k ls) = filter (draws_from vs v f) (take k ls)" for v f
    by (rule filter_cong [OF refl])
  moreover have "vs' ! i = vs ! i"
    using assms(2) old [of i fp n] nth_mem [OF assms(3)] by (simp add: assms(4))
  ultimately show ?thesis by simp
qed

lemma counted_run:
  assumes "run task_step (w, []) ls s" "list_all counting_action ls"
  shows "counted ls s \<and>
    (\<forall>k<length ls. \<forall>i fp n. ls ! k = Draw i fp n \<longrightarrow> n = drawn (snd s) (snd s ! i) fp (take k ls))"
  using assms
proof (induction ls arbitrary: s rule: rev_induct)
  case Nil
  then show ?case by (simp add: counted_def)
next
  case (snoc a ls)
  obtain w1 vs where run: "run task_step (w, []) ls (w1, vs)" and step: "task_step a (w1, vs) s"
    using snoc.prems(1) by (auto simp: run_snoc_iff)
  have ih: "counted ls (w1, vs)"
    "\<And>k i fp n. k < length ls \<Longrightarrow> ls ! k = Draw i fp n \<Longrightarrow> n = drawn vs (vs ! i) fp (take k ls)"
    using snoc.IH [OF run] snoc.prems(2) by simp_all
  have goal: ?case if c: "counted (ls @ [a]) (w2, vs')" and s: "s = (w2, vs')"
    and same: "\<And>j. j < length vs \<Longrightarrow> vs ! j \<noteq> None \<Longrightarrow> vs' ! j = vs ! j"
    and last: "\<And>i fp n. a = Draw i fp n \<Longrightarrow> n = drawn vs' (vs' ! i) fp ls" for w2 vs'
  proof -
    have "n = drawn vs' (vs' ! i) fp (take k (ls @ [a]))"
      if k: "k < length (ls @ [a])" "(ls @ [a]) ! k = Draw i fp n" for k i fp n
    proof (cases "k < length ls")
      case True
      then have d: "ls ! k = Draw i fp n" using k(2) by (simp add: nth_append)
      show ?thesis using earlier_draws [OF ih(1) same True d] ih(2) [OF True d] True by simp
    next
      case False
      then show ?thesis using k last by (simp add: nth_append less_Suc_eq split: if_splits)
    qed
    then show ?thesis using c unfolding s snd_conv by blast
  qed
  show ?case
    using step
  proof (cases rule: task_step.cases)
    case starts
    then show ?thesis
      using ih(1) by (intro goal [of w1 "vs @ [None]"] counted_keeps) (auto simp: nth_append split: if_splits)
  next
    case (creates i)
    then show ?thesis
      using ih(1) by (intro goal [of w1 "vs @ [vs ! i]"] counted_keeps) (auto simp: nth_append split: if_splits)
  next
    case (draws i fp n w2)
    note d = counted_draw [OF ih(1) draws(3,4)]
    have same: "filter (draws_from (vs[i := current w2]) v f) ls = filter (draws_from vs v f) ls" for v f
      by (rule filter_cong [OF refl d(3)])
    show ?thesis
      using d(1,2,4) draws(1,2) by (intro goal [of w2 "vs[i := current w2]"]) simp_all
  next
    case (steps i m x w2)
    have k: "keeps_contexts m" using snoc.prems(2) steps(1) by simp
    have "vs[i := current w2] = vs" "contexts w2 = contexts w1"
      using keeps_contextsD [OF k steps(4)] by simp_all
    then show ?thesis
      using ih(1) steps(1,2) by (intro goal [of w2 vs] counted_keeps) auto
  qed
qed

subsection \<open>Properties\<close>

text \<open>What threads do that get their contexts from the SDK and do not hand them on.\<close>

fun thread_action :: "(nat \<Rightarrow> fixture_event \<Rightarrow> ('a, unit) prog) \<Rightarrow> 'a task_action \<Rightarrow> bool" where
  "thread_action emit (CreateTask i) \<longleftrightarrow> False"
| "thread_action emit (Step i m) \<longleftrightarrow> sdk_program emit m"
| "thread_action emit _ \<longleftrightarrow> True"

lemma thread_action_isolated:
  "(\<And>s e. keeps_contexts (emit s e)) \<Longrightarrow> thread_action emit a \<Longrightarrow> isolated_action a"
  by (cases a) (auto intro: sdk_isolated)



text \<open>
  C26: ordinals are numbered per context object, whichever tasks share it. From a start without tasks, in any
  interleaving of threads started, tasks created and ordinals drawn, the ordinal a task gets is the
  number of earlier draws of the same fingerprint by the tasks that have the same context as it has:
  its own alone in a thread of its own, those of its creator and siblings if it was created by a
  task that had a context.
\<close>

theorem ordinals_per_context:
  assumes "run task_step (w, []) ls (w', vs)" "list_all counting_action ls"
    and "k < length ls" "ls ! k = Draw i fp n"
  shows "n = drawn vs (vs ! i) fp (take k ls)"
  using counted_run [OF assms(1,2)] assms(3,4) by simp

theorem ordinals_per_context_witness:
  "\<exists>w' vs. run task_step (blank_world (\<lambda>_. None) (), [])
      [StartThread, Draw 0 ''a'' 0, CreateTask 0, StartThread, Draw 2 ''a'' 0, Draw 1 ''a'' 1] (w', vs) \<and>
    drawn vs (vs ! 1) ''a'' (take 5 [StartThread, Draw 0 ''a'' 0, CreateTask 0, StartThread, Draw 2 ''a'' 0, Draw 1 ''a'' 1]) = 1"
proof -
  let ?w = "blank_world (\<lambda>_. None) ()"
  let ?ls = "[StartThread, Draw 0 ''a'' 0, CreateTask 0, StartThread, Draw 2 ''a'' 0, Draw 1 ''a'' 1] :: unit task_action list"
  obtain k1 w1 where 1: "draw_ordinal ''a'' (?w\<lparr>current := None\<rparr>) = (k1, w1)" by fastforce
  have n1: "k1 = 0" "current w1 = Some 0" "length (contexts w1) = 1" "ordinals_at w1 0 ''a'' = 1"
    using draw_from_new [OF _ 1] by (simp_all add: blank_world_def)
  obtain k2 w2 where 2: "draw_ordinal ''a'' (w1\<lparr>current := None\<rparr>) = (k2, w2)" by fastforce
  have n2: "k2 = 0" "current w2 = Some 1" "ordinals_at w2 0 ''a'' = 1"
    using draw_from_new [OF _ 2] n1 by (simp_all add: ordinals_at_def ctx_at_def)
  obtain k3 w3 where 3: "draw_ordinal ''a'' (w2\<lparr>current := Some 0\<rparr>) = (k3, w3)" by fastforce
  have n3: "k3 = 1" "current w3 = Some 0"
    using 3 n2(3) by (auto simp: draw_from_current ordinals_at_def next_ordinal_at_def case_prod_unfold Let_def)
  have run: "run task_step (?w, []) ?ls (w3, [Some 0, Some 0, Some 1])"
    using task_step.starts [of ?w "[]"] task_step.draws [of 0 "[None]" "''a''" ?w k1 w1] 1
      task_step.creates [of 0 "[Some 0]" w1] task_step.starts [of w1 "[Some 0, Some 0]"]
      task_step.draws [of 2 "[Some 0, Some 0, None]" "''a''" w1 k2 w2] 2
      task_step.draws [of 1 "[Some 0, Some 0, Some 1]" "''a''" w2 k3 w3] 3
    by (intro run_Cons run_Nil) (simp_all add: n1 n2 n3)
  have "1 = drawn [Some 0, Some 0, Some 1] ([Some 0, Some 0, Some 1] ! 1) ''a'' (take 5 ?ls)"
    by (rule ordinals_per_context [OF run]) simp_all
  with run show ?thesis by (intro exI [of _ w3] exI [of _ "[Some 0, Some 0, Some 1]"] conjI) simp_all
qed

end
