(* ===== verification/Ordinal_Race.thy ===== *)
theory Ordinal_Race
  imports Context Runs
begin

text \<open>
  Threads that draw ordinals from one \<open>SimContext\<close> (sim_sdk/context.py, \<open>next_ordinal\<close>).

  A context is handed to another thread with the values of the context variable, by \<open>asyncio.to_thread\<close>
  or \<open>copy_context().run\<close>. \<open>next_ordinal\<close> reads the counter and writes it back in two statements and
  without a lock, so another thread may run between them. Here each statement is a step of its own.
\<close>

subsection \<open>The two statements\<close>

definition read_count :: "string \<Rightarrow> sim_context \<Rightarrow> int" where
  "read_count fp c = (case dict_get (ordinal_counters c) fp of None \<Rightarrow> 0 | Some n \<Rightarrow> n)"

definition write_count :: "string \<Rightarrow> int \<Rightarrow> sim_context \<Rightarrow> sim_context" where
  "write_count fp n c = c\<lparr>ordinal_counters := AList.update fp (n + 1) (ordinal_counters c)\<rparr>"

lemma next_ordinal_statements:
  "next_ordinal fp c = (read_count fp c, write_count fp (read_count fp c) c)"
  by (simp add: next_ordinal_def read_count_def write_count_def Let_def)

lemma read_count_write [simp]: "read_count fp (write_count fp' n c) = (if fp' = fp then n + 1 else read_count fp c)"
  by (auto simp: read_count_def write_count_def update_conv')

subsection \<open>Threads\<close>

text \<open>The context, what each thread has read and not yet written back, and the draws made, in order.\<close>

record draws =
  dr_context :: sim_context
  dr_read :: "nat \<Rightarrow> (string \<times> int) option"
  dr_log :: "(nat \<times> string \<times> int) list"

datatype draw_action = Reads nat string | Writes nat

inductive draw_step :: "draw_action \<Rightarrow> draws \<Rightarrow> draws \<Rightarrow> bool" where
  reads: "dr_read s t = None \<Longrightarrow>
    draw_step (Reads t fp) s (s\<lparr>dr_read := (dr_read s)(t \<mapsto> (fp, read_count fp (dr_context s)))\<rparr>)"
| writes: "dr_read s t = Some (fp, n) \<Longrightarrow>
    draw_step (Writes t) s (s\<lparr>dr_context := write_count fp n (dr_context s), dr_read := (dr_read s)(t := None),
      dr_log := dr_log s @ [(t, fp, n)]\<rparr>)"

inductive_simps draw_step_simps:
  "draw_step (Reads t fp) s u"
  "draw_step (Writes t) s u"

definition fresh_draws :: "sim_context \<Rightarrow> draws" where
  "fresh_draws c = \<lparr>dr_context = c, dr_read = (\<lambda>_. None), dr_log = []\<rparr>"

abbreviation logged_fps :: "draws \<Rightarrow> string list" where
  "logged_fps s \<equiv> map (\<lambda>(t, fp, n). fp) (dr_log s)"

abbreviation logged_ordinals :: "draws \<Rightarrow> int list" where
  "logged_ordinals s \<equiv> map (\<lambda>(t, fp, n). n) (dr_log s)"

subsection \<open>Draws that do not overlap\<close>

text \<open>No thread reads the counter of a fingerprint while another is between its two statements for it.\<close>

definition exclusive_step :: "draw_action \<Rightarrow> draws \<Rightarrow> draws \<Rightarrow> bool" where
  "exclusive_step l s s' \<longleftrightarrow> draw_step l s s' \<and>
     (case l of Reads t fp \<Rightarrow> \<forall>u n. dr_read s u \<noteq> Some (fp, n) | Writes t \<Rightarrow> True)"

text \<open>The specification: \<open>next_ordinal\<close> as one step, when the result is written.\<close>

type_synonym numbering = "sim_context \<times> (nat \<times> string \<times> int) list"

fun numbering_step :: "draw_action \<Rightarrow> numbering \<Rightarrow> numbering \<Rightarrow> bool" where
  "numbering_step (Reads t fp) a b \<longleftrightarrow> b = a"
| "numbering_step (Writes t) (c, log) b \<longleftrightarrow>
     (\<exists>fp. b = (snd (next_ordinal fp c), log @ [(t, fp, fst (next_ordinal fp c))]))"

abbreviation numbering_of :: "draws \<Rightarrow> numbering" where
  "numbering_of s \<equiv> (dr_context s, dr_log s)"

definition up_to_date :: "draws \<Rightarrow> bool" where
  "up_to_date s \<longleftrightarrow>
     (\<forall>t fp n. dr_read s t = Some (fp, n) \<longrightarrow> n = read_count fp (dr_context s) \<and>
       (\<forall>u m. dr_read s u = Some (fp, m) \<longrightarrow> u = t))"

lemma up_to_date_step:
  assumes "up_to_date s" "exclusive_step l s s'"
  shows "up_to_date s'"
proof (cases l)
  case (Reads t fp)
  then have none: "dr_read s u \<noteq> Some (fp, n)" for u n using assms(2) by (simp add: exclusive_step_def)
  have s': "s' = s\<lparr>dr_read := (dr_read s)(t \<mapsto> (fp, read_count fp (dr_context s)))\<rparr>"
    using assms(2) by (simp add: exclusive_step_def Reads draw_step_simps)
  show ?thesis using assms(1) none by (auto simp: up_to_date_def s')
next
  case (Writes t)
  then obtain fp n where t: "dr_read s t = Some (fp, n)"
    and s': "s' = s\<lparr>dr_context := write_count fp n (dr_context s), dr_read := (dr_read s)(t := None),
      dr_log := dr_log s @ [(t, fp, n)]\<rparr>"
    using assms(2) by (auto simp: exclusive_step_def draw_step_simps)
  have "fp' \<noteq> fp" if "dr_read s u = Some (fp', m)" "u \<noteq> t" for u fp' m
    using assms(1) t that by (auto simp: up_to_date_def)
  then show ?thesis using assms(1) by (auto simp: up_to_date_def s')
qed

interpretation numbered: simulated_by exclusive_step "\<lambda>_. True" up_to_date numbering_step numbering_of
proof
  fix s t l
  assume inv: "up_to_date s" and step: "exclusive_step l s t"
  show "up_to_date t" by (rule up_to_date_step [OF inv step])
  show "numbering_step l (numbering_of s) (numbering_of t)"
    using inv step by (cases l) (auto simp: exclusive_step_def draw_step_simps up_to_date_def next_ordinal_statements)
qed

lemma numbering_run:
  "run numbering_step (c, []) ls (c', log) \<Longrightarrow>
    map (\<lambda>(t, fp, n). n) log = ordinal_run (map (\<lambda>(t, fp, n). fp) log) c \<and>
    c' = foldl (\<lambda>c fp. snd (next_ordinal fp c)) c (map (\<lambda>(t, fp, n). fp) log)"
proof (induction ls arbitrary: c' log rule: rev_induct)
  case (snoc l ls)
  have snoc_run: "ordinal_run (fps @ [fp]) c = ordinal_run fps c @
      [fst (next_ordinal fp (foldl (\<lambda>c fp. snd (next_ordinal fp c)) c fps))]" for fps fp and c :: sim_context
    by (induction fps arbitrary: c) (simp_all add: case_prod_unfold Let_def)
  obtain c1 log1 where 1: "run numbering_step (c, []) ls (c1, log1)" "numbering_step l (c1, log1) (c', log)"
    using snoc.prems by (auto simp: run_snoc_iff)
  show ?case using snoc.IH [OF 1(1)] 1(2) by (cases l) (auto simp: snoc_run)
qed simp

subsection \<open>Draws that overlap\<close>

text \<open>\<open>k\<close> draws of a fingerprint by one thread, one after the other.\<close>

definition rounds :: "nat \<Rightarrow> nat \<Rightarrow> string \<Rightarrow> draw_action list" where
  "rounds k t fp = concat (replicate k [Reads t fp, Writes t])"

lemma rounds_simps [simp]:
  "rounds 0 t fp = []"
  "rounds (Suc k) t fp = Reads t fp # Writes t # rounds k t fp"
  by (simp_all add: rounds_def)

lemma rounds_run:
  "run draw_step s (rounds k t fp) s' \<Longrightarrow>
    dr_log s' = dr_log s @ map (\<lambda>i. (t, fp, read_count fp (dr_context s) + int i)) [0..<k] \<and>
    read_count fp (dr_context s') = read_count fp (dr_context s) + int k \<and>
    (\<forall>u. u \<noteq> t \<longrightarrow> dr_read s' u = dr_read s u)"
proof (induction k arbitrary: s)
  case (Suc k)
  let ?n = "read_count fp (dr_context s)"
  obtain s1 where s1: "run draw_step s1 (rounds k t fp) s'" "dr_log s1 = dr_log s @ [(t, fp, ?n)]"
    "read_count fp (dr_context s1) = ?n + 1" "\<forall>u. u \<noteq> t \<longrightarrow> dr_read s1 u = dr_read s u"
    using Suc.prems by (auto simp: run_Cons_iff draw_step_simps)
  have "[0..<Suc k] = 0 # map Suc [0..<k]" by (simp add: upt_conv_Cons map_Suc_upt del: upt_Suc)
  then have "map (\<lambda>i. (t, fp, ?n + int i)) [0..<Suc k] = (t, fp, ?n) # map (\<lambda>i. (t, fp, ?n + 1 + int i)) [0..<k]"
    by (simp add: comp_def algebra_simps)
  then show ?case using Suc.IH [OF s1(1)] s1(2-4) by simp
qed simp

lemma rounds_possible: "dr_read s t = None \<Longrightarrow> \<exists>s'. run draw_step s (rounds k t fp) s' \<and> dr_read s' t = None"
proof (induction k arbitrary: s)
  case (Suc k)
  let ?s1 = "s\<lparr>dr_read := (dr_read s)(t \<mapsto> (fp, read_count fp (dr_context s)))\<rparr>"
  let ?s2 = "?s1\<lparr>dr_context := write_count fp (read_count fp (dr_context s)) (dr_context s), dr_read := (dr_read ?s1)(t := None),
      dr_log := dr_log s @ [(t, fp, read_count fp (dr_context s))]\<rparr>"
  have 1: "draw_step (Reads t fp) s ?s1" using Suc.prems by (simp add: draw_step_simps)
  have 2: "draw_step (Writes t) ?s1 ?s2" by (simp add: draw_step_simps)
  obtain s' where "run draw_step ?s2 (rounds k t fp) s'" "dr_read s' t = None" using Suc.IH [of ?s2] by auto
  then show ?case using 1 2 unfolding rounds_simps run_Cons_iff by blast
qed (auto intro: run.intros)

subsection \<open>Properties\<close>

text \<open>
  C30: draws that do not overlap are numbered. If no thread reads the counter of a fingerprint while another is
  between reading and writing it, then in any interleaving, over any fingerprints, the ordinals drawn
  are those that \<open>next_ordinal\<close> gives to the same requests made one after the other in the order in
  which they were written.
\<close>

theorem exclusive_draws_are_atomic:
  assumes "run exclusive_step (fresh_draws c) ls s"
  shows "logged_ordinals s = ordinal_run (logged_fps s) c"
proof -
  have "up_to_date (fresh_draws c)" by (simp add: up_to_date_def fresh_draws_def)
  from numbered.run_simulated [OF assms _ this]
  have "run numbering_step (c, []) ls (dr_context s, dr_log s)" by (simp add: fresh_draws_def list_all_iff)
  from numbering_run [OF this] show ?thesis by simp
qed

theorem exclusive_draws_are_atomic_witness:
  "\<exists>s. run exclusive_step (fresh_draws (sim_context_init RECORD ''r'' None None))
      [Reads 0 ''a'', Reads 1 ''b'', Writes 0, Reads 2 ''a'', Writes 2, Writes 1] s \<and>
    logged_fps s = [''a'', ''a'', ''b''] \<and> logged_ordinals s = ordinal_run [''a'', ''a'', ''b''] (sim_context_init RECORD ''r'' None None)"
proof -
  let ?c = "sim_context_init RECORD ''r'' None None"
  obtain s where run: "run exclusive_step (fresh_draws ?c)
      [Reads 0 ''a'', Reads 1 ''b'', Writes 0, Reads 2 ''a'', Writes 2, Writes 1] s"
    and fps: "logged_fps s = [''a'', ''a'', ''b'']"
    by (fastforce simp: run_Cons_iff exclusive_step_def draw_step_simps fresh_draws_def)
  with exclusive_draws_are_atomic [OF run] show ?thesis by auto
qed

text \<open>
  C31: a stalled draw rewinds the counter. Let one thread read the counter of a fingerprint and be suspended;
  let another draw k ordinals, the first thread then write, and the other draw k more. The first thread
  gets the ordinal the other got first, and the second k draws repeat ordinals of the first k but for one:
  of 2 k + 1 draws only k + 1 have an ordinal of their own, and the fixtures of the others are
  overwritten.
\<close>


theorem stalled_draw_rewinds:
  assumes "a \<noteq> b"
    and "run draw_step s ([Reads a fp] @ rounds k b fp @ [Writes a] @ rounds k b fp) s'"
    and "n = read_count fp (dr_context s)"
  shows "dr_log s' = dr_log s @ map (\<lambda>i. (b, fp, n + int i)) [0..<k] @ [(a, fp, n)] @
      map (\<lambda>i. (b, fp, n + 1 + int i)) [0..<k] \<and>
    read_count fp (dr_context s') = n + 1 + int k"
proof -
  obtain s1 s2 s3 where 1: "draw_step (Reads a fp) s s1" and 2: "run draw_step s1 (rounds k b fp) s2"
    and 3: "draw_step (Writes a) s2 s3" and 4: "run draw_step s3 (rounds k b fp) s'"
    using assms(2) by (auto simp: run_Cons_iff run_append_iff)
  have s1: "dr_read s1 a = Some (fp, n)" "dr_log s1 = dr_log s" "read_count fp (dr_context s1) = n"
    using 1 assms(3) by (auto simp: draw_step_simps)
  have s2: "dr_read s2 a = Some (fp, n)" "dr_log s2 = dr_log s @ map (\<lambda>i. (b, fp, n + int i)) [0..<k]"
    using rounds_run [OF 2] s1 assms(1) by simp_all
  have s3: "dr_log s3 = dr_log s2 @ [(a, fp, n)]" "read_count fp (dr_context s3) = n + 1"
    using 3 s2(1) by (auto simp: draw_step_simps)
  show ?thesis using rounds_run [OF 4] s2(2) s3 by simp
qed

theorem stalled_draw_rewinds_witness:
  "\<exists>s. run draw_step (fresh_draws (sim_context_init RECORD ''r'' None None))
      ([Reads 0 ''a''] @ rounds 2 1 ''a'' @ [Writes 0] @ rounds 2 1 ''a'') s \<and>
    logged_ordinals s = [0, 1, 0, 1, 2]"
proof -
  let ?s = "fresh_draws (sim_context_init RECORD ''r'' None None)"
  let ?s1 = "?s\<lparr>dr_read := [0 \<mapsto> (''a'', 0)]\<rparr>"
  have 1: "draw_step (Reads 0 ''a'') ?s ?s1"
    by (simp add: draw_step_simps fresh_draws_def read_count_def sim_context_init_def)
  obtain s2 where 2: "run draw_step ?s1 (rounds 2 1 ''a'') s2" "dr_read s2 1 = None"
    using rounds_possible [of ?s1 1 2 "''a''"] by (auto simp: fresh_draws_def)
  have "dr_read s2 0 = Some (''a'', 0)" using rounds_run [OF 2(1)] by simp
  then obtain s3 where 3: "draw_step (Writes 0) s2 s3" "dr_read s3 1 = None"
    using 2(2) by (auto simp: draw_step_simps)
  obtain s4 where 4: "run draw_step s3 (rounds 2 1 ''a'') s4" using rounds_possible [OF 3(2)] by blast
  have run: "run draw_step ?s ([Reads 0 ''a''] @ rounds 2 1 ''a'' @ [Writes 0] @ rounds 2 1 ''a'') s4"
    using 1 2(1) 3(1) 4 by (auto simp: run_append_iff run_Cons_iff simp del: rounds_simps)
  have "dr_log s4 = dr_log ?s @ map (\<lambda>i. (1, ''a'', 0 + int i)) [0..<2] @ [(0, ''a'', 0)] @
      map (\<lambda>i. (1, ''a'', 0 + 1 + int i)) [0..<2] \<and> read_count ''a'' (dr_context s4) = 0 + 1 + int 2"
    by (rule stalled_draw_rewinds [OF _ run]) (simp_all add: fresh_draws_def read_count_def sim_context_init_def)
  with run show ?thesis by (auto simp: fresh_draws_def numeral_2_eq_2)
qed

end
