(* ===== verification/Fine_Sending.thy ===== *)
theory Fine_Sending
  imports Worker
begin

text \<open>
  Sending a drained batch in pieces (sim_sdk/sink/sender_worker.py, \<open>_drain_and_send\<close> and
  \<open>_send_chunk\<close>).

  In theory Worker a sender thread sends its batch in one step. Here every request and every call of the
  counters is a step of its own, and application threads emit, flush and stop in between. With one
  sender thread nothing is lost: a run in pieces is a run of the sink in which the batch is sent at
  once, at the moment its sending ends, and every run of the sink has its pieces.

  The pause between two attempts and the debug lines have no effect and are left out.
\<close>

subsection \<open>The pieces\<close>

text \<open>
  Where a thread is in sending: before a chunk, before a request, before the counters are told of an answer, in
  the three calls of a chunk that is given up, or at the end.
\<close>

datatype send_pc =
    Chunks "fixture_event list list"
  | Request "fixture_event list list" int "event_envelope list" "int list"
  | Answered "fixture_event list list" int "event_envelope list" int "int list" batch_response
  | Failing "fixture_event list list" int py_exn
  | Dropping "fixture_event list list" int py_exn
  | Warning "fixture_event list list" int py_exn
  | Over "py_exn + unit"

text \<open>The handlers of \<open>_send_chunk\<close>: raise, sleep and try again, or give up.\<close>

definition after_error ::
  "sender_config \<Rightarrow> fixture_event list list \<Rightarrow> int \<Rightarrow> event_envelope list \<Rightarrow> int \<Rightarrow> int list \<Rightarrow> py_exn \<Rightarrow> send_pc" where
  "after_error cfg cs n envelopes attempt rest err =
     (if \<not> is_Exception err then Over (Inl err)
      else if attempt < cfg_retries cfg then Request cs n envelopes rest
      else Failing cs n err)"

fun send_piece :: "'s agent \<Rightarrow> sender_config \<Rightarrow> send_pc \<Rightarrow> 's sender_state \<Rightarrow> send_pc \<times> 's sender_state" where
  "send_piece agent cfg (Chunks []) st = (Over (Inr ()), st)"
| "send_piece agent cfg (Chunks (c # cs)) st =
     (let (envelopes, st1) = make_envelopes (cfg_service cfg) c st
      in (Request cs (int (length c)) envelopes [0..cfg_retries cfg], st1))"
| "send_piece agent cfg (Request cs n envelopes []) st = (Chunks cs, st)"
| "send_piece agent cfg (Request cs n envelopes (attempt # rest)) st =
     (let (res, lines, s1) = post_batch agent (cfg_url cfg) envelopes (sd_agent st);
          st1 = st\<lparr>sd_agent := s1, sd_log := sd_log st @ lines\<rparr>
      in case res of
           Inl err \<Rightarrow> (after_error cfg cs n envelopes attempt rest err, st1)
         | Inr resp \<Rightarrow> (Answered cs n envelopes attempt rest resp, st1))"
| "send_piece agent cfg (Answered cs n envelopes attempt rest resp) st =
     (let (res, m) = record_send (rs_accepted resp) (rs_dropped resp) (sd_metrics st);
          st1 = st\<lparr>sd_metrics := m\<rparr>
      in case res of
           Inl err \<Rightarrow> (after_error cfg cs n envelopes attempt rest err, st1)
         | Inr _ \<Rightarrow> (Chunks cs, st1))"
| "send_piece agent cfg (Failing cs n err) st =
     (Dropping cs n err,
      st\<lparr>sd_metrics := (if is_unavailable err then record_unavailable else record_failure) (sd_metrics st)\<rparr>)"
| "send_piece agent cfg (Dropping cs n err) st =
     (Warning cs n err, st\<lparr>sd_metrics := record_drop n (sd_metrics st)\<rparr>)"
| "send_piece agent cfg (Warning cs n err) st =
     (Chunks cs,
      if is_unavailable err
      then rate_limited_warn (''Agent unavailable - dropped '' @ dec_int n @ '' events'') st
      else log_warning (''Send failed after '' @ dec_int (1 + cfg_retries cfg) @ '' attempts - dropped ''
            @ dec_int n @ '' events'') st)"
| "send_piece agent cfg (Over res) st = (Over res, st)"

definition start_sending :: "sender_config \<Rightarrow> fixture_event list \<Rightarrow> send_pc" where
  "start_sending cfg batch =
     (if batch = [] then Over (Inr ())
      else case batch_chunks (cfg_batch cfg) batch of Inl err \<Rightarrow> Over (Inl err) | Inr cs \<Rightarrow> Chunks cs)"

subsection \<open>What is left to do\<close>

definition and_chunks ::
  "'s agent \<Rightarrow> sender_config \<Rightarrow> fixture_event list list \<Rightarrow> (py_exn + unit) \<times> 's sender_state \<Rightarrow>
    (py_exn + unit) \<times> 's sender_state" where
  "and_chunks agent cfg cs r =
     (case r of (Inl err, st) \<Rightarrow> (Inl err, st) | (Inr _, st) \<Rightarrow> send_chunks agent cfg cs st)"

definition warn_of :: "sender_config \<Rightarrow> int \<Rightarrow> py_exn \<Rightarrow> 's sender_state \<Rightarrow> 's sender_state" where
  "warn_of cfg n err st =
     (if is_unavailable err
      then rate_limited_warn (''Agent unavailable - dropped '' @ dec_int n @ '' events'') st
      else log_warning (''Send failed after '' @ dec_int (1 + cfg_retries cfg) @ '' attempts - dropped ''
            @ dec_int n @ '' events'') st)"

fun finish :: "'s agent \<Rightarrow> sender_config \<Rightarrow> send_pc \<Rightarrow> 's sender_state \<Rightarrow> (py_exn + unit) \<times> 's sender_state" where
  "finish agent cfg (Chunks cs) st = send_chunks agent cfg cs st"
| "finish agent cfg (Request cs n envelopes attempts) st =
     and_chunks agent cfg cs (send_attempts agent (cfg_url cfg) (cfg_retries cfg) n envelopes attempts st)"
| "finish agent cfg (Answered cs n envelopes attempt rest resp) st =
     (case record_send (rs_accepted resp) (rs_dropped resp) (sd_metrics st) of
        (Inr _, m) \<Rightarrow> send_chunks agent cfg cs (st\<lparr>sd_metrics := m\<rparr>)
      | (Inl err, m) \<Rightarrow>
          (if \<not> is_Exception err then (Inl err, st\<lparr>sd_metrics := m\<rparr>)
           else if attempt < cfg_retries cfg then
             and_chunks agent cfg cs
               (send_attempts agent (cfg_url cfg) (cfg_retries cfg) n envelopes rest (st\<lparr>sd_metrics := m\<rparr>))
           else send_chunks agent cfg cs (give_up err (cfg_retries cfg) n (st\<lparr>sd_metrics := m\<rparr>))))"
| "finish agent cfg (Failing cs n err) st = send_chunks agent cfg cs (give_up err (cfg_retries cfg) n st)"
| "finish agent cfg (Dropping cs n err) st =
     send_chunks agent cfg cs (warn_of cfg n err (st\<lparr>sd_metrics := record_drop n (sd_metrics st)\<rparr>))"
| "finish agent cfg (Warning cs n err) st = send_chunks agent cfg cs (warn_of cfg n err st)"
| "finish agent cfg (Over res) st = (res, st)"

lemma give_up_warn:
  "give_up err (cfg_retries cfg) n st = warn_of cfg n err (st\<lparr>sd_metrics := record_drop n
     ((if is_unavailable err then record_unavailable else record_failure) (sd_metrics st))\<rparr>)"
  by (simp add: give_up_def warn_of_def)

lemma finish_after_error:
  "finish agent cfg (after_error cfg cs n envelopes attempt rest err) st =
     (if \<not> is_Exception err then (Inl err, st)
      else if attempt < cfg_retries cfg then
        and_chunks agent cfg cs (send_attempts agent (cfg_url cfg) (cfg_retries cfg) n envelopes rest st)
      else send_chunks agent cfg cs (give_up err (cfg_retries cfg) n st))"
  by (simp add: after_error_def)

lemma finish_start: "finish agent cfg (start_sending cfg batch) st = send_batch agent cfg batch st"
  by (simp add: start_sending_def send_batch_def split: sum.split)

text \<open>A piece leaves the rest of the work as it was.\<close>

lemma finish_piece: "send_piece agent cfg pc st = (pc', st') \<Longrightarrow> finish agent cfg pc' st' = finish agent cfg pc st"
proof (induction agent cfg pc st rule: send_piece.induct)
  case (2 agent cfg c cs st)
  then show ?case by (auto simp: send_chunk_def and_chunks_def case_prod_unfold Let_def split: sum.split prod.split)
next
  case (4 agent cfg cs n envelopes attempt rest st)
  then show ?case
    by (auto simp: try_send_def and_chunks_def finish_after_error Let_def simp del: finish.simps(1)
        split: sum.splits prod.splits)
next
  case (5 agent cfg cs n envelopes attempt rest resp st)
  then show ?case by (auto simp: finish_after_error Let_def split: sum.splits prod.splits)
qed (auto simp: and_chunks_def give_up_warn warn_of_def)

text \<open>And it shortens it, so a batch is sent in finitely many pieces.\<close>

definition chunk_pieces :: "sender_config \<Rightarrow> fixture_event list list \<Rightarrow> nat" where
  "chunk_pieces cfg cs = Suc (length cs * (2 * nat (1 + cfg_retries cfg) + 6))"

fun pieces_left :: "sender_config \<Rightarrow> send_pc \<Rightarrow> nat" where
  "pieces_left cfg (Chunks cs) = chunk_pieces cfg cs"
| "pieces_left cfg (Request cs n envelopes attempts) = 5 + 2 * length attempts + chunk_pieces cfg cs"
| "pieces_left cfg (Answered cs n envelopes attempt rest resp) = 6 + 2 * length rest + chunk_pieces cfg cs"
| "pieces_left cfg (Failing cs n err) = 3 + chunk_pieces cfg cs"
| "pieces_left cfg (Dropping cs n err) = 2 + chunk_pieces cfg cs"
| "pieces_left cfg (Warning cs n err) = 1 + chunk_pieces cfg cs"
| "pieces_left cfg (Over res) = 0"

lemma piece_falls:
  "send_piece agent cfg pc st = (pc', st') \<Longrightarrow> \<forall>res. pc \<noteq> Over res \<Longrightarrow> pieces_left cfg pc' < pieces_left cfg pc"
  by (induction agent cfg pc st rule: send_piece.induct)
    (auto simp: Let_def after_error_def case_prod_unfold chunk_pieces_def split: sum.splits if_splits)

subsection \<open>Counting in between\<close>

text \<open>
  What an emit does to the state of the sender. Sending neither reads nor writes \<open>m_buffered\<close>, so it may come
  before or after.
\<close>

definition bump :: "'s sender_state \<Rightarrow> 's sender_state" where
  "bump st = st\<lparr>sd_metrics := record_buffer 1 (sd_metrics st)\<rparr>"

lemma bump_fields [simp]:
  "sd_metrics (bump st) = record_buffer 1 (sd_metrics st)"
  "sd_agent (bump st) = sd_agent st"
  "sd_log (bump st) = sd_log st"
  "bump st\<lparr>sd_agent := s, sd_log := l\<rparr> = bump (st\<lparr>sd_agent := s, sd_log := l\<rparr>)"
  "bump st\<lparr>sd_metrics := record_buffer 1 m\<rparr> = bump (st\<lparr>sd_metrics := m\<rparr>)"
  by (simp_all add: bump_def record_buffer_def)

lemma record_bump [simp]:
  "record_send a d (record_buffer 1 m) = apsnd (record_buffer 1) (record_send a d m)"
  "record_drop n (record_buffer 1 m) = record_buffer 1 (record_drop n m)"
  "record_failure (record_buffer 1 m) = record_buffer 1 (record_failure m)"
  "record_unavailable (record_buffer 1 m) = record_buffer 1 (record_unavailable m)"
  by (simp_all add: record_buffer_def record_send_def record_drop_def record_failure_def record_unavailable_def
      Let_def split: option.split)

lemma log_bump [simp]:
  "log_warning line (bump st) = bump (log_warning line st)"
  "rate_limited_warn line (bump st) = bump (rate_limited_warn line st)"
  by (simp_all add: log_warning_def rate_limited_warn_def read_clock_def bump_def Let_def)

lemma warn_bump [simp]: "warn_of cfg n err (bump st) = bump (warn_of cfg n err st)"
  by (simp add: warn_of_def)

lemma give_up_bump [simp]: "give_up err r n (bump st) = bump (give_up err r n st)"
  by (simp add: give_up_def)

lemma make_envelopes_bump [simp]:
  "make_envelopes service es (bump st) = apsnd bump (make_envelopes service es st)"
proof (induction es arbitrary: st)
  case (Cons e es)
  have "read_clock (bump st) = apsnd bump (read_clock st)" by (simp add: read_clock_def bump_def)
  then show ?case using Cons by (simp add: case_prod_unfold Let_def)
qed simp

lemma try_send_bump [simp]: "try_send agent url envs (bump st) = apsnd bump (try_send agent url envs st)"
  by (simp add: try_send_def case_prod_unfold Let_def split: sum.split)

lemma send_attempts_bump [simp]:
  "send_attempts agent url r n envs attempts (bump st) = apsnd bump (send_attempts agent url r n envs attempts st)"
  by (induction attempts arbitrary: st) (auto split: sum.split prod.split)

lemma send_chunks_bump [simp]: "send_chunks agent cfg cs (bump st) = apsnd bump (send_chunks agent cfg cs st)"
  by (induction cs arbitrary: st) (auto simp: send_chunk_def case_prod_unfold Let_def split: sum.split)

lemma send_batch_bump [simp]: "send_batch agent cfg b (bump st) = apsnd bump (send_batch agent cfg b st)"
  by (simp add: send_batch_def split: sum.split)

lemma finish_bump [simp]: "finish agent cfg pc (bump st) = apsnd bump (finish agent cfg pc st)"
  by (cases pc) (auto simp: and_chunks_def case_prod_unfold split: sum.split prod.split)

subsection \<open>All threads, in pieces\<close>

text \<open>
  The state is that of the sink and, while its sender thread is sending, where in sending it is. \<open>Begin\<close>,
  \<open>Piece\<close> and \<open>End\<close> are steps of the sender thread; the others are those of theory Worker.
\<close>

datatype fine_action = Whole action | Begin | Piece | End

definition at_sending :: "action \<Rightarrow> 's sink_state \<Rightarrow> bool" where
  "at_sending a s \<longleftrightarrow> (\<exists>i f b. a = Work i \<and> sk_threads s ! i = Sending f b)"

definition after_sending :: "bool \<Rightarrow> py_exn + unit \<Rightarrow> worker_pc" where
  "after_sending final res = (case res of Inl err \<Rightarrow> Died err | Inr _ \<Rightarrow> Signalling final)"

inductive fine_step ::
  "'s agent \<Rightarrow> sender_config \<Rightarrow> fine_action \<Rightarrow> 's sink_state \<times> send_pc option \<Rightarrow>
    's sink_state \<times> send_pc option \<Rightarrow> bool" for agent cfg where
  whole: "sink_step agent cfg a s t \<Longrightarrow> \<not> at_sending a s \<Longrightarrow> fine_step agent cfg (Whole a) (s, pc) (t, pc)"
| begins: "sk_threads s = [Sending final batch] \<Longrightarrow>
    fine_step agent cfg Begin (s, None) (s, Some (start_sending cfg batch))"
| piece: "send_piece agent cfg pc (sk_sender s) = (pc', sd) \<Longrightarrow> \<forall>res. pc \<noteq> Over res \<Longrightarrow>
    fine_step agent cfg Piece (s, Some pc) (s\<lparr>sk_sender := sd\<rparr>, Some pc')"
| ends: "sk_threads s = [Sending final batch] \<Longrightarrow>
    fine_step agent cfg End (s, Some (Over res)) (s\<lparr>sk_threads := [after_sending final res]\<rparr>, None)"

inductive_cases fine_stepE: "fine_step agent cfg l p q"

fun at_once :: "fine_action \<Rightarrow> action list" where
  "at_once (Whole a) = [a]"
| "at_once End = [Work 0]"
| "at_once _ = []"

text \<open>
  The sink that has not begun to send, beside the one in the middle of it: the same but for the sender,
  and what is left of sending leads both to the same end.
\<close>

definition in_pieces :: "'s agent \<Rightarrow> sender_config \<Rightarrow> 's sink_state \<times> send_pc option \<Rightarrow> 's sink_state \<Rightarrow> bool" where
  "in_pieces agent cfg p c \<longleftrightarrow> length (sk_threads c) = 1 \<and>
     (case snd p of
        None \<Rightarrow> c = fst p
      | Some pc \<Rightarrow> \<exists>final batch sd. sk_threads c = [Sending final batch] \<and> c = fst p\<lparr>sk_sender := sd\<rparr> \<and>
          finish agent cfg pc (sk_sender (fst p)) = send_batch agent cfg batch sd)"

lemma app_step_in_pieces:
  assumes "sink_step agent cfg a s t" "\<not> at_sending a s" "a \<noteq> Start" "in_pieces agent cfg (s, Some pc) c"
  shows "\<exists>c'. sink_step agent cfg a c c' \<and> in_pieces agent cfg (t, Some pc) c'"
proof -
  obtain final batch sd where c: "sk_threads s = [Sending final batch]" "c = s\<lparr>sk_sender := sd\<rparr>"
    and left: "finish agent cfg pc (sk_sender s) = send_batch agent cfg batch sd"
    using assms(4) by (auto simp: in_pieces_def)
  have plain: ?thesis if "sink_step agent cfg a c u" "sk_sender t = sk_sender s" "sk_threads t = sk_threads s"
    "t\<lparr>sk_sender := sd\<rparr> = u" for u
    using that c left by (intro exI [of _ u]) (auto simp: in_pieces_def)
  show ?thesis
    using assms(1)
  proof cases
    case app_count
    have "emit_count c = t\<lparr>sk_sender := bump sd\<rparr>"
      using app_count c by (intro sink_state.equality) (simp_all add: emit_count_def map_metrics_def bump_def)
    moreover have "sk_sender t = bump (sk_sender s)" "sk_threads t = sk_threads s"
      using app_count by (simp_all add: emit_count_def map_metrics_def bump_def)
    moreover have "sink_step agent cfg a c (emit_count c)"
      using app_count sink_step.app_count [of c agent cfg] c by simp
    ultimately have "sink_step agent cfg a c (t\<lparr>sk_sender := bump sd\<rparr>)" "sk_sender t = bump (sk_sender s)"
      "sk_threads t = sk_threads s"
      by simp_all
    then show ?thesis using c left
      by (intro exI [of _ "t\<lparr>sk_sender := bump sd\<rparr>"]) (auto simp: in_pieces_def)
  next
    case (app_append r e)
    then have "sink_step agent cfg a c (emit_append r e c)" using c by (simp add: sink_step.app_append)
    then show ?thesis by (rule plain) (use app_append c in \<open>simp_all add: sink_op_defs\<close>)
  next
    case app_check
    then have "sink_step agent cfg a c (emit_check cfg c)" using c by (simp add: sink_step.app_check)
    then show ?thesis by (rule plain) (use app_check c in \<open>simp_all add: sink_op_defs\<close>)
  next
    case app_register
    then have "sink_step agent cfg a c (flush_register c)" using c by (simp add: sink_step.app_register)
    then show ?thesis by (rule plain) (use app_register c in \<open>simp_all add: sink_op_defs\<close>)
  next
    case app_wake
    then have "sink_step agent cfg a c (flush_wake c)" using c by (simp add: sink_step.app_wake)
    then show ?thesis by (rule plain) (use app_wake c in \<open>simp_all add: sink_op_defs\<close>)
  next
    case app_stop
    then have "sink_step agent cfg a c (stop_set c)" using c by (simp add: sink_step.app_stop)
    then show ?thesis by (rule plain) (use app_stop c in \<open>simp_all add: sink_op_defs\<close>)
  next
    case app_stop_wake
    then have "sink_step agent cfg a c (stop_wake c)" using c by (simp add: sink_step.app_stop_wake)
    then show ?thesis by (rule plain) (use app_stop_wake c in \<open>simp_all add: sink_op_defs\<close>)
  next
    case app_join
    then have "sink_step agent cfg a c (stop_join c)" using c by (simp add: sink_step.app_join)
    then show ?thesis by (rule plain) (use app_join c in \<open>simp_all add: sink_op_defs\<close>)
  next
    case app_start
    then show ?thesis using assms(3) by simp
  next
    case (work i pc' s1)
    then show ?thesis using assms(2) c by (simp add: at_sending_def)
  qed
qed

lemma threads_kept:
  assumes "sink_step agent cfg a s t" "a \<noteq> Start"
  shows "length (sk_threads t) = length (sk_threads s)"
  using assms by cases (auto simp: sink_op_defs dest: worker_step_frame)

lemma fine_step_in_pieces:
  assumes "fine_step agent cfg l p q" "l \<noteq> Whole Start" "in_pieces agent cfg p c"
  shows "\<exists>c'. run (sink_step agent cfg) c (at_once l) c' \<and> in_pieces agent cfg q c'"
  using assms(1)
proof cases
  case (whole a s t pc)
  show ?thesis
  proof (cases pc)
    case None
    then show ?thesis using whole assms(2,3) threads_kept [OF whole(4)]
      by (auto simp: in_pieces_def run_Cons_iff)
  next
    case (Some p)
    then show ?thesis using app_step_in_pieces [of agent cfg a s t p c] whole assms(2,3)
      by (auto simp: run_Cons_iff)
  qed
next
  case (begins s final batch)
  then show ?thesis using assms(3) by (auto simp: in_pieces_def finish_start intro!: exI [of _ "sk_sender s"])
next
  case (piece pc s pc' sd)
  then show ?thesis using assms(3) finish_piece [OF piece(4)] by (auto simp: in_pieces_def)
next
  case (ends s final batch res)
  obtain sd where c: "c = s\<lparr>sk_sender := sd\<rparr>" and left: "send_batch agent cfg batch sd = (res, sk_sender s)"
    using assms(3) ends by (auto simp: in_pieces_def)
  have "worker_step agent cfg (Sending final batch) c (after_sending final res) s"
    using left c by (cases res) (simp_all add: after_sending_def worker_step_simps)
  then have "sink_step agent cfg (Work 0) c (s\<lparr>sk_threads := [after_sending final res]\<rparr>)"
    using sink_step.work [of 0 c agent cfg] c ends(4) by simp
  then show ?thesis using ends by (auto simp: in_pieces_def run_Cons_iff)
qed

lemma fine_run_in_pieces:
  assumes "run (fine_step agent cfg) p ls q" "Whole Start \<notin> set ls" "in_pieces agent cfg p c"
  shows "\<exists>c'. run (sink_step agent cfg) c (concat (map at_once ls)) c' \<and> in_pieces agent cfg q c'"
  using assms
proof (induction arbitrary: c rule: run.induct)
  case (run_Cons l p q ls r)
  then obtain c' where "run (sink_step agent cfg) c (at_once l) c'" "in_pieces agent cfg q c'"
    using fine_step_in_pieces [of agent cfg l p q c] by auto
  moreover obtain c'' where "run (sink_step agent cfg) c' (concat (map at_once ls)) c''" "in_pieces agent cfg r c''"
    using run_Cons.IH [of c'] run_Cons.prems(1) calculation(2) by auto
  ultimately show ?case by (auto intro: run_append)
qed auto

subsection \<open>A batch that is sent at once, in pieces\<close>

lemma pieces_run:
  "\<exists>n. run (fine_step agent cfg) (s, Some pc) (replicate n Piece)
     (s\<lparr>sk_sender := snd (finish agent cfg pc (sk_sender s))\<rparr>, Some (Over (fst (finish agent cfg pc (sk_sender s)))))"
proof (induction "pieces_left cfg pc" arbitrary: pc s rule: less_induct)
  case less
  show ?case
  proof (cases "\<exists>res. pc = Over res")
    case True
    then show ?thesis by (auto intro!: exI [of _ 0])
  next
    case False
    obtain pc' sd where p: "send_piece agent cfg pc (sk_sender s) = (pc', sd)" by fastforce
    have same: "finish agent cfg pc' sd = finish agent cfg pc (sk_sender s)" using p by (rule finish_piece)
    have "fine_step agent cfg Piece (s, Some pc) (s\<lparr>sk_sender := sd\<rparr>, Some pc')"
      using p False by (auto intro: fine_step.piece)
    moreover obtain n where "run (fine_step agent cfg) (s\<lparr>sk_sender := sd\<rparr>, Some pc') (replicate n Piece)
        (s\<lparr>sk_sender := snd (finish agent cfg pc (sk_sender s))\<rparr>, Some (Over (fst (finish agent cfg pc (sk_sender s)))))"
      using less [of pc' "s\<lparr>sk_sender := sd\<rparr>"] piece_falls [OF p] False same by auto
    ultimately show ?thesis by (intro exI [of _ "Suc n"]) (auto intro: run.intros)
  qed
qed

lemma sending_step_in_pieces:
  assumes "sink_step agent cfg a s t" "at_sending a s" "length (sk_threads s) = 1"
  shows "\<exists>n. run (fine_step agent cfg) (s, None) (Begin # replicate n Piece @ [End]) (t, None) \<and> a = Work 0"
proof -
  obtain final batch where a: "a = Work 0" "sk_threads s = [Sending final batch]"
    using assms by (auto simp: at_sending_def length_Suc_conv elim!: sink_step_WorkE)
  obtain res sd where sent: "send_batch agent cfg batch (sk_sender s) = (res, sd)" by fastforce
  have t: "t = s\<lparr>sk_sender := sd, sk_threads := [after_sending final res]\<rparr>"
    using assms(1) a sent by (auto simp: after_sending_def worker_step_simps elim!: sink_step_WorkE)
  obtain n where n: "run (fine_step agent cfg) (s, Some (start_sending cfg batch)) (replicate n Piece)
      (s\<lparr>sk_sender := sd\<rparr>, Some (Over res))"
    using pieces_run [of agent cfg s "start_sending cfg batch"] sent by (auto simp: finish_start)
  have "fine_step agent cfg End (s\<lparr>sk_sender := sd\<rparr>, Some (Over res)) (t, None)"
    using fine_step.ends [of "s\<lparr>sk_sender := sd\<rparr>" final batch agent cfg res] a t by simp
  then show ?thesis
    using n a fine_step.begins [OF a(2)] by (auto simp: run_Cons_iff run_snoc_iff intro!: exI [of _ n])
qed

lemma sink_run_in_pieces:
  assumes "run (sink_step agent cfg) s as t" "Start \<notin> set as" "length (sk_threads s) = 1"
  shows "\<exists>ls. run (fine_step agent cfg) (s, None) ls (t, None) \<and> Whole Start \<notin> set ls \<and> concat (map at_once ls) = as"
  using assms
proof (induction rule: run.induct)
  case (run_Nil s)
  then show ?case by (auto intro!: exI [of _ "[]"])
next
  case (run_Cons a s t as u)
  have "\<exists>ks. run (fine_step agent cfg) (s, None) ks (t, None) \<and> Whole Start \<notin> set ks \<and> concat (map at_once ks) = [a]"
  proof (cases "at_sending a s")
    case True
    then obtain n where "run (fine_step agent cfg) (s, None) (Begin # replicate n Piece @ [End]) (t, None)" "a = Work 0"
      using sending_step_in_pieces run_Cons by blast
    then show ?thesis by (auto intro!: exI [of _ "Begin # replicate n Piece @ [End]"])
  next
    case False
    then show ?thesis using run_Cons by (auto simp: run_Cons_iff intro!: exI [of _ "[Whole a]"] fine_step.whole)
  qed
  then obtain ks where "run (fine_step agent cfg) (s, None) ks (t, None)" "Whole Start \<notin> set ks" "concat (map at_once ks) = [a]"
    by blast
  moreover obtain ls where "run (fine_step agent cfg) (t, None) ls (u, None)" "Whole Start \<notin> set ls" "concat (map at_once ls) = as"
    using run_Cons threads_kept [of agent cfg a s t] by auto
  ultimately show ?case by (intro exI [of _ "ks @ ls"]) (auto intro: run_append)
qed

lemma start_kept_out: "Whole Start \<notin> set ls \<longleftrightarrow> Start \<notin> set (concat (map at_once ls))"
proof -
  have "Start \<in> set (at_once l) \<longleftrightarrow> l = Whole Start" for l by (cases l) auto
  then show ?thesis by auto
qed

lemma one_thread: "length (sk_threads (agent_sink_init bytes policy clk s0)) = 1"
  by (simp add: agent_sink_init_def worker_start_def worker_alive_def)

lemma in_pieces_init:
  "in_pieces agent cfg (agent_sink_init bytes policy clk s0, None) (agent_sink_init bytes policy clk s0)"
  by (simp add: in_pieces_def one_thread)

subsection \<open>Properties\<close>

text \<open>
  C12: sending a batch in pieces changes nothing. With one sender thread, however its requests and its counting
  are interleaved with emitting, flushing and stopping, the sink reaches between two batches exactly the
  states it reaches when each batch is sent in one step, at the moment its sending ends.
\<close>

theorem sending_in_pieces:
  "(\<exists>ls. run (fine_step agent cfg) (agent_sink_init bytes policy clk s0, None) ls (s, None) \<and>
       Whole Start \<notin> set ls \<and> concat (map at_once ls) = as) \<longleftrightarrow>
   run (sink_step agent cfg) (agent_sink_init bytes policy clk s0) as s \<and> Start \<notin> set as"
proof
  let ?s = "agent_sink_init bytes policy clk s0"
  assume "\<exists>ls. run (fine_step agent cfg) (?s, None) ls (s, None) \<and> Whole Start \<notin> set ls \<and> concat (map at_once ls) = as"
  then obtain ls where ls: "run (fine_step agent cfg) (?s, None) ls (s, None)" "Whole Start \<notin> set ls"
    and as: "concat (map at_once ls) = as"
    by blast
  obtain c where "run (sink_step agent cfg) ?s as c" "in_pieces agent cfg (s, None) c"
    using fine_run_in_pieces [OF ls in_pieces_init] unfolding as by blast
  then show "run (sink_step agent cfg) ?s as s \<and> Start \<notin> set as"
    using ls(2) start_kept_out [of ls] unfolding as by (simp add: in_pieces_def)
next
  let ?s = "agent_sink_init bytes policy clk s0"
  assume "run (sink_step agent cfg) ?s as s \<and> Start \<notin> set as"
  then show "\<exists>ls. run (fine_step agent cfg) (?s, None) ls (s, None) \<and> Whole Start \<notin> set ls \<and> concat (map at_once ls) = as"
    by (elim conjE) (rule sink_run_in_pieces [OF _ _ one_thread])
qed

end
