(* ===== verification/Async_Trace.thy ===== *)
theory Async_Trace
  imports Trace_Nested Runs
begin

text \<open>
  Traced coroutines (sim_sdk/trace.py, \<open>async_wrapper\<close>): several calls on one context, suspended at their
  \<open>await\<close> while the others run.

  A task keeps its own value of the context variable, but tasks started from one context share the
  \<open>SimContext\<close> object behind it. What happens between two awaits is one step. \<open>async_enter\<close> is the wrapper
  up to the \<open>await\<close>, \<open>async_leave\<close> its \<open>finally\<close> block; in between any number of other calls may begin and
  end, and whatever else the tasks do happens.
\<close>

subsection \<open>The two halves of the wrapper\<close>

text \<open>What a suspended call holds in its local variables.\<close>

record async_call =
  ac_qualname :: string
  ac_ctx :: nat
  ac_args :: pyval
  ac_fp :: string
  ac_ordinal :: int
  ac_snapshot :: nat
  ac_start :: int

datatype entered = Passes | Returns pyval | Awaits async_call

definition async_enter ::
  "bool \<Rightarrow> string option \<Rightarrow> 'a traced \<Rightarrow> pyval list \<Rightarrow> (string \<times> pyval) list \<Rightarrow> ('a, entered) prog" where
  "async_enter has_avro name f args kwargs w =
     (let q = traced_name name f;
          (r, w0) = get_context w
      in if \<not> is_active (ctx_at w0 r) then (Inr Passes, w0)
         else
           (case prepare_call has_avro (signature f) q args kwargs r w0 of
              (Inl e, w1) \<Rightarrow> (Inl e, w1)
            | (Inr (args_data, fp, n), w1) \<Rightarrow>
                if is_replaying (ctx_at w1 r) then
                  (case replay q fp n args_data r w1 of
                     (Inl e, w2) \<Rightarrow> (Inl e, w2)
                   | (Inr v, w2) \<Rightarrow> (Inr (Returns v), w2))
                else
                  (let w2 = enter_trace r w1;
                       snapshot = length (collected_stubs (ctx_at w2 r));
                       (start, w3) = time_time w2
                   in (Inr (Awaits \<lparr>ac_qualname = q, ac_ctx = r, ac_args = args_data, ac_fp = fp, ac_ordinal = n,
                         ac_snapshot = snapshot, ac_start = start\<rparr>), w3))))"

definition async_leave ::
  "bool \<Rightarrow> (nat \<Rightarrow> fixture_event \<Rightarrow> ('a, unit) prog) \<Rightarrow> async_call \<Rightarrow> py_exn + pyval \<Rightarrow> ('a, pyval) prog" where
  "async_leave has_avro emit c result =
     leave_trace has_avro emit (ac_qualname c) (ac_ctx c) (ac_args c) (ac_fp c) (ac_ordinal c)
       (ac_snapshot c) (ac_start c) result"

text \<open>The wrapper when nothing else runs: the coroutine of \<open>f\<close> is awaited to its end.\<close>

definition async_wrapper ::
  "bool \<Rightarrow> (nat \<Rightarrow> fixture_event \<Rightarrow> ('a, unit) prog) \<Rightarrow> string option \<Rightarrow> 'a traced \<Rightarrow>
    pyval list \<Rightarrow> (string \<times> pyval) list \<Rightarrow> ('a, pyval) prog" where
  "async_wrapper has_avro emit name f args kwargs =
     andthen (async_enter has_avro name f args kwargs) (\<lambda>entered.
       case entered of
         Passes \<Rightarrow> body f args kwargs
       | Returns v \<Rightarrow> ret v
       | Awaits c \<Rightarrow> (\<lambda>w. let (result, w1) = body f args kwargs w in async_leave has_avro emit c result w1))"

text \<open>Nothing else running, it does what the synchronous wrapper does for the same function, in every mode.\<close>

lemma async_wrapper_is_sync: "async_wrapper has_avro emit name f args kwargs w = sim_trace has_avro emit name f args kwargs w"
  by (auto simp: async_wrapper_def sim_trace_def async_enter_def async_leave_def record_call_def andthen_def ret_def
      Let_def split: sum.splits prod.splits)

text \<open>
  A cancelled coroutine ends with a \<open>BaseException\<close>, which \<open>except Exception\<close> does not see: the world it
  leaves is that of a call that returned \<open>None\<close>, event, fixture and stub included.
\<close>

lemma cancelled_recorded_as_none:
  "snd (async_leave has_avro emit c (Inl (BaseExn k m)) w) = snd (async_leave has_avro emit c (Inr VNone) w)"
  by (simp add: async_leave_def leave_trace_def outcome_def error_text_def case_prod_unfold Let_def)

subsection \<open>Interleavings\<close>

text \<open>
  The state has the calls of a loop in the order they began, each with what it holds and, once it has
  ended, with what its coroutine returned or raised. A call that is settled at once, by an exception or a
  replayed value, or that passes to its coroutine in off mode leaves nothing to resume; what such a
  coroutine does is a \<open>Between\<close>.
\<close>

type_synonym 'a begun = "'a call \<times> async_call \<times> (py_exn + pyval) option"
type_synonym 'a loop = "'a world \<times> 'a begun list"

datatype 'a action = Begin "'a call" | Between "('a, pyval) prog" | End nat "py_exn + pyval"

inductive async_step ::
  "bool \<Rightarrow> (nat \<Rightarrow> fixture_event \<Rightarrow> ('a, unit) prog) \<Rightarrow> 'a action \<Rightarrow> 'a loop \<Rightarrow> 'a loop \<Rightarrow> bool"
  for has_avro emit where
  begins: "async_enter has_avro name f args kwargs w = (Inr (Awaits c), w') \<Longrightarrow>
    async_step has_avro emit (Begin (name, f, args, kwargs)) (w, cs) (w', cs @ [((name, f, args, kwargs), c, None)])"
| settled: "async_enter has_avro name f args kwargs w = (res, w') \<Longrightarrow> \<forall>c. res \<noteq> Inr (Awaits c) \<Longrightarrow>
    async_step has_avro emit (Begin (name, f, args, kwargs)) (w, cs) (w', cs)"
| between: "m w = (x, w') \<Longrightarrow> async_step has_avro emit (Between m) (w, cs) (w', cs)"
| ends: "i < length cs \<Longrightarrow> cs ! i = (call, c, None) \<Longrightarrow> async_leave has_avro emit c result w = (y, w') \<Longrightarrow>
    async_step has_avro emit (End i result) (w, cs) (w', cs[i := (call, c, Some result)])"

inductive_cases async_stepE:
  "async_step has_avro emit (Begin c) s t"
  "async_step has_avro emit (Between m) s t"
  "async_step has_avro emit (End i result) s t"

subsection \<open>What one step does to the context\<close>

definition stubs_plain :: "nat \<Rightarrow> 'a world \<Rightarrow> bool" where
  "stubs_plain r w \<longleftrightarrow> list_all plain (collected_stubs (ctx_at w r))"

lemma enter_step:
  assumes w: "recording_in r w" and sig: "distinct (map param_name (signature f))"
    and run: "async_enter has_avro name f args kwargs w = (res, w')"
  obtains (unbound) e where "res = Inl e" "w' = w" "call_binding (name, f, args, kwargs) = Inl e"
  | (bound) c where "res = Inr (Awaits c)"
      "call_op has_avro (name, f, args, kwargs) = Some (ac_qualname c, ac_fp c)" "CHR ''/'' \<notin> set (ac_fp c)"
      "call_binding (name, f, args, kwargs) = Inr (ac_args c)" "plain (ac_args c)" "ac_ctx c = r"
      "ac_ordinal c = ordinals_at w r (ac_fp c)"
      "ac_snapshot c = length (collected_stubs (ctx_at w r))" "recording_in r w'"
      "ordinals_at w' r = (ordinals_at w r)(ac_fp c := ordinals_at w r (ac_fp c) + 1)"
      "collected_stubs (ctx_at w' r) = collected_stubs (ctx_at w r)"
      "trace_depth (ctx_at w' r) = trace_depth (ctx_at w r) + 1" "files w' = files w" "app w' = app w"
proof -
  note v = recording_inD [OF w]
  let ?q = "traced_name name f"
  show ?thesis
  proof (rule prepare_call_cases [OF sig, of args kwargs has_avro ?q r w], goal_cases unbound bound)
    case (unbound e)
    then show ?case using run v(2,4) by (intro that(1) [of e]) (simp_all add: async_enter_def)
  next
    case (bound a fp)
    let ?w1 = "snd (next_ordinal_at r fp w)" and ?n = "ordinals_at w r fp"
    let ?w2 = "(enter_trace r ?w1)\<lparr>ticks := Suc (ticks ?w1)\<rparr>"
    let ?c = "\<lparr>ac_qualname = ?q, ac_ctx = r, ac_args = a, ac_fp = fp, ac_ordinal = ?n,
        ac_snapshot = length (collected_stubs (ctx_at w r)), ac_start = time_at ?w1 (ticks ?w1)\<rparr>"
    have w1: "recording_in r ?w1" by (rule recording_in_next [OF w])
    have "res = Inr (Awaits ?c) \<and> w' = ?w2"
      using run v(1,2,4) recording_inD(5) [OF w1] bound
      by (simp add: async_enter_def ordinals_at_def Let_def enter_trace_def)
    then show ?case
      using bound v(1) w1 entered_recording [OF w1]
      by (intro that(2) [of ?c])
        (auto simp: list_all_iff is_hex_def is_digit_def enter_trace_def simp del: fun_upd_apply)
  qed
qed

lemma leave_step:
  assumes w: "recording_in r w" and c: "stubs_plain r w" "ac_ctx c = r" "plain (ac_args c)" "taking emit"
    and run: "async_leave has_avro emit c result w = (y, w')"
  obtains e s we where
    "event_with (drop (ac_snapshot c) (collected_stubs (ctx_at w r))) e (ac_qualname c) (ac_args c) (ac_fp c)
       (ac_ordinal c) result"
    "y = result" "recording_in r w'" "ordinals_at w' r = ordinals_at w r"
    "trace_depth (ctx_at w' r) = trace_depth (ctx_at w r) - 1"
    "collected_stubs (ctx_at w' r) = take (ac_snapshot c) (collected_stubs (ctx_at w r)) @
       (if trace_depth (ctx_at w r) > 1
        then [trace_stub (ac_qualname c) (ac_args c) (make_serializable (fst (outcome result))) ''record''] else [])"
    "files we = files w" "app we = app w" "files w' = files (snd (emit s e we))" "app w' = app (snd (emit s e we))"
proof -
  note v = recording_inD [OF w]
  obtain s where s: "sink (ctx_at w r) = Some s" using v(6) by blast
  have keeps: "keeps_contexts (emit s e)" for s e using c(4) by (simp add: taking_def)
  let ?inner = "drop (ac_snapshot c) (collected_stubs (ctx_at w r))"
  let ?out = "make_serializable (fst (outcome result))" and ?err = "snd (outcome result)"
  let ?stub = "trace_stub (ac_qualname c) (ac_args c) ?out ''record''"
  define w2 where "w2 = set_ctx r ((ctx_at w r)\<lparr>trace_depth := trace_depth (ctx_at w r) - 1,
      collected_stubs := take (ac_snapshot c) (collected_stubs (ctx_at w r))\<rparr>) (w\<lparr>ticks := Suc (ticks w)\<rparr>)"
  have c2: "ctx_at w2 r = (ctx_at w r)\<lparr>trace_depth := trace_depth (ctx_at w r) - 1,
      collected_stubs := take (ac_snapshot c) (collected_stubs (ctx_at w r))\<rparr>"
    "valid_ref w2 r" "current w2 = Some r" "files w2 = files w" "app w2 = app w"
    using v by (simp_all add: w2_def)
  let ?us = "time_at w (ticks w) - ac_start c"
  obtain res6 where leave: "emit_record has_avro emit (ac_qualname c) r (ac_args c) (ac_fp c) (ac_ordinal c)
      (fst (outcome result)) ?err ?us ?inner w2 = (res6, w')"
    "y = (case res6 of Inl e \<Rightarrow> Inl e | Inr _ \<Rightarrow> result)"
    using run c(2) by (simp add: async_leave_def leave_trace_def pop_trace_def w2_def case_prod_unfold Let_def prod_eq_iff)
  obtain fid date ofp where e: "emit_record has_avro emit (ac_qualname c) r (ac_args c) (ac_fp c) (ac_ordinal c)
      (fst (outcome result)) ?err ?us ?inner w2 =
    (case deliver emit r (trace_event fid (ac_qualname c) (run_id (ctx_at w2 r)) date (ac_args c) (ac_fp c)
            ?out ofp ?inner ?us ?err (ac_ordinal c)) (w2\<lparr>ticks := ticks w2 + 2\<rparr>) of
       (Inl e, w3) \<Rightarrow> (Inl e, w3)
     | (Inr _, w3) \<Rightarrow> (Inr (), if trace_depth (ctx_at w3 r) > 0 then push_stub r ?stub w3 else w3))"
    using emit_record_steps by blast
  define ev where "ev = trace_event fid (ac_qualname c) (run_id (ctx_at w2 r)) date (ac_args c) (ac_fp c)
            ?out ofp ?inner ?us ?err (ac_ordinal c)"
  define we where "we = w2\<lparr>ticks := ticks w2 + 2\<rparr>"
  define w3 where "w3 = snd (emit s ev we)"
  have "list_all plain ?inner" using c(1) by (auto simp: stubs_plain_def list_all_iff dest: in_set_dropD)
  then have pe: "plain (to_dict ev)"
    unfolding ev_def by (intro to_dict_plain) (use c(3) in \<open>simp_all add: make_serializable_plain_lemma\<close>)
  have "deliver emit r ev we = (Inr (), w3)"
    unfolding w3_def using takingD [OF c(4) pe, of s we] s by (simp add: deliver_def we_def c2(1))
  then have w': "res6 = Inr ()" "w' = (if trace_depth (ctx_at w3 r) > 0 then push_stub r ?stub w3 else w3)"
    using leave(1) e by (simp_all add: ev_def we_def)
  have c3: "ctx_at w3 r = ctx_at w2 r" "valid_ref w3 r" "current w3 = Some r"
    using keeps_contextsD [OF keeps, of s ev we _ w3] same_contexts [of w3 we r] c2 same_contexts [of we w2 r]
    by (simp_all add: w3_def we_def prod_eq_iff)
  show ?thesis
  proof (rule that [of ev we s])
    show "event_with ?inner ev (ac_qualname c) (ac_args c) (ac_fp c) (ac_ordinal c) result"
      using pe by (auto simp: event_with_def ev_def)
    show "recording_in r w'" "ordinals_at w' r = ordinals_at w r"
      using w c2(1) c3 by (simp_all add: w'(2) recording_in_def ordinals_at_def)
  qed (use leave(2) c2 c3 in \<open>simp_all add: w' we_def w3_def\<close>)
qed

subsection \<open>What holds in every interleaving\<close>

abbreviation held :: "'a begun \<Rightarrow> async_call" where
  "held b \<equiv> fst (snd b)"

abbreviation ended :: "'a begun \<Rightarrow> (py_exn + pyval) option" where
  "ended b \<equiv> snd (snd b)"

abbreviation op_of :: "async_call \<Rightarrow> string \<times> string" where
  "op_of c \<equiv> (ac_qualname c, ac_fp c)"

definition suspended :: "'a begun list \<Rightarrow> nat" where
  "suspended cs = sum_list (map (\<lambda>b. if ended b = None then 1 else 0) cs)"

definition repetitions :: "string \<Rightarrow> async_call list \<Rightarrow> int" where
  "repetitions fp hs = int (length (filter (\<lambda>h. ac_fp h = fp) hs))"

lemma repetitions_simps [simp]:
  "repetitions fp [] = 0"
  "repetitions fp (h # hs) = (if ac_fp h = fp then 1 else 0) + repetitions fp hs"
  "repetitions fp (hs @ gs) = repetitions fp hs + repetitions fp gs"
  by (simp_all add: repetitions_def)

lemma repetitions_nonneg: "0 \<le> repetitions fp hs"
  by (simp add: repetitions_def)

lemma suspended_append [simp]: "suspended (cs @ [(call, c, None)]) = suspended cs + 1"
  by (simp add: suspended_def)

lemma suspended_end:
  assumes "i < length cs" "ended (cs ! i) = None"
  shows "suspended cs = suspended (cs[i := (call, c, Some result)]) + 1"
proof -
  let ?f = "\<lambda>b. if ended b = None then 1 else 0 :: nat"
  have "sum_list (map ?f cs) \<ge> map ?f cs ! i" using assms(1) by (intro elem_le_sum_list) simp
  then show ?thesis using assms by (simp add: suspended_def map_update sum_list_update)
qed

text \<open>A call that began: what it holds is what was drawn for it then.\<close>

definition begun_well :: "bool \<Rightarrow> nat \<Rightarrow> (string \<Rightarrow> int) \<Rightarrow> (string \<times> string) set \<Rightarrow>
    ('a call \<times> async_call) list \<Rightarrow> nat \<Rightarrow> bool" where
  "begun_well has_avro r ord0 S ks i \<longleftrightarrow>
     (let (call, c) = ks ! i in
      call_op has_avro call = Some (op_of c) \<and> call_binding call = Inr (ac_args c) \<and> sig_ok call \<and>
      plain (ac_args c) \<and> ac_ctx c = r \<and> CHR ''/'' \<notin> set (ac_fp c) \<and> op_of c \<in> S \<and>
      ac_ordinal c = ord0 (ac_fp c) + repetitions (ac_fp c) (map snd (take i ks)))"

definition apart :: "path \<Rightarrow> string set \<Rightarrow> path set \<Rightarrow> (string \<times> string) set \<Rightarrow> bool" where
  "apart dir K A S \<longleftrightarrow> separated snd (\<lambda>op. take 16 (snd op)) S \<and> (\<forall>op\<in>S. clear_of dir K A op)"

definition calls_of :: "'a begun list \<Rightarrow> ('a call \<times> async_call) list" where
  "calls_of cs = map (\<lambda>b. (fst b, held b)) cs"

definition fixture_stored :: "path \<Rightarrow> (path \<Rightarrow> json option) \<Rightarrow> 'a begun \<Rightarrow> bool" where
  "fixture_stored dir fs b \<longleftrightarrow>
     (case ended b of
        None \<Rightarrow> True
      | Some result \<Rightarrow> \<exists>doc. fs (trace_path dir (op_of (held b)) (ac_ordinal (held b))) = Some doc \<and>
          stored_output doc = (case result of Inr v \<Rightarrow> make_serializable v | Inl _ \<Rightarrow> VNone))"

lemma fixture_stored_cong:
  "fs' (trace_path dir (op_of (held b)) (ac_ordinal (held b))) = fs (trace_path dir (op_of (held b)) (ac_ordinal (held b))) \<Longrightarrow>
    fixture_stored dir fs' b = fixture_stored dir fs b"
  by (simp add: fixture_stored_def split: option.split)

definition async_inv :: "bool \<Rightarrow> path \<Rightarrow> nat \<Rightarrow> string set \<Rightarrow> path set \<Rightarrow> (string \<times> string) set \<Rightarrow> (string \<Rightarrow> int) \<Rightarrow> int \<Rightarrow>
    'a loop \<Rightarrow> bool" where
  "async_inv has_avro dir r K A S ord0 d0 s \<longleftrightarrow>
     (let (w, cs) = s in
      apart dir K A S \<and> recording_in r w \<and> stubs_plain r w \<and>
      trace_depth (ctx_at w r) = d0 + int (suspended cs) \<and>
      (\<forall>fp. fp \<notin> K \<longrightarrow> ordinals_at w r fp = ord0 fp + repetitions fp (map held cs)) \<and>
      (\<forall>i < length cs. begun_well has_avro r ord0 S (calls_of cs) i) \<and>
      (\<forall>i < length cs. fixture_stored dir (files w) (cs ! i)))"

text \<open>
  The actions: calls of functions with a proper signature within a set of operations, and what tasks do
  between awaits confined to bounds. A captured block with an await inside is two such steps, by
  \<open>confined_capture_setup\<close> and \<open>confined_capture_teardown\<close>.
\<close>

fun async_ok :: "bool \<Rightarrow> nat \<Rightarrow> string set \<Rightarrow> path set \<Rightarrow> (string \<times> string) set \<Rightarrow> 'a action \<Rightarrow> bool" where
  "async_ok has_avro r K A S (Begin c) \<longleftrightarrow> sig_ok c \<and> (\<forall>op. call_op has_avro c = Some op \<longrightarrow> op \<in> S)"
| "async_ok has_avro r K A S (Between m) \<longleftrightarrow> confined r K A m"
| "async_ok has_avro r K A S (End i result) \<longleftrightarrow> True"

lemma calls_of_length [simp]: "length (calls_of cs) = length cs"
  by (simp add: calls_of_def)

lemma calls_of_end:
  "i < length cs \<Longrightarrow> cs ! i = (call, c, out) \<Longrightarrow> calls_of (cs[i := (call, c, result)]) = calls_of cs"
  unfolding calls_of_def map_update by (rule list_update_same_conv [THEN iffD2]) simp_all

lemma map_held: "map held cs = map snd (calls_of cs)"
  by (simp add: calls_of_def comp_def)

text \<open>Two calls with the same fingerprint have different ordinals.\<close>

lemma ordinals_differ:
  assumes "begun_well has_avro r ord0 S ks i" "begun_well has_avro r ord0 S ks j" "i < j" "j < length ks"
    and "ac_fp (snd (ks ! i)) = ac_fp (snd (ks ! j))"
  shows "ac_ordinal (snd (ks ! i)) < ac_ordinal (snd (ks ! j))"
proof -
  let ?fp = "ac_fp (snd (ks ! j))"
  have split: "take j ks = take i ks @ ks ! i # drop (Suc i) (take j ks)"
    using assms(3,4) id_take_nth_drop [of i "take j ks"] by (simp add: min_def)
  have "repetitions ?fp (map snd (take j ks)) =
      repetitions ?fp (map snd (take i ks)) + 1 + repetitions ?fp (map snd (drop (Suc i) (take j ks)))"
    using arg_cong [OF split, of "\<lambda>xs. repetitions ?fp (map snd xs)"] assms(5) by simp
  then show ?thesis
    using assms(1,2,5) repetitions_nonneg [of ?fp "map snd (drop (Suc i) (take j ks))"]
    by (simp add: begun_well_def case_prod_unfold Let_def)
qed

lemma inv_begin:
  assumes inv: "async_inv has_avro dir r K A S ord0 d0 (w, cs)"
    and ok: "async_ok has_avro r K A S (Begin (name, f, args, kwargs))"
    and run: "async_enter has_avro name f args kwargs w = (res, w')"
  shows "case res of
      Inr (Awaits c) \<Rightarrow> async_inv has_avro dir r K A S ord0 d0 (w', cs @ [((name, f, args, kwargs), c, None)])
    | _ \<Rightarrow> async_inv has_avro dir r K A S ord0 d0 (w', cs)"
proof -
  let ?call = "(name, f, args, kwargs)"
  have w: "recording_in r w" and sig: "distinct (map param_name (signature f))"
    using inv ok by (simp_all add: async_inv_def)
  show ?thesis
  proof (rule enter_step [OF w sig run], goal_cases unbound bound)
    case (unbound e)
    then show ?case using inv by simp
  next
    case (bound c)
    let ?cs = "cs @ [(?call, c, None)]"
    have S: "op_of c \<in> S" using ok bound(2) by simp
    then have K: "ac_fp c \<notin> K" using inv by (auto simp: async_inv_def apart_def clear_of_def)
    have ks: "calls_of ?cs = calls_of cs @ [(?call, c)]" by (simp add: calls_of_def)
    have well: "begun_well has_avro r ord0 S (calls_of ?cs) i" if "i < length ?cs" for i
    proof (cases "i < length cs")
      case True
      then show ?thesis using inv by (simp add: async_inv_def begun_well_def ks nth_append)
    next
      case False
      then have "i = length cs" using that by simp
      then show ?thesis
        using bound S K inv ok unfolding begun_well_def ks
        by (simp add: async_inv_def nth_append map_held)
    qed
    have stored: "fixture_stored dir (files w') (?cs ! i)" if "i < length ?cs" for i
      using inv that bound(13) by (cases "i < length cs") (simp_all add: async_inv_def nth_append fixture_stored_def)
    have count: "ordinals_at w' r fp = ord0 fp + repetitions fp (map held ?cs)" if "fp \<notin> K" for fp
      using inv that bound(10) K by (simp add: async_inv_def)
    show ?case
      using inv bound(1,9,11,12) well stored count by (simp add: async_inv_def stubs_plain_def)
  qed
qed

lemma inv_between:
  assumes inv: "async_inv has_avro dir r K A S ord0 d0 (w, cs)" and m: "confined r K A m" "m w = (x, w')"
  shows "async_inv has_avro dir r K A S ord0 d0 (w', cs)"
proof -
  have w: "recording_in r w" using inv by (simp add: async_inv_def)
  have st: "confined_step r K A w w'" by (rule confinedD [OF m(1) w m(2)])
  have stored: "fixture_stored dir (files w') (cs ! i)" if i: "i < length cs" for i
  proof -
    let ?c = "held (cs ! i)"
    have "op_of ?c \<in> S" using inv i by (auto simp: async_inv_def begun_well_def calls_of_def case_prod_unfold)
    then have "trace_path dir (op_of ?c) (ac_ordinal ?c) \<notin> A"
      using inv by (simp add: async_inv_def apart_def clear_of_def)
    moreover have "same_but A (files w) (files w')" using st by (simp add: confined_step_def)
    ultimately have "files w' (trace_path dir (op_of ?c) (ac_ordinal ?c)) = files w (trace_path dir (op_of ?c) (ac_ordinal ?c))"
      using same_butD by blast
    moreover have "fixture_stored dir (files w) (cs ! i)" using inv i by (simp add: async_inv_def)
    ultimately show ?thesis using fixture_stored_cong by blast
  qed
  have count: "ordinals_at w' r fp = ord0 fp + repetitions fp (map held cs)" if "fp \<notin> K" for fp
    using inv st that by (simp add: async_inv_def confined_step_def ordinals_but_def)
  have "stubs_plain r w'" "trace_depth (ctx_at w' r) = trace_depth (ctx_at w r)"
    using st inv by (auto simp: confined_step_def adds_plain_def frame_ok_def async_inv_def stubs_plain_def)
  then show ?thesis
    using inv stored count recording_in_step [OF w st] by (simp add: async_inv_def)
qed

lemma inv_end:
  assumes inv: "async_inv has_avro dir r K A S ord0 d0 (w, cs)"
    and i: "i < length cs" "cs ! i = (call, c, None)"
    and run: "async_leave has_avro (\<lambda>s. persist_event dir) c result w = (y, w')"
  shows "async_inv has_avro dir r K A S ord0 d0 (w', cs[i := (call, c, Some result)])"
proof -
  let ?cs = "cs[i := (call, c, Some result)]" and ?p = "trace_path dir (op_of c) (ac_ordinal c)"
  note ks = calls_of_end [OF i]
  have w: "recording_in r w" "stubs_plain r w" and c: "ac_ctx c = r" "plain (ac_args c)"
    and well: "\<And>j. j < length cs \<Longrightarrow> begun_well has_avro r ord0 S (calls_of cs) j"
    using inv i by (auto simp: async_inv_def begun_well_def calls_of_def case_prod_unfold)
  obtain e s we where e:
    "event_with (drop (ac_snapshot c) (collected_stubs (ctx_at w r))) e (ac_qualname c) (ac_args c) (ac_fp c)
       (ac_ordinal c) result"
    "recording_in r w'" "ordinals_at w' r = ordinals_at w r" "trace_depth (ctx_at w' r) = trace_depth (ctx_at w r) - 1"
    "collected_stubs (ctx_at w' r) = take (ac_snapshot c) (collected_stubs (ctx_at w r)) @
       (if trace_depth (ctx_at w r) > 1
        then [trace_stub (ac_qualname c) (ac_args c) (make_serializable (fst (outcome result))) ''record''] else [])"
    "files (we :: 'a world) = files w" "files w' = files (snd (persist_event dir e we))"
    by (rule leave_step [OF w c taking_persist run]) blast
  have pl: "plain (to_dict e)" using e(1) by (simp add: event_with_def)
  have files: "files w' = (files w)(?p \<mapsto> plain_json (to_dict e))"
    using e(1,6,7) by (simp add: persist_plain [OF pl] trace_path_def event_with_def)
  have stored: "fixture_stored dir (files w') (?cs ! j)" if j: "j < length cs" for j
  proof (cases "j = i")
    case True
    then show ?thesis
      using i(1) e(1) by (simp add: fixture_stored_def files stored_output_event [OF pl] event_with_def outcome_serialized)
  next
    case False
    let ?h = "held (cs ! j)"
    have "trace_path dir (op_of ?h) (ac_ordinal ?h) \<noteq> ?p"
    proof
      assume eq: "trace_path dir (op_of ?h) (ac_ordinal ?h) = ?p"
      have s: "op_of ?h \<in> S" "op_of c \<in> S" "CHR ''/'' \<notin> set (ac_fp ?h)" "CHR ''/'' \<notin> set (ac_fp c)"
        using well [OF j] well [OF i(1)] i j by (auto simp: begun_well_def calls_of_def case_prod_unfold)
      have same: "take 16 (ac_fp ?h) = take 16 (ac_fp c)" "ac_ordinal ?h = ac_ordinal c"
        using trace_store.path_determines [OF _ _ eq] s by simp_all
      have sep: "separated snd (\<lambda>op. take 16 (snd op)) S" using inv by (simp add: async_inv_def apart_def)
      have "ac_fp ?h = ac_fp c" using separatedD [OF sep s(1,2)] same(1) by simp
      then show False
        using ordinals_differ [OF well [OF j] well [OF i(1)]] ordinals_differ [OF well [OF i(1)] well [OF j]]
          i j same(2) False by (cases "i < j") (simp_all add: calls_of_def)
    qed
    then have "files w' (trace_path dir (op_of ?h) (ac_ordinal ?h)) = files w (trace_path dir (op_of ?h) (ac_ordinal ?h))"
      by (simp add: files)
    moreover have "fixture_stored dir (files w) (cs ! j)" using inv j by (simp add: async_inv_def)
    ultimately have "fixture_stored dir (files w') (cs ! j)" using fixture_stored_cong by blast
    then show ?thesis using False by simp
  qed
  have held: "map held ?cs = map held cs" by (simp add: map_held ks)
  have "stubs_plain r w'"
    using w(2) c(2) by (auto simp: stubs_plain_def e(5) trace_stub_plain make_serializable_plain_lemma
        list_all_iff dest: in_set_takeD)
  then show ?thesis
    using inv e(2-4) stored held suspended_end [OF i(1), of call c result] i ks
    by (simp add: async_inv_def)
qed

interpretation concurrent: kept_by "async_step has_avro (\<lambda>s. persist_event dir)" "async_ok has_avro r K A S"
  "async_inv has_avro dir r K A S ord0 d0"
  for has_avro dir r K A S ord0 d0
proof
  fix s t :: "'a loop" and l
  assume inv: "async_inv has_avro dir r K A S ord0 d0 s" and ok: "async_ok has_avro r K A S l"
    and step: "async_step has_avro (\<lambda>s. persist_event dir) l s t"
  show "async_inv has_avro dir r K A S ord0 d0 t"
    using step inv ok
  proof (cases rule: async_step.cases)
    case (begins name f args kwargs w c w' cs)
    then show ?thesis using inv_begin [of has_avro dir r K A S ord0 d0 w cs name f args kwargs] inv ok by fastforce
  next
    case (settled name f args kwargs w res w' cs)
    then show ?thesis
      using inv_begin [of has_avro dir r K A S ord0 d0 w cs name f args kwargs res w'] inv ok
      by (auto split: sum.splits entered.splits)
  next
    case (between m w x w' cs)
    then show ?thesis using inv_between inv ok by fastforce
  next
    case (ends i cs call c result w y w')
    then show ?thesis using inv_end inv by fastforce
  qed
qed

lemma concurrent_run:
  assumes "recording_in r w" "stubs_plain r w" "apart dir K A S"
    and "run (async_step has_avro (\<lambda>s. persist_event dir)) (w, []) ls (w', cs)" "list_all (async_ok has_avro r K A S) ls"
  shows "async_inv has_avro dir r K A S (ordinals_at w r) (trace_depth (ctx_at w r)) (w', cs)"
  by (rule concurrent.inv_run [OF assms(4,5)]) (use assms(1-3) in \<open>simp add: async_inv_def suspended_def\<close>)

subsection \<open>Reading the fixtures back\<close>

lemma replay_run_nth:
  "i < length ops \<Longrightarrow> replay_run ckey fpath ops cnt fs ! i =
    fs (fpath (ops ! i) (cnt (ckey (ops ! i)) + int (length (filter (\<lambda>op. ckey op = ckey (ops ! i)) (take i ops)))))"
proof (induction ops arbitrary: i cnt)
  case (Cons op ops)
  show ?case
  proof (cases i)
    case (Suc j)
    then have "j < length ops" using Cons.prems by simp
    from Cons.IH [OF this] show ?thesis by (simp add: Suc algebra_simps)
  qed simp
qed simp

lemma call_ops_bound:
  "list_all (\<lambda>(call, c). call_op has_avro call = Some (op_of c)) ks \<Longrightarrow>
    call_ops has_avro (map fst ks) = map (op_of \<circ> snd) ks"
  by (induction ks) (auto simp del: call_op.simps)

lemma answers_bound:
  "length docs = length ks \<Longrightarrow> list_all (\<lambda>(call, c). call_binding call = Inr (ac_args c)) ks \<Longrightarrow>
    answers (map fst ks) docs = map (\<lambda>doc. Inr (stored_output doc)) docs"
  by (induction docs ks rule: list_induct2) (auto simp del: call_binding.simps)

lemma replay_of_begun:
  assumes inv: "async_inv has_avro dir r K A S ord0 d0 (w, cs)" and over: "list_all (\<lambda>b. ended b \<noteq> None) cs"
  obtains docs where "length docs = length cs"
    "replay_run snd (trace_path dir) (map (op_of \<circ> held) cs) ord0 (files w) = map Some docs"
    "map (\<lambda>doc. Inr (stored_output doc)) docs = map (\<lambda>b. replayed (fst b) (the (ended b))) cs"
proof -
  have each: "\<exists>doc. replay_run snd (trace_path dir) (map (op_of \<circ> held) cs) ord0 (files w) ! i = Some doc \<and>
      Inr (stored_output doc) = replayed (fst (cs ! i)) (the (ended (cs ! i)))" if i: "i < length cs" for i
  proof -
    let ?c = "held (cs ! i)"
    have well: "begun_well has_avro r ord0 S (calls_of cs) i" and st: "fixture_stored dir (files w) (cs ! i)"
      using inv i by (simp_all add: async_inv_def)
    have nth: "calls_of cs ! i = (fst (cs ! i), ?c)" "map snd (take i (calls_of cs)) = map held (take i cs)"
      using i by (simp_all add: calls_of_def take_map comp_def)
    have n: "ac_ordinal ?c = ord0 (ac_fp ?c) + repetitions (ac_fp ?c) (map held (take i cs))"
      "call_binding (fst (cs ! i)) = Inr (ac_args ?c)"
      using well by (simp_all add: begun_well_def nth del: call_binding.simps)
    have "length (filter (\<lambda>op. snd op = ac_fp ?c) (take i (map (op_of \<circ> held) cs))) =
        length (filter (\<lambda>h. ac_fp h = ac_fp ?c) (map held (take i cs)))"
      by (simp add: take_map filter_map comp_def)
    then have "replay_run snd (trace_path dir) (map (op_of \<circ> held) cs) ord0 (files w) ! i =
        files w (trace_path dir (op_of ?c) (ac_ordinal ?c))"
      using i n(1) by (simp add: replay_run_nth repetitions_def)
    moreover obtain result where "ended (cs ! i) = Some result" using over i by (auto simp: list_all_length)
    ultimately show ?thesis
      using st n(2) by (auto simp: fixture_stored_def replayed_def simp del: call_binding.simps)
  qed
  let ?reads = "replay_run snd (trace_path dir) (map (op_of \<circ> held) cs) ord0 (files w)"
  have len: "length ?reads = length cs" by simp
  show ?thesis
  proof (rule that [of "map the ?reads"])
    show "?reads = map Some (map the ?reads)"
      by (rule nth_equalityI) (use each len in \<open>fastforce simp del: replay_run_Nil\<close>)+
    show "map (\<lambda>doc. Inr (stored_output doc)) (map the ?reads) = map (\<lambda>b. replayed (fst b) (the (ended b))) cs"
      by (rule nth_equalityI) (use each len in \<open>fastforce simp del: replay_run_Nil\<close>)+
  qed (simp add: len)
qed

text \<open>Two calls that overlap, the first to begin ending last.\<close>

abbreviation overlap :: "'a call \<Rightarrow> 'a call \<Rightarrow> ('a, pyval) prog \<Rightarrow> py_exn + pyval \<Rightarrow> py_exn + pyval \<Rightarrow> 'a action list" where
  "overlap a b m x y \<equiv> [Begin a, Begin b, Between m, End 1 y, End 0 x]"

lemma overlap_run:
  assumes w: "recording_in r w" and a: "sig_ok a" "call_binding a = Inr va" and b: "sig_ok b" "call_binding b = Inr vb"
  obtains w' c d where "run (async_step has_avro emit) (w, []) (overlap a b m x y) (w', [(a, c, Some x), (b, d, Some y)])"
proof -
  have enter: "\<exists>c w'. async_step has_avro emit (Begin a) (w, cs) (w', cs @ [(a, c, None)]) \<and> recording_in r w'"
    if "recording_in r w" "sig_ok a" "call_binding a = Inr v" for w and a :: "'a call" and v cs
  proof -
    obtain name f args kwargs where call: "a = (name, f, args, kwargs)" by (cases a)
    have sig: "distinct (map param_name (signature f))" using that(2) by (simp add: call)
    obtain res w1 where run: "async_enter has_avro name f args kwargs w = (res, w1)" by fastforce
    show ?thesis
    proof (rule enter_step [OF that(1) sig run], goal_cases unbound bound)
      case (unbound e)
      then show ?case using that(3) by (simp add: call)
    next
      case (bound c)
      show ?case
        unfolding call by (intro exI [of _ c] exI [of _ w1] conjI async_step.begins bound(9)) (use run bound(1) in simp)
    qed
  qed
  obtain c w1 where 1: "async_step has_avro emit (Begin a) (w, []) (w1, [] @ [(a, c, None)])" "recording_in r w1"
    using enter [OF w a, of "[]"] by blast
  obtain d w2 where 2: "async_step has_avro emit (Begin b) (w1, [(a, c, None)]) (w2, [(a, c, None)] @ [(b, d, None)])"
    using enter [OF 1(2) b, of "[(a, c, None)]"] by blast
  obtain z w3 where m: "m w2 = (z, w3)" by fastforce
  note 3 = async_step.between [of m, OF m, of has_avro emit "[(a, c, None), (b, d, None)]"]
  obtain u w4 where leave: "async_leave has_avro emit d y w3 = (u, w4)" by fastforce
  have 4: "async_step has_avro emit (End 1 y) (w3, [(a, c, None), (b, d, None)]) (w4, [(a, c, None), (b, d, Some y)])"
    using async_step.ends [OF _ _ leave, of 1 "[(a, c, None), (b, d, None)]"] by simp
  obtain t w5 where leave': "async_leave has_avro emit c x w4 = (t, w5)" by fastforce
  have 5: "async_step has_avro emit (End 0 x) (w4, [(a, c, None), (b, d, Some y)]) (w5, [(a, c, Some x), (b, d, Some y)])"
    using async_step.ends [OF _ _ leave', of 0 "[(a, c, None), (b, d, Some y)]"] by simp
  have "run (async_step has_avro emit) (w, []) (overlap a b m x y) (w5, [(a, c, Some x), (b, d, Some y)])"
    by (rule run_Cons run_Nil 1(1) [simplified] 2 [simplified] 3 4 5)+
  then show ?thesis by (rule that)
qed

subsection \<open>Properties\<close>

text \<open>
  C5: concurrent traced calls keep their accounts. However the coroutines of one context interleave, at
  any time the trace depth is what it was plus the number of suspended calls, and no two calls that
  began have the same fingerprint and ordinal; so no fixture is written for two of them.
\<close>

theorem concurrent_calls_account:
  assumes "recording_in r w" "stubs_plain r w" "apart dir K A S"
    and "run (async_step has_avro (\<lambda>s. persist_event dir)) (w, []) ls (w', cs)" "list_all (async_ok has_avro r K A S) ls"
  shows "trace_depth (ctx_at w' r) = trace_depth (ctx_at w r) + int (suspended cs) \<and>
    distinct (map (\<lambda>b. (ac_fp (held b), ac_ordinal (held b))) cs)"
proof -
  note inv = concurrent_run [OF assms]
  have well: "begun_well has_avro r (ordinals_at w r) S (calls_of cs) i" if "i < length cs" for i
    using inv that by (simp add: async_inv_def)
  have "ac_ordinal (held (cs ! i)) \<noteq> ac_ordinal (held (cs ! j))"
    if "i < length cs" "j < length cs" "i \<noteq> j" "ac_fp (held (cs ! i)) = ac_fp (held (cs ! j))" for i j
    using that ordinals_differ [OF well [OF that(1)] well [OF that(2)]] ordinals_differ [OF well [OF that(2)] well [OF that(1)]]
    by (cases "i < j") (auto simp: calls_of_def)
  then have "distinct (map (\<lambda>b. (ac_fp (held b), ac_ordinal (held b))) cs)"
    by (auto simp: distinct_conv_nth)
  then show ?thesis using inv by (simp add: async_inv_def)
qed

lemma tick_apart: "apart [''stubs''] {} {} {(''tick'', tick_fp)}"
  by (simp add: apart_def separated_def clear_of_def)

lemmas tick_runs = quiet_sig_ok [OF tick_outer_calls(1)] tick_outer_calls(4)

lemma tick_actions_ok:
  "quiet m \<Longrightarrow> list_all (async_ok False r {} {} {(''tick'', tick_fp)}) (overlap tick_call tick_call m x y)"
  using tick_outer_calls(1,6) quiet_sig_ok [OF tick_outer_calls(1)]
  by (simp add: confined_quiet del: call_op.simps sig_ok.simps)

lemma stubs_plain_world: "stubs_plain 0 (session_world m snk fs x)"
  by (simp add: stubs_plain_def session_world_def ctx_at_def sim_context_init_def)

theorem concurrent_calls_account_witness:
  "\<exists>w' c d. run (async_step False persist_stubs) (session_world RECORD (Some 0) (\<lambda>_. None) 5, [])
      (overlap tick_call tick_call (ret VNone) (Inr (VInt 8)) (Inr (VInt 7)))
      (w', [(tick_call, c, Some (Inr (VInt 8))), (tick_call, d, Some (Inr (VInt 7)))]) \<and>
    trace_depth (ctx_at w' 0) = 0 \<and> (ac_fp c, ac_ordinal c) \<noteq> (ac_fp d, ac_ordinal d)"
proof -
  let ?w = "session_world RECORD (Some 0) (\<lambda>_. None) (5 :: int)"
  obtain w' c d where run: "run (async_step False persist_stubs) (?w, [])
      (overlap tick_call tick_call (ret VNone) (Inr (VInt 8)) (Inr (VInt 7)))
      (w', [(tick_call, c, Some (Inr (VInt 8))), (tick_call, d, Some (Inr (VInt 7)))])"
    by (rule overlap_run [OF recording_in_world tick_runs tick_runs])
  have "trace_depth (ctx_at ?w 0) = 0" by (simp add: session_world_def ctx_at_def sim_context_init_def)
  with concurrent_calls_account [OF recording_in_world stubs_plain_world tick_apart run tick_actions_ok]
  have "trace_depth (ctx_at w' 0) = 0 \<and> (ac_fp c, ac_ordinal c) \<noteq> (ac_fp d, ac_ordinal d)"
    by (simp add: suspended_def)
  with run show ?thesis by blast
qed

text \<open>
  C4: concurrently recorded calls replay in the order they began. Record coroutines that share a
  context, in any interleaving, until all have ended, with what they do between awaits confined to bounds
  their calls stay clear of. Replaying the calls one after the other, in the order in which they
  began and from the same ordinals, each returns the serialised form of what its coroutine returned, \<open>None\<close> if
  it raised, in whatever order they ended.
\<close>

theorem concurrent_calls_replay:
  assumes "recording_in r w" "stubs_plain r w" "apart dir K A S"
    and "run (async_step has_avro (\<lambda>s. persist_event dir)) (w, []) ls (w', cs)" "list_all (async_ok has_avro r K A S) ls"
    and "list_all (\<lambda>b. ended b \<noteq> None) cs"
    and "session_ctx REPLAY dir s v" "files v = files w'" "ordinals_at v s = ordinals_at w r"
  shows "fst (run_all (map (call_prog has_avro emit) (map fst cs)) v) = map (\<lambda>b. replayed (fst b) (the (ended b))) cs"
proof -
  note inv = concurrent_run [OF assms(1-5)]
  obtain docs where docs: "length docs = length cs"
    "replay_run snd (trace_path dir) (map (op_of \<circ> held) cs) (ordinals_at w r) (files w') = map Some docs"
    "map (\<lambda>doc. Inr (stored_output doc)) docs = map (\<lambda>b. replayed (fst b) (the (ended b))) cs"
    by (rule replay_of_begun [OF inv assms(6)])
  have well: "list_all (\<lambda>(call, c). call_op has_avro call = Some (op_of c) \<and> call_binding call = Inr (ac_args c) \<and> sig_ok call)
      (calls_of cs)"
    using inv by (auto simp: async_inv_def list_all_length begun_well_def case_prod_unfold Let_def
        simp del: call_op.simps call_binding.simps sig_ok.simps)
  have calls: "map fst cs = map fst (calls_of cs)" by (simp add: calls_of_def)
  have "call_ops has_avro (map fst cs) = map (op_of \<circ> snd) (calls_of cs)"
    unfolding calls using well by (intro call_ops_bound) (auto simp: list_all_iff simp del: call_op.simps)
  then have ops: "call_ops has_avro (map fst cs) = map (op_of \<circ> held) cs" by (simp add: calls_of_def comp_def)
  have sig: "list_all sig_ok (map fst cs)"
    unfolding calls using well by (auto simp: list_all_iff simp del: sig_ok.simps)
  have "answers (map fst cs) docs = map (\<lambda>doc. Inr (stored_output doc)) docs"
    unfolding calls using well docs(1)
    by (intro answers_bound) (auto simp: list_all_iff simp del: call_binding.simps)
  then show ?thesis
    using replay_session [OF assms(7) sig, of has_avro docs emit] docs(2,3) by (simp add: ops assms(8,9))
qed

theorem concurrent_calls_replay_witness:
  "\<exists>w' cs. run (async_step False persist_stubs) (session_world RECORD (Some 0) (\<lambda>_. None) 5, [])
      (overlap tick_call tick_call (ret VNone) (Inr (VInt 8)) (Inr (VInt 7))) (w', cs) \<and>
    fst (run_all (map (call_prog False persist_stubs) [tick_call, tick_call])
      (session_world REPLAY None (files w') 0)) = [Inr (VInt 8), Inr (VInt 7)]"
proof -
  let ?w = "session_world RECORD (Some 0) (\<lambda>_. None) (5 :: int)"
  obtain w' c d where run: "run (async_step False persist_stubs) (?w, [])
      (overlap tick_call tick_call (ret VNone) (Inr (VInt 8)) (Inr (VInt 7)))
      (w', [(tick_call, c, Some (Inr (VInt 8))), (tick_call, d, Some (Inr (VInt 7)))])"
    by (rule overlap_run [OF recording_in_world tick_runs tick_runs])
  let ?cs = "[(tick_call, c, Some (Inr (VInt 8))), (tick_call, d, Some (Inr (VInt 7)))]"
  have "fst (run_all (map (call_prog False persist_stubs) (map fst ?cs)) (session_world REPLAY None (files w') 0)) =
      map (\<lambda>b. replayed (fst b) (the (ended b))) ?cs"
    using concurrent_calls_replay [OF recording_in_world stubs_plain_world tick_apart run tick_actions_ok _
          session_world_ctx(1), of None "files w'" 0 persist_stubs] by (simp add: session_world_ctx del: call_prog.simps)
  also have "\<dots> = [Inr (VInt 8), Inr (VInt 7)]"
    using tick_outer_calls(4) by (simp add: replayed_def del: call_binding.simps)
  finally show ?thesis using run by auto
qed


text \<open>A traced function that does nothing, called twice, and a query between its two calls.\<close>

abbreviation idle_call :: "fixture_event list call" where
  "idle_call \<equiv> (None, \<lparr>qualname = ''idle'', signature = [], body = (\<lambda>args kwargs. ret VNone)\<rparr>, [], [])"

abbreviation keep_event :: "nat \<Rightarrow> fixture_event \<Rightarrow> (fixture_event list, unit) prog" where
  "keep_event \<equiv> (\<lambda>s e w. (Inr (), w\<lparr>app := app w @ [e]\<rparr>))"

abbreviation query_stub :: pyval where
  "query_stub \<equiv> db_stub ''db'' ''SELECT 1'' 0 (VList [VList [VInt 1]]) ''record''"


end
