(* ===== verification/Record_Sink.thy ===== *)
theory Record_Sink
  imports Event_Buffer Trace_Session
begin

text \<open>
  The buffered sink base class (sim_sdk/sink/record_sink.py). \<open>_persist_batch\<close> is abstract there:
  it is an argument, a computation over whatever state \<open>'s\<close> the subclass writes to.

  The last part instantiates it as \<open>StubDirSink\<close> does (tests/test_trace.py) and shows that the
  sink then behaves as the one-event writer the trace sessions use.
\<close>

subsection \<open>\<open>RecordSink\<close>\<close>

record 'e record_sink =
  sink_buffer :: "'e memory_buffer"
  max_batch_events :: int

definition record_sink_init :: "int \<Rightarrow> int \<Rightarrow> drop_policy \<Rightarrow> 'e record_sink" where
  "record_sink_init bytes batch policy =
     \<lparr>sink_buffer = memory_buffer_init bytes policy, max_batch_events = batch\<rparr>"

type_synonym ('e, 's) writer = "'e list \<Rightarrow> 's \<Rightarrow> (py_exn + unit) \<times> 's"

definition sink_flush ::
  "('e, 's) writer \<Rightarrow> 'e record_sink \<Rightarrow> 's \<Rightarrow> (py_exn + unit) \<times> 'e record_sink \<times> 's" where
  "sink_flush persist k s =
     (let (batch, b) = buffer_drain (sink_buffer k); k1 = k\<lparr>sink_buffer := b\<rparr> in
      if batch \<noteq> [] then (let (res, s1) = persist batch s in (res, k1, s1)) else (Inr (), k1, s))"

definition sink_emit ::
  "('e, 's) writer \<Rightarrow> int \<times> nat \<Rightarrow> 'e \<Rightarrow> 'e record_sink \<Rightarrow> 's \<Rightarrow>
    (py_exn + unit) \<times> 'e record_sink \<times> 's" where
  "sink_emit persist reading e k s =
     (let k1 = k\<lparr>sink_buffer := buffer_append reading e (sink_buffer k)\<rparr> in
      if max_batch_events k1 \<le> int (buffer_len (sink_buffer k1)) then sink_flush persist k1 s
      else (Inr (), k1, s))"

definition sink_close ::
  "('e, 's) writer \<Rightarrow> 'e record_sink \<Rightarrow> 's \<Rightarrow> (py_exn + unit) \<times> 'e record_sink \<times> 's" where
  "sink_close persist k s = sink_flush persist k s"

subsection \<open>A run of emissions\<close>

text \<open>A writer that keeps the batches it is given.\<close>

definition keep_batches :: "('e, 'e list list) writer" where
  "keep_batches batch s = (Inr (), s @ [batch])"

fun emit_all ::
  "('e, 's) writer \<Rightarrow> ((int \<times> nat) \<times> 'e) list \<Rightarrow> 'e record_sink \<Rightarrow> 's \<Rightarrow> 'e record_sink \<times> 's" where
  "emit_all persist [] k s = (k, s)"
| "emit_all persist ((r, e) # xs) k s =
     (let (res, k1, s1) = sink_emit persist r e k s in emit_all persist xs k1 s1)"

text \<open>What an emission does to the buffer and the kept batches.\<close>

lemma sink_emit_keep:
  assumes "fst r < max_buffer_bytes (sink_buffer k)"
  shows "sink_emit keep_batches r e k s =
    (if max_batch_events k \<le> int (length (buffer (sink_buffer k))) + 1
     then (Inr (), k\<lparr>sink_buffer := (sink_buffer k)\<lparr>buffer := []\<rparr>\<rparr>, s @ [buffer (sink_buffer k) @ [e]])
     else (Inr (), k\<lparr>sink_buffer := (sink_buffer k)\<lparr>buffer := buffer (sink_buffer k) @ [e]\<rparr>\<rparr>, s))"
  using assms
  by (cases r) (simp add: sink_emit_def sink_flush_def buffer_append_def buffer_drain_def buffer_len_def keep_batches_def Let_def)

definition batches_inv :: "'e record_sink \<Rightarrow> 'e list list \<Rightarrow> bool" where
  "batches_inv k s \<longleftrightarrow> int (length (buffer (sink_buffer k))) < max_batch_events k \<and>
     list_all (\<lambda>b. int (length b) = max_batch_events k) s"

lemma emit_all_batches:
  assumes "batches_inv k s" "list_all (\<lambda>(r, e). fst r < max_buffer_bytes (sink_buffer k)) xs"
    and "emit_all keep_batches xs k s = (k', s')"
  shows "batches_inv k' s' \<and> max_batch_events k' = max_batch_events k \<and>
    concat s' @ buffer (sink_buffer k') = concat s @ buffer (sink_buffer k) @ map snd xs"
  using assms
proof (induction xs arbitrary: k s)
  case (Cons x xs)
  obtain r e where x: "x = (r, e)" by fastforce
  have r: "fst r < max_buffer_bytes (sink_buffer k)" using Cons.prems(2) by (simp add: x)
  obtain k1 s1 where step: "sink_emit keep_batches r e k s = (Inr (), k1, s1)"
    "batches_inv k1 s1" "max_batch_events k1 = max_batch_events k"
    "max_buffer_bytes (sink_buffer k1) = max_buffer_bytes (sink_buffer k)"
    "concat s1 @ buffer (sink_buffer k1) = concat s @ buffer (sink_buffer k) @ [e]"
    using Cons.prems(1) sink_emit_keep [OF r, of e s] by (auto simp: batches_inv_def split: if_splits)
  have "emit_all keep_batches xs k1 s1 = (k', s')" using Cons.prems(3) by (simp add: x step(1))
  moreover have "list_all (\<lambda>(r, e). fst r < max_buffer_bytes (sink_buffer k1)) xs"
    using Cons.prems(2) step(4) by simp
  ultimately show ?case using Cons.IH [OF step(2)] step(3,5) by (simp add: x)
qed simp

subsection \<open>Properties\<close>



text \<open>
  A batch whose writing fails is lost. \<open>flush\<close> empties the buffer before it calls
  \<open>_persist_batch\<close>; when that raises, the exception reaches the caller of \<open>emit\<close>, \<open>flush\<close> or
  \<open>close\<close>, the events are in neither the buffer nor the store, and a second flush writes nothing.
\<close>

theorem failed_batch_is_lost:
  assumes "sink_flush persist k s = (Inl err, k1, s1)"
  shows "buffer (sink_buffer k1) = [] \<and> sink_flush persist k1 s1 = (Inr (), k1, s1)"
  using assms by (auto simp: sink_flush_def buffer_drain_def case_prod_unfold Let_def split: if_splits)

theorem failed_batch_is_lost_witness:
  "buffer (sink_buffer (fst (snd (sink_flush (\<lambda>b s. (Inl (UserExn ''OSError'' ''disk full''), s))
     ((record_sink_init 1000 2 DROP_OLDEST)\<lparr>sink_buffer := \<lparr>buffer = [''a''], max_buffer_bytes = 1000,
        buf_policy = DROP_OLDEST\<rparr>\<rparr>) ())))) = []"
  using failed_batch_is_lost
    [of "\<lambda>b s. (Inl (UserExn ''OSError'' ''disk full''), s)"
      "(record_sink_init 1000 2 DROP_OLDEST)\<lparr>sink_buffer := \<lparr>buffer = [''a''], max_buffer_bytes = 1000,
        buf_policy = DROP_OLDEST\<rparr>\<rparr>" "()"]
  by (simp add: sink_flush_def buffer_drain_def)

subsection \<open>The sink of the trace sessions\<close>

text \<open>\<open>StubDirSink._persist_batch\<close>: one file per event of the batch.\<close>

primrec persist_batch :: "path \<Rightarrow> (fixture_event, 'a world) writer" where
  "persist_batch dir [] w = (Inr (), w)"
| "persist_batch dir (e # es) w =
     (case persist_event dir e w of (Inl err, w1) \<Rightarrow> (Inl err, w1) | (Inr _, w1) \<Rightarrow> persist_batch dir es w1)"

text \<open>
  The sink of the trace sessions is the repository's. A \<open>RecordSink\<close> of batch size one whose
  batches go to fixture files writes, on each emission from an empty buffer, exactly the one
  file \<open>persist_event\<close> writes, raises what it raises, and has an empty buffer again.
\<close>

theorem stub_dir_sink_refines_persist:
  assumes "buffer (sink_buffer k) = []" "max_batch_events k = 1"
  shows "sink_emit (persist_batch dir) reading e k w =
    (fst (persist_event dir e w), k, snd (persist_event dir e w))"
proof -
  have "persist_batch dir [e] w = persist_event dir e w"
    by (auto split: prod.split sum.split)
  moreover have "k\<lparr>sink_buffer := (sink_buffer k)\<lparr>buffer := []\<rparr>\<rparr> = k"
    using assms(1) by (cases k; cases "sink_buffer k") simp
  ultimately show ?thesis
    using assms
    by (cases reading) (simp add: sink_emit_def sink_flush_def buffer_append_def buffer_drain_def buffer_len_def
        case_prod_unfold Let_def del: persist_batch.simps)
qed

theorem stub_dir_sink_refines_persist_witness:
  "fst (sink_emit (persist_batch [''stubs'']) (56, 0) (fixture_event_init ''1'' ''f'' ''r'' ''now'')
     (record_sink_init 1000000 1 DROP_OLDEST) (session_world RECORD None (\<lambda>_. None) ())) = Inr ()"
proof -
  have "plain (to_dict (fixture_event_init ''1'' ''f'' ''r'' ''now''))"
    by (rule to_dict_plain) (simp_all add: fixture_event_init_def)
  then have "fst (persist_event [''stubs''] (fixture_event_init ''1'' ''f'' ''r'' ''now'')
      (session_world RECORD None (\<lambda>_. None) ())) = Inr ()"
    by (simp add: persist_plain)
  then show ?thesis
    by (subst stub_dir_sink_refines_persist) (simp_all add: record_sink_init_def memory_buffer_init_def)
qed

end
