(* ===== verification/Redaction.thy ===== *)
theory Redaction
  imports Canonical
begin

text \<open>
  Redaction, pseudonymisation and the scan for sensitive keys (sim_sdk/redaction.py).

  jsonpath-ng is a parameter: whether it is installed, and for a pattern and data the matches it
  finds, each the text of its full path and its value, or nothing if parsing or searching raises.
  Data is a tree: no dictionary or list is reachable in two ways, so that changing one in place is
  replacing it. What \<open>redact\<close> and \<open>pseudonymize\<close> return comes with what the caller's data is
  afterwards, which differs only if they work in place.
\<close>

subsection \<open>Paths\<close>

definition DEFAULT_REDACT_PATHS :: "string list" where
  "DEFAULT_REDACT_PATHS =
     [''$.*.email'', ''$.*.password'', ''$.*.ssn'', ''$.*.social_security_number'', ''$.*.card_number'',
      ''$.*.credit_card'', ''$.*.cvv'', ''$.*.cvc'', ''$.*.secret'', ''$.*.api_key'', ''$.*.token'',
      ''$.*.auth'', ''$.*.authorization'']"

definition REDACTED_PLACEHOLDER :: string where
  "REDACTED_PLACEHOLDER = ''[REDACTED]''"

definition DEFAULT_PSEUDONYM_SALT :: string where
  "DEFAULT_PSEUDONYM_SALT = ''sim_sdk_default_salt_v1''"

datatype seg = SKey string | SIdx nat

definition key_part :: "char \<Rightarrow> bool" where
  "key_part c \<longleftrightarrow> c \<notin> set ''.[]''"

text \<open>
  \<open>re.findall\<close> of \<open>\.?([^\.\[\]]+)|\[(\d+)\]\<close>: a run of other characters, after a dot or not, is a
  key, digits in brackets are an index, and a character that starts neither is skipped.
\<close>

function find_segments :: "string \<Rightarrow> seg list" where
  "find_segments [] = []"
| "find_segments (c # cs) =
     (if key_part c then SKey (c # takeWhile key_part cs) # find_segments (dropWhile key_part cs)
      else if c = CHR ''['' \<and> takeWhile is_digit cs \<noteq> [] \<and> take 1 (dropWhile is_digit cs) = '']'' then
        SIdx (nat_of_dec 0 (takeWhile is_digit cs)) # find_segments (drop 1 (dropWhile is_digit cs))
      else find_segments cs)"
  by pat_completeness auto
termination
  by (relation "measure length")
    (auto simp: less_Suc_eq_le length_dropWhile_le intro: le_trans [OF diff_le_self])

definition parse_path_segments :: "string \<Rightarrow> seg list" where
  "parse_path_segments s = find_segments (if prefix ''$'' s then drop 1 s else s)"

subsection \<open>\<open>_set_value_at_path\<close>\<close>

text \<open>The key of a dictionary that an integer subscript finds: \<open>True\<close> is equal to 1.\<close>

definition int_key :: "(pykey \<times> pyval) list \<Rightarrow> nat \<Rightarrow> pykey" where
  "int_key kvs n =
     (case find (\<lambda>k. key_number k = Some (int n)) (map fst kvs) of None \<Rightarrow> KInt (int n) | Some k \<Rightarrow> k)"

fun seg_key :: "(pykey \<times> pyval) list \<Rightarrow> seg \<Rightarrow> pykey" where
  "seg_key kvs (SKey k) = KStr k"
| "seg_key kvs (SIdx n) = int_key kvs n"

text \<open>
  \<open>current[segment]\<close>, where an assignment below it can still succeed: what a string or bytes
  object yields cannot be assigned to. \<open>None\<close> is a raised exception.
\<close>

fun child :: "seg \<Rightarrow> pyval \<Rightarrow> pyval option" where
  "child s (VDict kvs) = dict_get kvs (seg_key kvs s)"
| "child (SIdx n) (VList xs) = (if n < length xs then Some (xs ! n) else None)"
| "child (SIdx n) (VTuple xs) = (if n < length xs then Some (xs ! n) else None)"
| "child _ _ = None"

fun put_child :: "seg \<Rightarrow> pyval \<Rightarrow> pyval \<Rightarrow> pyval" where
  "put_child s v (VDict kvs) = VDict (AList.update (seg_key kvs s) v kvs)"
| "put_child (SIdx n) v (VList xs) = VList (xs[n := v])"
| "put_child (SIdx n) v (VTuple xs) = VTuple (xs[n := v])"
| "put_child _ v d = d"

text \<open>\<open>current[segment] = value\<close>: a dictionary takes any key, a list an index it has.\<close>

fun assign_child :: "seg \<Rightarrow> pyval \<Rightarrow> pyval \<Rightarrow> pyval option" where
  "assign_child s v (VDict kvs) = Some (put_child s v (VDict kvs))"
| "assign_child (SIdx n) v (VList xs) = (if n < length xs then Some (put_child (SIdx n) v (VList xs)) else None)"
| "assign_child _ v _ = None"

fun set_at :: "seg list \<Rightarrow> pyval \<Rightarrow> pyval \<Rightarrow> pyval option" where
  "set_at [] v d = Some d"
| "set_at [s] v d = assign_child s v d"
| "set_at (s # ss) v d =
     (case child s d of
        None \<Rightarrow> None
      | Some c \<Rightarrow> (case set_at ss v c of None \<Rightarrow> None | Some c' \<Rightarrow> Some (put_child s c' d)))"

definition set_value_at_path :: "string \<Rightarrow> pyval \<Rightarrow> pyval \<Rightarrow> pyval option" where
  "set_value_at_path path v d = set_at (parse_path_segments path) v d"

subsection \<open>\<open>_simple_transform\<close>\<close>

text \<open>The text after the last \<open>*.\<close>, that is \<open>path.split('*.')[-1]\<close>.\<close>

fun after_star :: "string \<Rightarrow> string option" where
  "after_star [] = None"
| "after_star (c # cs) =
     (case after_star cs of
        Some r \<Rightarrow> Some r
      | None \<Rightarrow> if c = CHR ''*'' \<and> take 1 cs = ''.'' then Some (drop 1 cs) else None)"

definition simple_key :: "string \<Rightarrow> string option" where
  "simple_key path =
     (if sublist ''.*.'' path then after_star path
      else if prefix ''$.'' path then Some (hd (split_on (CHR ''.'') (drop 2 path)))
      else None)"

definition simple_keys :: "string list \<Rightarrow> string list" where
  "simple_keys paths = List.map_filter simple_key paths"

fun key_in :: "pykey \<Rightarrow> string list \<Rightarrow> bool" where
  "key_in (KStr k) keys = (k \<in> set keys)"
| "key_in _ keys = False"

fun transform_dict :: "string list \<Rightarrow> (pyval \<Rightarrow> pyval) \<Rightarrow> pyval \<Rightarrow> pyval" where
  "transform_dict keys f (VDict kvs) =
     VDict (map (\<lambda>(k, v). (k, if key_in k keys then f v else transform_dict keys f v)) kvs)"
| "transform_dict keys f (VList xs) = VList (map (transform_dict keys f) xs)"
| "transform_dict keys f d = d"

fun is_dict :: "pyval \<Rightarrow> bool" where
  "is_dict (VDict _) = True"
| "is_dict _ = False"

definition simple_transform :: "pyval \<Rightarrow> string list \<Rightarrow> (pyval \<Rightarrow> pyval) \<Rightarrow> pyval" where
  "simple_transform d paths f = (if is_dict d then transform_dict (simple_keys paths) f d else d)"

subsection \<open>\<open>redact\<close> and \<open>pseudonymize\<close>\<close>

type_synonym jsonpath = "string \<Rightarrow> pyval \<Rightarrow> (string \<times> pyval) list option"

text \<open>
  The matches of one pattern, up to the first that cannot be set. The value of a match is the
  object found: while a dictionary, list or tuple is still in its place, it shows what has since
  been changed in it.
\<close>

fun get_at :: "seg list \<Rightarrow> pyval \<Rightarrow> pyval option" where
  "get_at [] d = Some d"
| "get_at (s # ss) d = (case child s d of None \<Rightarrow> None | Some c \<Rightarrow> get_at ss c)"

fun live_value :: "pyval \<Rightarrow> pyval option \<Rightarrow> pyval" where
  "live_value v (Some (VDict kvs)) = VDict kvs"
| "live_value v (Some (VList xs)) = VList xs"
| "live_value v (Some (VTuple xs)) = VTuple xs"
| "live_value v _ = v"

fun replace_matches :: "(pyval \<Rightarrow> pyval) \<Rightarrow> (string \<times> pyval) list \<Rightarrow> pyval \<Rightarrow> pyval" where
  "replace_matches f [] d = d"
| "replace_matches f ((path, v) # ms) d =
     (case set_value_at_path path (f (live_value v (get_at (parse_path_segments path) d))) d of None \<Rightarrow> d | Some d' \<Rightarrow> replace_matches f ms d')"

primrec replace_all :: "jsonpath \<Rightarrow> (pyval \<Rightarrow> pyval) \<Rightarrow> string list \<Rightarrow> pyval \<Rightarrow> pyval" where
  "replace_all jp f [] d = d"
| "replace_all jp f (path # paths) d =
     (case jp path d of
        None \<Rightarrow> replace_all jp f paths d
      | Some ms \<Rightarrow> replace_all jp f paths (replace_matches f ms d))"

fun is_container :: "pyval \<Rightarrow> bool" where
  "is_container (VDict _) = True"
| "is_container (VList _) = True"
| "is_container _ = False"

text \<open>The frame both functions share: the value returned, and the caller's data afterwards.\<close>

definition with_paths ::
  "bool \<Rightarrow> jsonpath \<Rightarrow> (pyval \<Rightarrow> pyval) \<Rightarrow> pyval \<Rightarrow> string list option \<Rightarrow> bool \<Rightarrow> pyval \<times> pyval" where
  "with_paths has_jsonpath jp f d paths in_place =
     (if \<not> is_container d then (d, d)
      else let ps = (case paths of None \<Rightarrow> DEFAULT_REDACT_PATHS | Some ps \<Rightarrow> ps) in
        if ps = [] then (d, d)
        else if \<not> has_jsonpath then (simple_transform d ps f, d)
        else let d' = replace_all jp f ps d in (d', if in_place then d' else d))"

definition redact ::
  "bool \<Rightarrow> jsonpath \<Rightarrow> pyval \<Rightarrow> string list option \<Rightarrow> string \<Rightarrow> bool \<Rightarrow> pyval \<times> pyval" where
  "redact has_jsonpath jp d paths placeholder in_place =
     with_paths has_jsonpath jp (\<lambda>v. VStr placeholder) d paths in_place"

definition make_pseudonym :: "string \<Rightarrow> int \<Rightarrow> pyval \<Rightarrow> pyval" where
  "make_pseudonym salt n v =
     (case v of
        VNone \<Rightarrow> VNone
      | _ \<Rightarrow> VStr (py_take n (sha256_hexdigest (utf8_encode (salt @ '':'' @ py_str v)))))"

definition pseudonymize ::
  "bool \<Rightarrow> jsonpath \<Rightarrow> pyval \<Rightarrow> string list option \<Rightarrow> string \<Rightarrow> int \<Rightarrow> bool \<Rightarrow> pyval \<times> pyval" where
  "pseudonymize has_jsonpath jp d paths salt n in_place =
     with_paths has_jsonpath jp (make_pseudonym salt n) d paths in_place"

text \<open>The returned functions of \<open>create_redactor\<close> and \<open>create_pseudonymizer\<close>.\<close>

definition create_redactor ::
  "bool \<Rightarrow> jsonpath \<Rightarrow> string list \<Rightarrow> string \<Rightarrow> pyval \<Rightarrow> pyval \<times> pyval" where
  "create_redactor has_jsonpath jp paths placeholder =
     (\<lambda>d. redact has_jsonpath jp d (Some paths) placeholder False)"

definition create_pseudonymizer ::
  "bool \<Rightarrow> jsonpath \<Rightarrow> string list \<Rightarrow> string \<Rightarrow> int \<Rightarrow> pyval \<Rightarrow> pyval \<times> pyval" where
  "create_pseudonymizer has_jsonpath jp paths salt n =
     (\<lambda>d. pseudonymize has_jsonpath jp d (Some paths) salt n False)"

subsection \<open>\<open>detect_sensitive_keys\<close>\<close>

text \<open>
  The patterns are words with \<open>.?\<close> between them, matched anywhere and in any case; \<open>.\<close> is any
  character but a newline.
\<close>

definition sensitive_patterns :: "string list list" where
  "sensitive_patterns =
     [[''email''], [''password''], [''passwd''], [''ssn''], [''social'', ''security''],
      [''card'', ''number''], [''credit'', ''card''], [''cvv''], [''cvc''], [''secret''], [''api'', ''key''],
      [''token''], [''auth''], [''bearer''], [''phone''], [''address''], [''dob''], [''birth'', ''date'']]"

fun match_words :: "string list \<Rightarrow> string \<Rightarrow> bool" where
  "match_words [] s = True"
| "match_words [w] s = prefix (map ascii_upper w) (map ascii_upper s)"
| "match_words (w # ws) s \<longleftrightarrow> prefix (map ascii_upper w) (map ascii_upper s) \<and>
     (let r = drop (length w) s in
      match_words ws r \<or> (r \<noteq> [] \<and> code_point (hd r) \<noteq> 10 \<and> match_words ws (tl r)))"

definition re_search :: "string list \<Rightarrow> string \<Rightarrow> bool" where
  "re_search ws s = list_ex (match_words ws) (suffixes s)"

definition sensitive_key :: "string \<Rightarrow> bool" where
  "sensitive_key k = list_ex (\<lambda>p. re_search p k) sensitive_patterns"

text \<open>\<open>re.search\<close> on a key that is not a string raises.\<close>

fun check_key :: "pykey \<Rightarrow> py_exn + bool" where
  "check_key (KStr k) = Inr (sensitive_key k)"
| "check_key _ = Inl (TypeErr ''expected string or bytes-like object'')"

function scan_for_sensitive :: "pyval \<Rightarrow> string \<Rightarrow> py_exn + string list" where
  "scan_for_sensitive (VDict kvs) path =
     ebind (emap (\<lambda>(k, v). ebind (check_key k) (\<lambda>hit.
         ebind (scan_for_sensitive v (path @ ''.'' @ key_str k)) (\<lambda>found.
         Inr ((if hit then [path @ ''.'' @ key_str k] else []) @ found)))) kvs)
       (\<lambda>fs. Inr (concat fs))"
| "scan_for_sensitive (VList xs) path =
     ebind (emap (\<lambda>(i, v). scan_for_sensitive v (path @ ''['' @ dec_nat i @ '']'')) (List.enumerate 0 xs))
       (\<lambda>fs. Inr (concat fs))"
| "scan_for_sensitive VNone path = Inr []"
| "scan_for_sensitive (VBool b) path = Inr []"
| "scan_for_sensitive (VInt i) path = Inr []"
| "scan_for_sensitive (VFloat f) path = Inr []"
| "scan_for_sensitive (VStr s) path = Inr []"
| "scan_for_sensitive (VBytes bs) path = Inr []"
| "scan_for_sensitive (VTuple xs) path = Inr []"
| "scan_for_sensitive (VSet xs) path = Inr []"
| "scan_for_sensitive (VObj isof flt proto avro attrs itr s r t) path = Inr []"
  by pat_completeness auto
termination
  by (relation "measure (\<lambda>(d, path). weight d)")
    (auto simp: in_set_enumerate_eq intro: weight_member weight_element [OF nth_mem])

definition detect_sensitive_keys :: "pyval \<Rightarrow> py_exn + string list" where
  "detect_sensitive_keys d = scan_for_sensitive d ''$''"

subsection \<open>What the key-based transformation does\<close>

fun seg_in :: "seg \<Rightarrow> string list \<Rightarrow> bool" where
  "seg_in (SKey k) keys = (k \<in> set keys)"
| "seg_in (SIdx n) keys = False"

lemma map_of_map_items: "map_of (map (\<lambda>(k, v). (k, g k v)) kvs) k = map_option (g k) (map_of kvs k)"
  by (induction kvs) auto

lemma seg_key_items: "seg_key (map (\<lambda>(k, v). (k, g k v)) kvs) s = seg_key kvs s"
  by (cases s) (simp_all add: int_key_def comp_def case_prod_unfold)

lemma key_in_seg_key: "key_in (seg_key kvs s) keys = seg_in s keys"
proof (cases s)
  case (SIdx n)
  have "\<not> key_in k keys" if "key_number k = Some (int n)" for k
    using that by (cases k) auto
  then show ?thesis
    using SIdx by (auto simp: int_key_def find_Some_iff split: option.split)
qed simp

lemma child_transform:
  assumes "plain d"
  shows "child s (transform_dict keys f d) =
    map_option (\<lambda>v. if seg_in s keys then f v else transform_dict keys f v) (child s d)"
proof (cases d)
  case (VDict kvs)
  then show ?thesis by (simp add: map_of_map_items seg_key_items key_in_seg_key)
next
  case (VList xs)
  then show ?thesis by (cases s) auto
qed (use assms in \<open>cases s; simp\<close>)+

lemma child_plain: "plain d \<Longrightarrow> child s d = Some c \<Longrightarrow> plain c"
  by (cases "(s, d)" rule: child.cases)
    (auto simp: list_all_iff dest!: map_of_SomeD split: if_splits)

definition clean :: "string list \<Rightarrow> seg list \<Rightarrow> bool" where
  "clean keys q \<longleftrightarrow> list_all (\<lambda>s. \<not> seg_in s keys) q"

lemma get_at_transform:
  "plain d \<Longrightarrow> clean keys q \<Longrightarrow>
    get_at q (transform_dict keys f d) = map_option (transform_dict keys f) (get_at q d)"
proof (induction q arbitrary: d)
  case (Cons s q)
  then show ?case
    by (auto simp: child_transform clean_def child_plain split: option.split)
qed simp

lemma get_at_append:
  "get_at (q @ r) d = (case get_at q d of None \<Rightarrow> None | Some c \<Rightarrow> get_at r c)"
  by (induction q arbitrary: d) (auto split: option.split)

lemma get_at_plain: "plain d \<Longrightarrow> get_at q d = Some c \<Longrightarrow> plain c"
  by (induction q arbitrary: d) (auto split: option.splits dest: child_plain)

lemma get_at_transformed_key:
  assumes "plain d" "clean keys q" "k \<in> set keys"
  shows "get_at (q @ [SKey k]) (transform_dict keys f d) = map_option f (get_at (q @ [SKey k]) d)"
  using assms get_at_plain [OF assms(1)]
  by (auto simp: get_at_append get_at_transform child_transform split: option.split)

lemma with_paths_fallback:
  "is_dict d \<Longrightarrow> paths \<noteq> [] \<Longrightarrow>
    with_paths False jp f d (Some paths) in_place = (transform_dict (simple_keys paths) f d, d)"
  by (cases d) (simp_all add: with_paths_def simple_transform_def)

subsection \<open>Properties\<close>


definition sample_user :: pyval where
  "sample_user = VDict [(KStr ''user'', VDict
     [(KStr ''email'', VStr ''a@b.c''), (KStr ''name'', VStr ''Ann'')])]"

lemma sample_user_facts: "plain sample_user" "is_dict sample_user"
  by (simp_all add: sample_user_def)

lemma simple_keys_email: "simple_keys [''$.*.email''] = [''email'']"
  by (simp add: simple_keys_def List.map_filter_def simple_key_def sublist_code)


text \<open>
  Pseudonyms preserve equality of texts. Without jsonpath-ng, two values under listed keys, in
  the same data and not \<open>None\<close>, get equal pseudonyms if their \<open>str\<close> texts are equal, which also
  identifies \<open>1\<close> with \<open>'1'\<close>; and if all 64 digits are kept, equal pseudonyms come from equal texts
  or from a collision of SHA-256.
\<close>

theorem pseudonyms_follow_text:
  assumes "plain d" "is_dict d" "paths \<noteq> []"
    and "clean (simple_keys paths) q" "k \<in> set (simple_keys paths)"
    and "clean (simple_keys paths) q'" "k' \<in> set (simple_keys paths)"
    and "get_at (q @ [SKey k]) d = Some v" "get_at (q' @ [SKey k']) d = Some w" "v \<noteq> VNone" "w \<noteq> VNone"
    and "pseudonymize False jp d (Some paths) salt n in_place = (r, d')"
  shows "(py_str v = py_str w \<longrightarrow> get_at (q @ [SKey k]) r = get_at (q' @ [SKey k']) r) \<and>
    (64 \<le> n \<and> get_at (q @ [SKey k]) r = get_at (q' @ [SKey k']) r \<longrightarrow>
      py_str v = py_str w \<or> sha256_collision (salt @ '':'' @ py_str v) (salt @ '':'' @ py_str w))"
proof -
  have r: "r = transform_dict (simple_keys paths) (make_pseudonym salt n) d"
    using assms(12) with_paths_fallback [OF assms(2,3)] by (auto simp: pseudonymize_def)
  have *: "get_at (q @ [SKey k]) r = Some (make_pseudonym salt n v)"
    "get_at (q' @ [SKey k']) r = Some (make_pseudonym salt n w)"
    using get_at_transformed_key [OF assms(1,4,5), of "make_pseudonym salt n"]
      get_at_transformed_key [OF assms(1,6,7), of "make_pseudonym salt n"] assms(8,9) by (simp_all add: r)
  have p: "make_pseudonym salt n u =
      VStr (py_take n (sha256_hexdigest (utf8_encode (salt @ '':'' @ py_str u))))" if "u \<noteq> VNone" for u
    using that by (cases u) (simp_all add: make_pseudonym_def)
  show ?thesis
    using p [OF assms(10)] p [OF assms(11)]
    by (auto simp: * sha256_collision_def py_take_def length_sha256_hexdigest)
qed

theorem pseudonyms_follow_text_witness:
  "get_at [SKey ''a''] (fst (pseudonymize False (\<lambda>p d. None) (VDict [(KStr ''a'', VInt 1), (KStr ''b'', VStr ''1'')])
     (Some [''$.a'', ''$.b'']) DEFAULT_PSEUDONYM_SALT 16 False)) =
   get_at [SKey ''b''] (fst (pseudonymize False (\<lambda>p d. None) (VDict [(KStr ''a'', VInt 1), (KStr ''b'', VStr ''1'')])
     (Some [''$.a'', ''$.b'']) DEFAULT_PSEUDONYM_SALT 16 False))"
proof -
  define d where "d = VDict [(KStr ''a'', VInt 1), (KStr ''b'', VStr ''1'')]"
  have d: "plain d" "is_dict d" "get_at ([] @ [SKey ''a'']) d = Some (VInt 1)" "get_at ([] @ [SKey ''b'']) d = Some (VStr ''1'')"
    by (simp_all add: d_def)
  have keys: "simple_keys [''$.a'', ''$.b''] = [''a'', ''b'']"
    by (simp add: simple_keys_def List.map_filter_def simple_key_def sublist_code)
  have "py_str (VInt 1) = py_str (VStr ''1'')" by (simp add: dec_int_def dec_nat.simps digit_char_def char_of_def bit_0)
  with pseudonyms_follow_text [OF d(1,2) _ _ _ _ _ d(3,4) _ _ surjective_pairing,
      where paths = "[''$.a'', ''$.b'']" and jp = "\<lambda>p d. None" and salt = DEFAULT_PSEUDONYM_SALT
        and n = 16 and in_place = False]
  show ?thesis by (simp add: keys clean_def d_def)
qed

text \<open>
  What the fallback does not do. Without jsonpath-ng a list at the root is returned as it is,
  whatever it contains; a path of two keys, as \<open>$.user.email\<close>, replaces the whole value under its
  first key, at any depth.
\<close>

theorem fallback_limits:
  "redact False jp (VList xs) (Some paths) placeholder in_place = (VList xs, VList xs) \<and>
   fst (redact False jp (VDict [(KStr ''account'', VDict [(KStr ''user'', v)])]) (Some [''$.user.email''])
     placeholder in_place) = VDict [(KStr ''account'', VDict [(KStr ''user'', VStr placeholder)])]"
  by (simp add: redact_def with_paths_def simple_transform_def simple_keys_def List.map_filter_def
      simple_key_def sublist_code)

text \<open>
  A match inside another ends the pattern. When jsonpath-ng finds a key, the same key inside its
  value and a third one elsewhere, in that order, redacting the first leaves no place to set the
  second; the exception is swallowed with the rest of the matches, and the third value stays in the
  returned data.
\<close>

theorem nested_match_leaks:
  assumes "jp path (VDict [(KStr ''secret'', VDict [(KStr ''secret'', v)]), (KStr ''z'', VDict [(KStr ''secret'', w)])])
    = Some [(''secret'', VDict [(KStr ''secret'', v)]), (''secret.secret'', v), (''z.secret'', w)]"
  shows "fst (redact True jp
      (VDict [(KStr ''secret'', VDict [(KStr ''secret'', v)]), (KStr ''z'', VDict [(KStr ''secret'', w)])])
      (Some [path]) placeholder in_place) =
    VDict [(KStr ''secret'', VStr placeholder), (KStr ''z'', VDict [(KStr ''secret'', w)])]"
proof -
  have "parse_path_segments ''secret'' = [SKey ''secret'']"
    "parse_path_segments ''secret.secret'' = [SKey ''secret'', SKey ''secret'']"
    "parse_path_segments ''z.secret'' = [SKey ''z'', SKey ''secret'']"
    by (simp_all add: parse_path_segments_def key_part_def)
  then show ?thesis
    using assms by (simp add: redact_def with_paths_def set_value_at_path_def Let_def)
qed

theorem nested_match_leaks_witness:
  "fst (redact True
      (\<lambda>p d. Some [(''secret'', VDict [(KStr ''secret'', VInt 1)]), (''secret.secret'', VInt 1), (''z.secret'', VInt 2)])
      (VDict [(KStr ''secret'', VDict [(KStr ''secret'', VInt 1)]), (KStr ''z'', VDict [(KStr ''secret'', VInt 2)])])
      (Some [''$..secret'']) REDACTED_PLACEHOLDER False) =
    VDict [(KStr ''secret'', VStr REDACTED_PLACEHOLDER), (KStr ''z'', VDict [(KStr ''secret'', VInt 2)])]"
  by (rule nested_match_leaks) simp

subsection \<open>Paths as jsonpath-ng writes them\<close>

text \<open>\<open>str\<close> of a full path: keys and bracketed indices, joined by dots.\<close>

fun seg_text :: "seg \<Rightarrow> string" where
  "seg_text (SKey k) = k"
| "seg_text (SIdx n) = ''['' @ dec_nat n @ '']''"

fun plain_seg :: "seg \<Rightarrow> bool" where
  "plain_seg (SKey k) \<longleftrightarrow> k \<noteq> [] \<and> list_all key_part k"
| "plain_seg (SIdx n) \<longleftrightarrow> True"

definition path_text :: "seg list \<Rightarrow> string" where
  "path_text q = join_with ''.'' (map seg_text q)"

lemma key_part_punct [simp]:
  "\<not> key_part (CHR ''.'')" "\<not> key_part (CHR ''['')" "\<not> key_part (CHR '']'')"
  by (simp_all add: key_part_def)

lemma find_segments_dot [simp]: "find_segments (CHR ''.'' # cs) = find_segments cs"
  by simp

lemma find_segments_index:
  "find_segments (CHR ''['' # dec_nat n @ CHR '']'' # cs) = SIdx n # find_segments cs"
proof -
  have d: "list_all is_digit (dec_nat n)" by (auto simp: list_all_iff dest: dec_nat_digits)
  have "takeWhile is_digit (dec_nat n @ CHR '']'' # cs) = dec_nat n"
    "dropWhile is_digit (dec_nat n @ CHR '']'' # cs) = CHR '']'' # cs"
    using d by (simp_all add: list_all_iff takeWhile_append2 dropWhile_append2 is_digit_def)
  then show ?thesis by simp
qed

lemma find_segments_key:
  assumes "k \<noteq> []" "list_all key_part k" "cs = [] \<or> \<not> key_part (hd cs)"
  shows "find_segments (k @ cs) = SKey k # find_segments cs"
proof (cases k)
  case (Cons c k')
  have "takeWhile key_part (k' @ cs) = k'" "dropWhile key_part (k' @ cs) = cs"
    using assms(2,3) Cons
    by (cases cs; simp add: list_all_iff takeWhile_append2 dropWhile_append2)+
  then show ?thesis using assms(2) Cons by simp
qed (use assms(1) in simp)

lemma find_segments_path: "list_all plain_seg q \<Longrightarrow> find_segments (path_text q) = q"
proof (induction q)
  case (Cons s q)
  let ?rest = "case q of [] \<Rightarrow> [] | _ \<Rightarrow> CHR ''.'' # path_text q"
  have parts: "path_text (s' # q) = seg_text s' @ ?rest" for s'
    by (cases q) (simp_all add: path_text_def)
  have "find_segments ?rest = q" using Cons by (cases q) simp_all
  moreover have "?rest = [] \<or> \<not> key_part (hd ?rest)" by (cases q) simp_all
  ultimately show ?case
    using Cons.prems by (cases s) (simp_all add: parts find_segments_key find_segments_index del: find_segments.simps(2))
qed (simp add: path_text_def)

text \<open>
  Paths are read back. A path of indices and of keys that are not empty and have none of the
  characters \<open>.\<close>, \<open>[\<close> and \<open>]\<close> is parsed from its text to its segments, provided its text does not
  begin with \<open>$\<close>; and also if \<open>$.\<close> precedes the text.
\<close>

theorem path_roundtrip:
  assumes "list_all plain_seg q" "\<not> prefix ''$'' (path_text q)"
  shows "parse_path_segments (path_text q) = q \<and> parse_path_segments (''$.'' @ path_text q) = q"
  using assms by (simp add: parse_path_segments_def find_segments_path)

theorem path_roundtrip_witness:
  "parse_path_segments (path_text [SKey ''items'', SIdx 10, SKey ''name'']) = [SKey ''items'', SIdx 10, SKey ''name'']"
  using path_roundtrip [of "[SKey ''items'', SIdx 10, SKey ''name'']"]
  by (simp add: key_part_def path_text_def)

subsection \<open>What the scan reports\<close>

text \<open>The text the scan gives a location.\<close>

fun loc_text :: "seg \<Rightarrow> string" where
  "loc_text (SKey k) = ''.'' @ k"
| "loc_text (SIdx n) = ''['' @ dec_nat n @ '']''"

definition location :: "string \<Rightarrow> seg list \<Rightarrow> string" where
  "location root q = root @ concat (map loc_text q)"

definition sensitive_seg :: "seg \<Rightarrow> bool" where
  "sensitive_seg s = (case s of SKey k \<Rightarrow> sensitive_key k | SIdx n \<Rightarrow> False)"

text \<open>The locations of \<open>d\<close> that end in a sensitive key.\<close>

definition sensitive_at :: "pyval \<Rightarrow> seg list \<Rightarrow> bool" where
  "sensitive_at d q \<longleftrightarrow> q \<noteq> [] \<and> sensitive_seg (last q) \<and> get_at q d \<noteq> None"

lemma sensitive_at_Cons:
  "sensitive_at d (s # q) \<longleftrightarrow>
     (\<exists>c. child s d = Some c \<and> (q = [] \<and> sensitive_seg s \<or> sensitive_at c q))"
  by (auto simp: sensitive_at_def split: option.splits)

lemma location_Cons: "location root (s # q) = location (root @ loc_text s) q"
  by (simp add: location_def)

definition reported :: "pyval \<Rightarrow> string \<Rightarrow> string set" where
  "reported d root = {location root q | q. sensitive_at d q}"

lemma reported_step:
  "x \<in> reported d root \<longleftrightarrow> (\<exists>s c. child s d = Some c \<and>
     (sensitive_seg s \<and> x = root @ loc_text s \<or> x \<in> reported c (root @ loc_text s)))"
proof
  assume "x \<in> reported d root"
  then obtain q where q: "x = location root q" "sensitive_at d q" by (auto simp: reported_def)
  then obtain s r where "q = s # r" by (cases q) (auto simp: sensitive_at_def)
  with q obtain c where "child s d = Some c" "r = [] \<and> sensitive_seg s \<or> sensitive_at c r"
    "x = location (root @ loc_text s) r"
    by (auto simp: sensitive_at_Cons location_Cons)
  then show "\<exists>s c. child s d = Some c \<and>
      (sensitive_seg s \<and> x = root @ loc_text s \<or> x \<in> reported c (root @ loc_text s))"
    by (intro exI [of _ s] exI [of _ c]) (auto simp: reported_def location_def)
next
  assume "\<exists>s c. child s d = Some c \<and>
      (sensitive_seg s \<and> x = root @ loc_text s \<or> x \<in> reported c (root @ loc_text s))"
  then obtain s c where c: "child s d = Some c"
    "sensitive_seg s \<and> x = root @ loc_text s \<or> x \<in> reported c (root @ loc_text s)" by blast
  then consider "sensitive_seg s" "x = location root [s]"
    | q where "sensitive_at c q" "x = location root (s # q)"
    by (auto simp: reported_def location_Cons location_def)
  then show "x \<in> reported d root"
    by cases (use c(1) in \<open>auto simp: reported_def sensitive_at_Cons\<close>)
qed

lemma child_dict_plain:
  assumes "plain (VDict kvs)"
  shows "child s (VDict kvs) = Some c \<longleftrightarrow> (\<exists>k. s = SKey k \<and> (KStr k, c) \<in> set kvs)"
proof (cases s)
  case (SKey k)
  then show ?thesis using assms by (auto simp: map_of_eq_Some_iff)
next
  case (SIdx n)
  have "KInt (int n) \<notin> fst ` set kvs" "find (\<lambda>k. key_number k = Some (int n)) (map fst kvs) = None"
    using assms by (auto simp: find_None_iff list_all_iff)
  then show ?thesis using SIdx by (simp add: int_key_def map_of_eq_None_iff [THEN iffD2])
qed

lemma child_list: "child s (VList xs) = Some c \<longleftrightarrow> (\<exists>n. s = SIdx n \<and> n < length xs \<and> xs ! n = c)"
  by (cases s) auto

lemma reported_dict:
  assumes "plain (VDict kvs)"
  shows "x \<in> reported (VDict kvs) root \<longleftrightarrow> (\<exists>k c. (KStr k, c) \<in> set kvs \<and>
    (sensitive_key k \<and> x = root @ ''.'' @ k \<or> x \<in> reported c (root @ ''.'' @ k)))"
proof -
  have "(\<exists>s c. (\<exists>k. s = SKey k \<and> P k c) \<and> Q s c) \<longleftrightarrow> (\<exists>k c. P k c \<and> Q (SKey k) c)"
    for P :: "string \<Rightarrow> pyval \<Rightarrow> bool" and Q by blast
  then show ?thesis
    by (subst reported_step) (simp only: child_dict_plain [OF assms] sensitive_seg_def seg.case loc_text.simps)
qed

lemma reported_list:
  "x \<in> reported (VList xs) root \<longleftrightarrow>
    (\<exists>n<length xs. x \<in> reported (xs ! n) (root @ ''['' @ dec_nat n @ '']''))"
proof -
  have "(\<exists>s c. (\<exists>n. s = SIdx n \<and> n < length xs \<and> xs ! n = c) \<and> Q s c) \<longleftrightarrow>
      (\<exists>n<length xs. Q (SIdx n) (xs ! n))" for Q by blast
  then show ?thesis
    by (subst reported_step) (simp only: child_list sensitive_seg_def seg.case loc_text.simps simp_thms)
qed

lemma emap_exists:
  "(\<And>x. x \<in> set xs \<Longrightarrow> \<exists>y. f x = Inr y \<and> P x y) \<Longrightarrow> \<exists>ys. emap f xs = Inr ys \<and> list_all2 P xs ys"
proof (induction xs)
  case (Cons x xs)
  obtain ys where "emap f xs = Inr ys" "list_all2 P xs ys" using Cons.IH Cons.prems by fastforce
  moreover obtain y where "f x = Inr y" "P x y" using Cons.prems [of x] by auto
  ultimately show ?case by auto
qed simp

lemma set_concat_all2:
  "list_all2 (\<lambda>x y. set y = F x) xs ys \<Longrightarrow> z \<in> set (concat ys) \<longleftrightarrow> (\<exists>x\<in>set xs. z \<in> F x)"
  by (induction rule: list_all2_induct) auto

text \<open>One item of a dictionary, one item of a list.\<close>

definition scan_item :: "string \<Rightarrow> pykey \<Rightarrow> pyval \<Rightarrow> py_exn + string list" where
  "scan_item path k v = ebind (check_key k) (\<lambda>hit.
     ebind (scan_for_sensitive v (path @ ''.'' @ key_str k)) (\<lambda>found.
     Inr ((if hit then [path @ ''.'' @ key_str k] else []) @ found)))"

lemma scan_dict:
  "scan_for_sensitive (VDict kvs) path =
     ebind (emap (\<lambda>x. scan_item path (fst x) (snd x)) kvs) (\<lambda>fs. Inr (concat fs))"
  by (simp add: scan_item_def case_prod_unfold)

lemma scan_dict_reports:
  assumes "plain (VDict kvs)"
    and "\<And>k v. (KStr k, v) \<in> set kvs \<Longrightarrow>
      \<exists>found. scan_for_sensitive v (path @ ''.'' @ k) = Inr found \<and> set found = reported v (path @ ''.'' @ k)"
  shows "\<exists>found. scan_for_sensitive (VDict kvs) path = Inr found \<and> set found = reported (VDict kvs) path"
proof -
  have keys: "\<exists>k. fst x = KStr k \<and> (KStr k, snd x) \<in> set kvs" if "x \<in> set kvs" for x
    using assms(1) that by (cases x) (auto simp: list_all_iff)
  let ?F = "\<lambda>x. (if sensitive_key (key_str (fst x)) then {path @ ''.'' @ key_str (fst x)} else {})
    \<union> reported (snd x) (path @ ''.'' @ key_str (fst x))"
  have "\<exists>fs. emap (\<lambda>x. scan_item path (fst x) (snd x)) kvs = Inr fs \<and>
      list_all2 (\<lambda>x f. set f = ?F x) kvs fs"
  proof (rule emap_exists)
    fix x assume "x \<in> set kvs"
    then obtain k where k: "fst x = KStr k" "(KStr k, snd x) \<in> set kvs" using keys by blast
    then obtain found where "scan_for_sensitive (snd x) (path @ ''.'' @ k) = Inr found"
      "set found = reported (snd x) (path @ ''.'' @ k)" using assms(2) by blast
    then show "\<exists>y. scan_item path (fst x) (snd x) = Inr y \<and> set y = ?F x"
      by (simp add: scan_item_def k(1))
  qed
  then obtain fs where fs: "emap (\<lambda>x. scan_item path (fst x) (snd x)) kvs = Inr fs"
    "list_all2 (\<lambda>x f. set f = ?F x) kvs fs" by blast
  have "z \<in> set (concat fs) \<longleftrightarrow> z \<in> reported (VDict kvs) path" for z
  proof -
    have "(\<exists>x\<in>set kvs. z \<in> ?F x) \<longleftrightarrow> (\<exists>k c. (KStr k, c) \<in> set kvs \<and>
        (sensitive_key k \<and> z = path @ ''.'' @ k \<or> z \<in> reported c (path @ ''.'' @ k)))"
      (is "?l \<longleftrightarrow> ?r")
    proof
      assume ?l
      then obtain x where "x \<in> set kvs" "z \<in> ?F x" by blast
      moreover from this obtain k where "fst x = KStr k" "(KStr k, snd x) \<in> set kvs" using keys by blast
      ultimately show ?r by (auto split: if_splits)
    next
      assume ?r
      then obtain k c where "(KStr k, c) \<in> set kvs"
        "sensitive_key k \<and> z = path @ ''.'' @ k \<or> z \<in> reported c (path @ ''.'' @ k)" by blast
      then show ?l by (intro bexI [of _ "(KStr k, c)"]) auto
    qed
    then show ?thesis by (simp only: set_concat_all2 [OF fs(2)] reported_dict [OF assms(1)])
  qed
  then have "set (concat fs) = reported (VDict kvs) path" by blast
  then show ?thesis by (simp only: scan_dict fs(1) ebind_simps) blast
qed

lemma scan_list_reports:
  assumes "\<And>i. i < length xs \<Longrightarrow>
      \<exists>found. scan_for_sensitive (xs ! i) (path @ ''['' @ dec_nat i @ '']'') = Inr found \<and>
        set found = reported (xs ! i) (path @ ''['' @ dec_nat i @ '']'')"
  shows "\<exists>found. scan_for_sensitive (VList xs) path = Inr found \<and> set found = reported (VList xs) path"
proof -
  let ?F = "\<lambda>x. reported (snd x) (path @ ''['' @ dec_nat (fst x) @ '']'')"
  have "\<exists>fs. emap (\<lambda>(i, v). scan_for_sensitive v (path @ ''['' @ dec_nat i @ '']'')) (List.enumerate 0 xs) = Inr fs \<and>
      list_all2 (\<lambda>x f. set f = ?F x) (List.enumerate 0 xs) fs"
    by (rule emap_exists) (use assms in \<open>auto simp: in_set_enumerate_eq\<close>)
  then obtain fs where fs:
    "emap (\<lambda>(i, v). scan_for_sensitive v (path @ ''['' @ dec_nat i @ '']'')) (List.enumerate 0 xs) = Inr fs"
    "list_all2 (\<lambda>x f. set f = ?F x) (List.enumerate 0 xs) fs" by blast
  have "z \<in> set (concat fs) \<longleftrightarrow> z \<in> reported (VList xs) path" for z
    unfolding set_concat_all2 [OF fs(2)] reported_list
    by (auto simp: in_set_enumerate_eq Bex_def)
  then have "set (concat fs) = reported (VList xs) path" by blast
  then show ?thesis by (simp only: scan_for_sensitive.simps fs(1) ebind_simps) blast
qed

lemma reported_atoms:
  "(\<And>s. child s d = None) \<Longrightarrow> reported d root = {}"
  using reported_step [of _ d root] by auto

lemma scan_reports:
  "plain d \<Longrightarrow> \<exists>found. scan_for_sensitive d root = Inr found \<and> set found = reported d root"
proof (induction d arbitrary: root rule: plain.induct)
  case (1 xs)
  show ?case
  proof (rule scan_list_reports)
    fix i assume "i < length xs"
    with 1 show "\<exists>found. scan_for_sensitive (xs ! i) (root @ ''['' @ dec_nat i @ '']'') = Inr found \<and>
        set found = reported (xs ! i) (root @ ''['' @ dec_nat i @ '']'')"
      by (simp add: list_all_length)
  qed
next
  case (2 kvs)
  show ?case
  proof (rule scan_dict_reports [OF 2(2)])
    fix k v assume "(KStr k, v) \<in> set kvs"
    with 2 show "\<exists>found. scan_for_sensitive v (root @ ''.'' @ k) = Inr found \<and>
        set found = reported v (root @ ''.'' @ k)"
      by (fastforce simp: list_all_iff)
  qed
qed (simp_all add: reported_atoms)

text \<open>
  C25: the scan finds the sensitive keys, all of them and no others. On JSON data it raises nothing,
  and the paths it returns are the texts of exactly those locations, through dictionaries and lists
  at any depth, whose last step is a key that matches a pattern.
\<close>

theorem scan_is_exact:
  assumes "plain d"
  shows "\<exists>found. detect_sensitive_keys d = Inr found \<and>
    set found = {location ''$'' q | q. sensitive_at d q}"
  using scan_reports [OF assms, of "''$''"] by (simp add: detect_sensitive_keys_def reported_def)

theorem scan_is_exact_witness:
  "\<exists>found. detect_sensitive_keys (VDict [(KStr ''users'', VList [VDict [(KStr ''API-Key'', VInt 1)]])]) = Inr found \<and>
     set found = {location ''$'' q | q.
       sensitive_at (VDict [(KStr ''users'', VList [VDict [(KStr ''API-Key'', VInt 1)]])]) q}"
  by (rule scan_is_exact) simp

end
