(* ===== verification/Config.thy ===== *)
theory Config
  imports Py_Ops
begin

text \<open>
  The configuration loader (sim_sdk/config.py).

  \<open>disk\<close> is the text of the file that \<open>open\<close> finds under a path text, if any. PyYAML is a parameter:
  absent, or what \<open>yaml.safe_load\<close> does with a text. The working directory is an absolute path,
  as a list of parts of which the first is the root.
\<close>

subsection \<open>\<open>SimConfig\<close>\<close>

definition sink_type :: "pyval \<Rightarrow> py_exn + pyval" where
  "sink_type config = ebind (py_get config ''sink'' (VDict [])) (\<lambda>s. py_get s ''type'' (VStr ''local''))"

definition sink_config :: "pyval \<Rightarrow> py_exn + pyval" where
  "sink_config config = py_get config ''sink'' (VDict [])"

definition redaction_rules :: "pyval \<Rightarrow> py_exn + pyval" where
  "redaction_rules config = py_get config ''redaction'' (VList [])"

definition recording_enabled :: "pyval \<Rightarrow> py_exn + pyval" where
  "recording_enabled config =
     ebind (py_get config ''recording'' (VDict [])) (\<lambda>r. py_get r ''enabled'' (VBool True))"

definition config_get :: "pyval \<Rightarrow> string \<Rightarrow> pyval \<Rightarrow> py_exn + pyval" where
  "config_get config k d = py_get config k d"

subsection \<open>Loading\<close>

type_synonym disk = "string \<Rightarrow> string option"
type_synonym yaml = "(string \<Rightarrow> py_exn + pyval) option"

definition json_loads :: "string \<Rightarrow> py_exn + pyval" where
  "json_loads s = (case parse_json s of None \<Rightarrow> Inl (ValueErr ''json'') | Some j \<Rightarrow> Inr (py_of_json j))"

definition parse_simple_yaml :: "yaml \<Rightarrow> string \<Rightarrow> py_exn + pyval" where
  "parse_simple_yaml yaml content =
     (case yaml of
        Some safe_load \<Rightarrow> ebind (safe_load content) (\<lambda>v. Inr (if truthy v then v else VDict []))
      | None \<Rightarrow> (case json_loads content of Inr v \<Rightarrow> Inr v | Inl err \<Rightarrow> Inr (VDict [])))"

definition load_from_path :: "yaml \<Rightarrow> disk \<Rightarrow> string \<Rightarrow> py_exn + pyval" where
  "load_from_path yaml disk p =
     (case disk p of
        None \<Rightarrow> Inl (FileNotFoundErr p)
      | Some content \<Rightarrow>
          if suffix ''.json'' p then json_loads content else parse_simple_yaml yaml content)"

text \<open>The walk from a directory to the root; the parent of the root is the root.\<close>

function walk_up :: "disk \<Rightarrow> path \<Rightarrow> string option" where
  "walk_up disk here =
     (let config_file = path_str (here @ [''sim.yaml'']) in
      if disk config_file \<noteq> None then Some config_file
      else if length here \<le> 1 then None
      else walk_up disk (butlast here))"
  by pat_completeness auto
termination
  by (relation "measure (\<lambda>(disk, here). length here)") auto

declare walk_up.simps [simp del]

text \<open>\<open>if x:\<close> for a string that may be \<open>None\<close>.\<close>

definition given :: "string option \<Rightarrow> string option" where
  "given x = (if x = Some [] then None else x)"

definition load_config ::
  "yaml \<Rightarrow> disk \<Rightarrow> string option \<Rightarrow> path \<Rightarrow> string option \<Rightarrow> py_exn + pyval" where
  "load_config yaml disk sim_config cwd config_path =
     (case given config_path of
        Some p \<Rightarrow> load_from_path yaml disk p
      | None \<Rightarrow>
          (case given sim_config of
             Some p \<Rightarrow> load_from_path yaml disk p
           | None \<Rightarrow>
               (case walk_up disk cwd of
                  Some p \<Rightarrow> load_from_path yaml disk p
                | None \<Rightarrow> Inr (VDict []))))"

subsection \<open>The walk\<close>

definition config_at :: "path \<Rightarrow> nat \<Rightarrow> string" where
  "config_at cwd n = path_str (take n cwd @ [''sim.yaml''])"

lemma butlast_take_prefix: "Suc n \<le> length cwd \<Longrightarrow> butlast (take (Suc n) cwd) = take n cwd"
  by (simp add: butlast_take)

lemma walk_up_none:
  "(\<And>n. 1 \<le> n \<Longrightarrow> n \<le> m \<Longrightarrow> disk (config_at cwd n) = None) \<Longrightarrow> 1 \<le> m \<Longrightarrow> m \<le> length cwd \<Longrightarrow>
    walk_up disk (take m cwd) = None"
proof (induction m)
  case (Suc m)
  have "disk (config_at cwd (Suc m)) = None" using Suc.prems by simp
  then show ?case
    using Suc by (subst walk_up.simps) (auto simp: Let_def config_at_def butlast_take_prefix not_less_eq_eq)
qed simp

lemma walk_up_some:
  assumes "disk (config_at cwd n) \<noteq> None" "1 \<le> n"
  shows "(\<And>k. n < k \<Longrightarrow> k \<le> m \<Longrightarrow> disk (config_at cwd k) = None) \<Longrightarrow> n \<le> m \<Longrightarrow> m \<le> length cwd \<Longrightarrow>
    walk_up disk (take m cwd) = Some (config_at cwd n)"
proof (induction m)
  case (Suc m)
  show ?case
  proof (cases "n = Suc m")
    case True
    then show ?thesis using assms by (subst walk_up.simps) (simp add: Let_def config_at_def)
  next
    case False
    then have "disk (config_at cwd (Suc m)) = None" using Suc.prems by simp
    then show ?thesis
      using Suc False assms(2) by (subst walk_up.simps) (auto simp: Let_def config_at_def butlast_take_prefix)
  qed
qed (use assms(2) in simp)

subsection \<open>Properties\<close>

text \<open>
  C40: the configuration is the nearest one. An explicit path wins over \<open>SIM_CONFIG\<close>, and an
  empty text counts as none. Without either, the file read is the \<open>sim.yaml\<close> of the deepest
  directory, from the working directory up to the root, that has one; if none has, the result is
  the empty configuration, in which the sink is local and recording is enabled, and no
  \<open>FileNotFoundError\<close> is raised.
\<close>

theorem config_search:
  assumes "1 \<le> n" "n \<le> length cwd" "disk (config_at cwd n) \<noteq> None"
    and "\<And>k. n < k \<Longrightarrow> k \<le> length cwd \<Longrightarrow> disk (config_at cwd k) = None"
    and "\<And>k. 1 \<le> k \<Longrightarrow> k \<le> length cwd \<Longrightarrow> disk' (config_at cwd k) = None"
    and "p \<noteq> []"
  shows "load_config yaml disk env cwd (Some p) = load_from_path yaml disk p \<and>
    load_config yaml disk (Some p) cwd (Some []) = load_from_path yaml disk p \<and>
    load_config yaml disk None cwd None = load_from_path yaml disk (config_at cwd n) \<and>
    load_config yaml disk' None cwd None = Inr (VDict []) \<and>
    sink_type (VDict []) = Inr (VStr ''local'') \<and> recording_enabled (VDict []) = Inr (VBool True)"
proof -
  have "walk_up disk cwd = Some (config_at cwd n)"
    using walk_up_some [where m = "length cwd" and cwd = cwd and n = n and disk = disk, OF assms(3,1,4)] assms(2) by simp
  moreover have "walk_up disk' cwd = None"
    using walk_up_none [where m = "length cwd" and cwd = cwd and disk = disk', OF assms(5)] assms(1,2) by simp
  ultimately show ?thesis
    using assms(6) by (simp add: load_config_def given_def sink_type_def recording_enabled_def get_default_def)
qed

theorem config_search_witness:
  "load_config None (\<lambda>p. if p = ''/srv/sim.yaml'' then Some ''{}'' else None) None [''/'', ''srv'', ''app''] None
    = load_from_path None (\<lambda>p. if p = ''/srv/sim.yaml'' then Some ''{}'' else None) ''/srv/sim.yaml''"
proof -
  let ?cwd = "[''/'', ''srv'', ''app'']"
  have paths: "config_at ?cwd 2 = ''/srv/sim.yaml''" "config_at ?cwd 3 = ''/srv/app/sim.yaml''"
    by (simp_all add: config_at_def numeral_eq_Suc)
  have deeper: "(\<lambda>p. if p = ''/srv/sim.yaml'' then Some ''{}'' else None) (config_at ?cwd k) = None"
    if "2 < k" "k \<le> length ?cwd" for k
  proof -
    have "k = 3" using that by simp
    then show ?thesis using paths by simp
  qed
  have found: "1 \<le> (2::nat)" "2 \<le> length ?cwd"
    "(\<lambda>p. if p = ''/srv/sim.yaml'' then Some ''{}'' else None) (config_at ?cwd 2) \<noteq> None"
    using paths by simp_all
  from config_search [where disk' = "\<lambda>p. None" and p = "''x''" and yaml = None and n = 2 and cwd = ?cwd
      and disk = "\<lambda>p. if p = ''/srv/sim.yaml'' then Some ''{}'' else None", OF found deeper]
  show ?thesis using paths(1) by simp
qed

end
