(* ===== verification/Spec2Isabelle.thy ===== *)
theory Spec2Isabelle
  imports Tasks Ordinal_Race Fine_Sending Async_Trace Record_Sink Redaction Config
begin

text \<open>
  Verification of the dopl SDK, the Python package under src/sim_sdk/sim_sdk, and of the quote service
  that uses it, src/examples/flask_app/app.py.

  The SDK runs an application in one of three modes. In record mode, functions decorated with
  \<open>sim_trace\<close>, blocks under \<open>sim_capture\<close> and queries through \<open>sim_db\<close> run and leave fixtures; in
  replay mode the fixtures stand in for the functions, the dependencies and the database; in off
  mode nothing happens. Fixtures are found again by a fingerprint of the call and an ordinal that
  numbers its repetitions, both kept per \<open>SimContext\<close>. Recorded events go to a sink: to files, or
  through a bounded buffer and a sender thread to a record agent over HTTP.

  The parts, from the bottom up, with their theories and the files they model:

  \<^item> \<^bold>\<open>Prelude\<close>, \<^bold>\<open>Sha256\<close>, \<^bold>\<open>Json_Text\<close>: what the SDK uses of Python. Strings, dictionaries as
    association lists in insertion order, results as an exception or a value, SHA-256 to the bit,
    UTF-8, and the JSON text of \<open>json.dumps\<close> with a reader. Reading what was written gives it back.
  \<^item> \<^bold>\<open>Py_Value\<close> (trace.py): the values the SDK handles, and \<open>_make_serializable\<close>.
  \<^item> \<^bold>\<open>Canonical\<close> (canonical.py): canonical JSON and fingerprints, on the encoder of \<open>json\<close> with its
    \<open>default\<close> hook. Canonical texts are equal exactly for equal data up to the order of items.
  \<^item> \<^bold>\<open>Sql\<close> (canonical.py, db.py): the two SQL normalisers, the fingerprint of a query, and which
    statements count as writes.
  \<^item> \<^bold>\<open>Fixture\<close> (fixture/schema.py), \<^bold>\<open>Context\<close> (context.py): the fixture event; \<open>SimContext\<close> and the
    context variable, in a world that also holds the files and the clock. Contexts live in a store
    and are passed by reference, so that aliasing shows.
  \<^item> \<^bold>\<open>Fixture_Store\<close>: the abstract store behind the three recorders. Its locale \<open>fixture_paths\<close>
    proves once that a recorded run replays, from what a fixture path determines; \<open>trace_store\<close>,
    \<open>capture_store\<close> and \<open>db_store\<close> interpret it with the three key functions of the code.
  \<^item> \<^bold>\<open>Trace\<close>, \<^bold>\<open>Trace_Session\<close>, \<^bold>\<open>Trace_Props\<close> (trace.py): the decorator. Binding of arguments, replay,
    record with the \<open>finally\<close> block; sessions of calls recorded and replayed; nesting, exceptions,
    transparency.
  \<^item> \<^bold>\<open>Capture\<close> (capture.py), \<^bold>\<open>Db\<close> (db.py): the capture block with its handle and the query proxy,
    each with its fixtures and its round trip.
  \<^item> \<^bold>\<open>Confined\<close>, \<^bold>\<open>Trace_Nested\<close>: the three primitives in one context. \<open>confined\<close> bounds the ordinals and the
    files a computation draws and changes while it records, through any sink; nested calls, captured
    blocks, queries and sequences of them are confined if their parts are. Sessions of nested calls
    within the bounds replay, and a nested call outside them shifts the replay. \<open>Digests\<close> has two
    fingerprints computed to the bit, the concrete inputs there.
  \<^item> \<^bold>\<open>Async_Trace\<close> (trace.py): traced coroutines that share a context. \<open>async_step\<close> is a call that begins, a
    call that ends, or whatever else runs between two awaits, the two ends of a captured block
    among it (\<open>confined_capture_setup\<close>, \<open>confined_capture_teardown\<close>); in every interleaving the depth counts
    the suspended calls and no two calls share a fixture, and the calls replay in the order they
    began. The stubs of calls that overlap go to the wrong events, and a cancelled call is
    recorded as one that returned \<open>None\<close>.
  \<^item> \<^bold>\<open>Isolated\<close>, \<^bold>\<open>Tasks\<close> (context.py): the context variable of each thread and task. A computation is
    \<open>isolated\<close> if it touches no context but the current one and those it makes; every program built
    from the SDK's operations is (\<open>sdk_program\<close>, \<open>sdk_isolated\<close>). \<open>task_step\<close> starts threads with an empty
    variable and tasks with a copy; threads do not see each other's contexts, and ordinals are
    numbered per context object, across the tasks that share it.
  \<^item> \<^bold>\<open>Ordinal_Race\<close> (context.py, \<open>next_ordinal\<close>): threads that share a context, each of the two statements a
    step. Draws that do not overlap implement \<open>next_ordinal\<close> as one step; a stalled one rewinds the
    counter.
  \<^item> \<^bold>\<open>Event_Buffer\<close> (sink/in_memory_buffer.py): the buffer with its drop policies. The locale
    \<open>event_buffer\<close> is what its clients rely on, interpreted by \<open>memory_buffer\<close>.
  \<^item> \<^bold>\<open>Record_Sink\<close> (sink/record_sink.py): the buffered sink, and that its file-writing subclass is the
    writer of the trace sessions.
  \<^item> \<^bold>\<open>Envelope\<close> (sink/envelope.py, sink/agent_client.py): the wire format and one HTTP request.
  \<^item> \<^bold>\<open>Sender\<close> (sink/sender_metrics.py, sink/sender_worker.py): counters, chunks and retries.
  \<^item> \<^bold>\<open>Runs\<close>, \<^bold>\<open>Worker\<close> (sink/agent_sink.py, sink/sender_worker.py): the agent sink and its sender
    threads as a step relation over all interleavings. The locales \<open>kept_by\<close> and \<open>ranked_steps\<close>
    are the contracts of an invariant and of a thread that makes progress; the accounts, the final
    drain, stopping and flushing interpret them.
  \<^item> \<^bold>\<open>Delivery\<close>: a channel as the abstract specification of the transport, and that the sink's
    threads implement it: the agent gets the emitted events in order. The locale \<open>simulated_by\<close> of
    \<open>Runs\<close> is the contract; \<open>delivery\<close> interprets it.
  \<^item> \<^bold>\<open>Fine_Sending\<close> (sink/sender_worker.py): in \<open>Worker\<close> a drained batch is sent in one step; here every
    request and every call of the counters is one. With one sender thread the two reach the same states.
  \<^item> \<^bold>\<open>Pipeline\<close>: the whole way of a fixture. Traced calls record into an agent sink while its sender
    thread works, and what the agent got is stored and replayed. The receiving end is the model's
    own: the repository has none for Python.
  \<^item> \<^bold>\<open>Redaction\<close> (redaction.py), \<^bold>\<open>Config\<close> (config.py): replacing sensitive values with and without
    jsonpath-ng, the scan for sensitive keys; the search for the configuration file.
  \<^item> \<^bold>\<open>Py_Ops\<close>, \<^bold>\<open>Flask_App\<close>, \<^bold>\<open>Flask_Replay\<close> (examples/flask_app/app.py): the quote service, statement by statement,
    with \<open>sqlite3\<close> as a parameter; that a recorded request replays with the same answer and without
    the database, what becomes of one that failed, that the service's own sink leaves nothing to replay,
    that off mode is the service without the SDK, and what its loop computes. The requests
    are composed from \<open>confined\<close> parts; no query or capture is opened again.

  A computation of the SDK is a function from the world to a result and a world; exceptions are
  \<open>Inl\<close>. What the SDK is given is a parameter: the body of a traced function, the database object,
  the sink's \<open>emit\<close>, the agent behind \<open>urlopen\<close>, sqlparse, jsonpath-ng, PyYAML, what protobuf makes of its
  messages. Where a property relies on one of them, its hypothesis says what: a quiet body does not
  touch contexts or files, a counting agent's answer adds up to the events posted. Clocks,
  identifiers, the size of a list object and random numbers are readings, arbitrary unless a
  hypothesis bounds them.

  Bounds and fuel: the JSON parser is the only definition with fuel; the number of tokens is
  always enough (\<open>parse_tokens\<close>). The encoder with its \<open>default\<close> hook terminates because each
  replacement lowers \<open>weight\<close>. The walk up the directories, the chunks, the scan and the path
  parser are total by measures. A sender thread has at most nine steps left once it is stopped, and
  six until it answers a flush; sending a batch takes at most \<open>pieces_left\<close> pieces.

  Not modelled: code points above U+00FF; float keys of serialised dictionaries, float arithmetic
  (the service computes prices with any three operations \<open>arith\<close>) and cyclic data; the calling of
  hooks and views by Flask; objects that raise when they are inspected; failures of the file system
  while fixtures are written; threads that share a context, but for the drawing of ordinals; log
  lines other than those a property mentions. A float read from JSON keeps its digits as they stand.
  Several sender threads, of which a stop that times out can leave one behind, send their batches in one
  step each. The record agent (Go, under agent/), deployment files, tools and the re-exporting
  \<open>__init__\<close> files are outside the development; so is examples/plain_python/demo.py, which imports modules
  the repository does not have.
\<close>

end
